(* ===== verification/Prelude.thy ===== *)
theory Prelude
  imports Complex_Main "HOL-Library.Sublist" "HOL-Library.List_Lexorder" "HOL-Library.Char_ord"
begin

text \<open>
  The shared ground of the development: Go byte strings and the functions of Go's package
  \<open>strings\<close> that the program calls, 64-bit wrap-around of Go's \<open>int\<close>, and the lemma
  collections the component theories use.

  A Go string is a sequence of bytes and \<open>len\<close> counts bytes; \<^typ>\<open>string\<close> is a list of
  \<^typ>\<open>char\<close>, which has exactly 256 values, so \<^const>\<open>length\<close> is Go's \<open>len\<close> and byte
  indexing is list indexing. Go compares strings bytewise; \<open>List_Lexorder\<close> with
  \<open>Char_ord\<close> is that order.
\<close>

named_theorems str_simps \<open>equations of the byte-string functions\<close>
named_theorems inv_intros \<open>introduction rules for the components' invariants\<close>

section \<open>Results\<close>

text \<open>A Go function returning \<open>(T, error)\<close> is modelled by \<open>'e + 'a\<close> with \<open>Inl\<close> the error.\<close>

definition bindR :: "'e + 'a \<Rightarrow> ('a \<Rightarrow> 'e + 'b) \<Rightarrow> 'e + 'b" where
  "bindR r f = (case r of Inl e \<Rightarrow> Inl e | Inr a \<Rightarrow> f a)"

lemma bindR_simps [simp]: "bindR (Inl e) f = Inl e" "bindR (Inr a) f = f a"
  by (simp_all add: bindR_def)

lemma bindR_assoc: "bindR (bindR r f) g = bindR r (\<lambda>a. bindR (f a) g)"
  by (cases r) simp_all

lemma bindR_Inr_iff: "bindR r f = Inr b \<longleftrightarrow> (\<exists>a. r = Inr a \<and> f a = Inr b)"
  by (cases r) auto

section \<open>Go's int\<close>

text \<open>Go's \<open>int\<close> is 64 bits on the released targets; an arithmetic result is reduced to it.\<close>

definition wrap64 :: "int \<Rightarrow> int" where
  "wrap64 x = (x + 2 ^ 63) mod 2 ^ 64 - 2 ^ 63"

lemma wrap64_id: "- (2 ^ 63) \<le> x \<Longrightarrow> x < 2 ^ 63 \<Longrightarrow> wrap64 x = x"
  by (simp add: wrap64_def)

lemma wrap64_range: "- (2 ^ 63) \<le> wrap64 x \<and> wrap64 x < 2 ^ 63"
proof -
  have "0 \<le> (x + 2 ^ 63) mod 2 ^ 64" "(x + 2 ^ 63) mod 2 ^ 64 < (2 ^ 64 :: int)"
    by simp_all
  then show ?thesis by (simp add: wrap64_def)
qed

section \<open>Byte strings\<close>

definition LF :: char where "LF = CHR 0x0A"
definition CR :: char where "CR = CHR 0x0D"
definition TAB :: char where "TAB = CHR 0x09"
definition SP :: char where "SP = CHR 0x20"
definition DQ :: char where "DQ = CHR 0x22"
definition BSL :: char where "BSL = CHR 0x5C"

lemmas char_defs = LF_def CR_def TAB_def SP_def DQ_def BSL_def

text \<open>\<open>strings.HasPrefix\<close>, \<open>HasSuffix\<close>, \<open>TrimPrefix\<close>, \<open>TrimSuffix\<close>, \<open>IndexByte\<close>.\<close>

definition HasPrefix :: "string \<Rightarrow> string \<Rightarrow> bool" where
  "HasPrefix s p = (take (length p) s = p)"

definition HasSuffix :: "string \<Rightarrow> string \<Rightarrow> bool" where
  "HasSuffix s p = (length p \<le> length s \<and> drop (length s - length p) s = p)"

definition TrimPrefix :: "string \<Rightarrow> string \<Rightarrow> string" where
  "TrimPrefix s p = (if HasPrefix s p then drop (length p) s else s)"

definition TrimSuffix :: "string \<Rightarrow> string \<Rightarrow> string" where
  "TrimSuffix s p = (if HasSuffix s p then take (length s - length p) s else s)"

fun IndexByte :: "string \<Rightarrow> char \<Rightarrow> nat option" where
  \<comment> \<open>Go returns -1 where this is None.\<close>
  "IndexByte [] c = None"
| "IndexByte (x # xs) c = (if x = c then Some 0 else map_option Suc (IndexByte xs c))"

fun ContainsStr :: "string \<Rightarrow> string \<Rightarrow> bool" where
  "ContainsStr [] p = (p = [])"
| "ContainsStr (x # xs) p = (HasPrefix (x # xs) p \<or> ContainsStr xs p)"

lemma HasPrefix_iff: "HasPrefix s p \<longleftrightarrow> (\<exists>t. s = p @ t)"
  by (metis HasPrefix_def append_eq_conv_conj append_take_drop_id)

lemma HasSuffix_iff: "HasSuffix s p \<longleftrightarrow> (\<exists>t. s = t @ p)"
proof
  assume "HasSuffix s p"
  then show "\<exists>t. s = t @ p" by (metis HasSuffix_def append_take_drop_id)
next
  assume "\<exists>t. s = t @ p"
  then show "HasSuffix s p" by (auto simp: HasSuffix_def)
qed

lemma HasPrefix_append [simp]: "HasPrefix (p @ t) p"
  by (auto simp: HasPrefix_iff)

lemma HasSuffix_append [simp]: "HasSuffix (t @ p) p"
  by (auto simp: HasSuffix_iff)

lemma HasPrefix_single [simp]: "HasPrefix s [c] \<longleftrightarrow> s \<noteq> [] \<and> hd s = c"
  by (cases s) (auto simp: HasPrefix_def)

lemma HasSuffix_single [simp]: "HasSuffix s [c] \<longleftrightarrow> s \<noteq> [] \<and> last s = c"
  by (cases s rule: rev_cases) (auto simp: HasSuffix_def)

lemma ContainsStr_iff: "ContainsStr s p \<longleftrightarrow> (\<exists>u v. s = u @ p @ v)"
proof (induction s)
  case Nil
  then show ?case by simp
next
  case (Cons x xs)
  show ?case
  proof
    assume "ContainsStr (x # xs) p"
    then consider (a) v where "x # xs = p @ v" | (b) "ContainsStr xs p"
      by (auto simp: HasPrefix_iff)
    then show "\<exists>u v. x # xs = u @ p @ v"
    proof cases
      case a
      then have "x # xs = [] @ p @ v" by simp
      then show ?thesis by blast
    next
      case b
      with Cons.IH obtain u v where "xs = u @ p @ v" by auto
      then have "x # xs = (x # u) @ p @ v" by simp
      then show ?thesis by blast
    qed
  next
    assume "\<exists>u v. x # xs = u @ p @ v"
    then obtain u v where uv: "x # xs = u @ p @ v" by blast
    show "ContainsStr (x # xs) p"
    proof (cases u)
      case Nil
      with uv have "HasPrefix (x # xs) p" by (simp add: HasPrefix_iff)
      then show ?thesis by simp
    next
      case (Cons y u')
      with uv have "xs = u' @ p @ v" by simp
      with Cons.IH show ?thesis by auto
    qed
  qed
qed

lemma IndexByte_None_iff: "IndexByte s c = None \<longleftrightarrow> c \<notin> set s"
  by (induction s) auto

lemma IndexByte_SomeD: "IndexByte s c = Some i \<Longrightarrow> i < length s \<and> s ! i = c \<and> c \<notin> set (take i s)"
  by (induction s arbitrary: i) (auto split: if_splits)

lemma length_TrimPrefix: "length (TrimPrefix s p) \<le> length s"
  by (simp add: TrimPrefix_def)

lemma length_TrimSuffix: "length (TrimSuffix s p) \<le> length s"
  by (simp add: TrimSuffix_def)

subsection \<open>Split and Join\<close>

text \<open>\<open>strings.Split(s, sep)\<close> for a one-byte separator (never the empty list) and
  \<open>strings.Join\<close>; \<open>SplitN\<close> stops splitting when \<open>n\<close> pieces are there.\<close>

fun splitOn :: "char \<Rightarrow> string \<Rightarrow> string list" where
  "splitOn c [] = [[]]"
| "splitOn c (x # xs) =
     (if x = c then [] # splitOn c xs
      else (case splitOn c xs of [] \<Rightarrow> [[x]] | y # ys \<Rightarrow> (x # y) # ys))"

fun Join :: "string list \<Rightarrow> string \<Rightarrow> string" where
  "Join [] sep = []"
| "Join [x] sep = x"
| "Join (x # y # ys) sep = x @ sep @ Join (y # ys) sep"

fun SplitN :: "char \<Rightarrow> nat \<Rightarrow> string \<Rightarrow> string list" where
  "SplitN c 0 s = []"
| "SplitN c (Suc 0) s = [s]"
| "SplitN c (Suc (Suc n)) s =
     (case IndexByte s c of None \<Rightarrow> [s]
      | Some i \<Rightarrow> take i s # SplitN c (Suc n) (drop (Suc i) s))"

lemma splitOn_nonempty [simp]: "splitOn c s \<noteq> []"
  by (cases s) (auto split: list.splits)

lemma splitOn_no_sep: "x \<in> set (splitOn c s) \<Longrightarrow> c \<notin> set x"
proof (induction s arbitrary: x)
  case (Cons a s)
  then show ?case by (cases "splitOn c s") (auto split: if_splits)
qed simp

lemma splitOn_id: "c \<notin> set s \<Longrightarrow> splitOn c s = [s]"
  by (induction s) auto

lemma splitOn_append: "c \<notin> set s \<Longrightarrow> splitOn c (s @ c # t) = s # splitOn c t"
  by (induction s) auto

lemma Join_Cons: "xs \<noteq> [] \<Longrightarrow> Join (x # xs) sep = x @ sep @ Join xs sep"
  by (cases xs) auto

lemma Join_splitOn: "Join (splitOn c s) [c] = s"
proof (induction s)
  case (Cons a s)
  then show ?case
  proof (cases "splitOn c s")
    case (Cons y ys)
    with Cons.IH show ?thesis by (cases ys) auto
  qed simp
qed simp

lemma splitOn_Join:
  "xs \<noteq> [] \<Longrightarrow> \<forall>x \<in> set xs. c \<notin> set x \<Longrightarrow> splitOn c (Join xs [c]) = xs"
proof (induction xs rule: list_nonempty_induct)
  case (single x)
  then show ?case by (simp add: splitOn_id)
next
  case (cons x xs)
  then show ?case by (simp add: Join_Cons splitOn_append)
qed

lemma set_splitOn_subset: "x \<in> set (splitOn c s) \<Longrightarrow> set x \<subseteq> set s"
proof (induction s arbitrary: x)
  case (Cons a s)
  then show ?case by (cases "splitOn c s") (force split: if_splits)+
qed simp

lemma set_Join: "set (Join xs sep) \<subseteq> (\<Union>x \<in> set xs. set x) \<union> set sep"
proof (induction xs sep rule: Join.induct)
  case (3 x y ys sep)
  then show ?case by auto
qed auto

lemma splitOn_inject: "splitOn c s = splitOn c t \<Longrightarrow> s = t"
  by (metis Join_splitOn)

subsection \<open>Trimming and replacing\<close>

fun dropWhileEnd :: "(char \<Rightarrow> bool) \<Rightarrow> string \<Rightarrow> string" where
  "dropWhileEnd P s = rev (dropWhile P (rev s))"

declare dropWhileEnd.simps [simp del]

text \<open>\<open>strings.TrimRight(s, cutset)\<close> for an ASCII cutset.\<close>

definition TrimRight :: "string \<Rightarrow> char list \<Rightarrow> string" where
  "TrimRight s cutset = dropWhileEnd (\<lambda>c. c \<in> set cutset) s"

lemma dropWhileEnd_Nil [simp]: "dropWhileEnd P [] = []"
  by (simp add: dropWhileEnd.simps)

lemma dropWhileEnd_snoc:
  "dropWhileEnd P (s @ [c]) = (if P c then dropWhileEnd P s else s @ [c])"
  by (simp add: dropWhileEnd.simps)

lemma dropWhileEnd_last: "dropWhileEnd P s \<noteq> [] \<Longrightarrow> \<not> P (last (dropWhileEnd P s))"
  by (induction s rule: rev_induct) (auto simp: dropWhileEnd_snoc)

lemma dropWhileEnd_id: "s = [] \<or> \<not> P (last s) \<Longrightarrow> dropWhileEnd P s = s"
  by (cases s rule: rev_cases) (auto simp: dropWhileEnd_snoc)

lemma dropWhileEnd_prefix: "\<exists>t. s = dropWhileEnd P s @ t \<and> (\<forall>c \<in> set t. P c)"
proof (induction s rule: rev_induct)
  case (snoc c s)
  then obtain t where t: "s = dropWhileEnd P s @ t" "\<forall>c \<in> set t. P c" by blast
  show ?case
  proof (cases "P c")
    case True
    then have "s @ [c] = dropWhileEnd P (s @ [c]) @ (t @ [c])"
      using t(1) by (simp add: dropWhileEnd_snoc)
    with True t(2) show ?thesis by (intro exI [of _ "t @ [c]"]) auto
  qed (simp add: dropWhileEnd_snoc)
qed simp

lemma set_dropWhileEnd: "set (dropWhileEnd P s) \<subseteq> set s"
  using dropWhileEnd_prefix [of s P] by (metis Un_upper1 set_append)

lemma length_dropWhileEnd: "length (dropWhileEnd P s) \<le> length s"
  using dropWhileEnd_prefix [of s P] by (metis length_append le_add1)

text \<open>
  \<open>strings.ReplaceAll(s, old, new)\<close>: non-overlapping occurrences from the left. Every call in
  the program has a non-empty \<open>old\<close>; the equation for the empty one only makes the function
  total.
\<close>

function ReplaceAll :: "string \<Rightarrow> string \<Rightarrow> string \<Rightarrow> string" where
  "ReplaceAll s old new =
     (if s = [] \<or> old = [] then s
      else if HasPrefix s old then new @ ReplaceAll (drop (length old) s) old new
      else hd s # ReplaceAll (tl s) old new)"
  by pat_completeness auto
termination
  by (relation "measure (\<lambda>(s, old, new). length s)") auto

declare ReplaceAll.simps [simp del]

lemma ReplaceAll_Nil [simp]: "ReplaceAll [] old new = []"
  by (simp add: ReplaceAll.simps)

lemma ReplaceAll_skip:
  "\<not> HasPrefix (x # xs) old \<Longrightarrow> old \<noteq> [] \<Longrightarrow>
     ReplaceAll (x # xs) old new = x # ReplaceAll xs old new"
  by (simp add: ReplaceAll.simps [of "x # xs"])

lemma ReplaceAll_prefix:
  "HasPrefix s old \<Longrightarrow> s \<noteq> [] \<Longrightarrow> old \<noteq> [] \<Longrightarrow>
     ReplaceAll s old new = new @ ReplaceAll (drop (length old) s) old new"
  by (simp add: ReplaceAll.simps [of s])

lemma ReplaceAll_no: "\<not> ContainsStr s old \<Longrightarrow> ReplaceAll s old new = s"
proof (induction s)
  case (Cons x xs)
  then show ?case by (simp add: ReplaceAll.simps [of "x # xs"])
qed simp

lemma ReplaceAll_length:
  "old \<noteq> [] \<Longrightarrow> length new \<le> length old \<Longrightarrow> length (ReplaceAll s old new) \<le> length s"
proof (induction s old new rule: ReplaceAll.induct)
  case (1 s old new)
  show ?case
  proof (cases "s = []")
    case False
    show ?thesis
    proof (cases "HasPrefix s old")
      case True
      then have "length old \<le> length s" by (auto simp: HasPrefix_iff)
      with 1 False True show ?thesis by (simp add: ReplaceAll.simps [of s])
    next
      case n: False
      then have "length (ReplaceAll (tl s) old new) \<le> length (tl s)" using 1 False by simp
      with False n 1 show ?thesis by (cases s) (simp_all add: ReplaceAll_skip)
    qed
  qed simp
qed

lemma ReplaceAll_shorter:
  "old \<noteq> [] \<Longrightarrow> length new < length old \<Longrightarrow> ContainsStr s old \<Longrightarrow>
     length (ReplaceAll s old new) < length s"
proof (induction s old new rule: ReplaceAll.induct)
  case (1 s old new)
  from "1.prems" have ne: "s \<noteq> []" by (cases s) auto
  show ?case
  proof (cases "HasPrefix s old")
    case True
    then have "length old \<le> length s" by (auto simp: HasPrefix_iff)
    moreover have "length (ReplaceAll (drop (length old) s) old new) \<le> length (drop (length old) s)"
      using "1.prems" by (intro ReplaceAll_length) auto
    ultimately show ?thesis using 1 ne True by (simp add: ReplaceAll.simps [of s])
  next
    case False
    with ne "1.prems" have "ContainsStr (tl s) old" by (cases s) auto
    with 1 ne False have "length (ReplaceAll (tl s) old new) < length (tl s)" by simp
    with ne False 1 show ?thesis by (cases s) (simp_all add: ReplaceAll_skip)
  qed
qed

lemma set_ReplaceAll: "set (ReplaceAll s old new) \<subseteq> set s \<union> set new"
proof (induction s old new rule: ReplaceAll.induct)
  case (1 s old new)
  consider "s = [] \<or> old = []" | (pre) "s \<noteq> []" "old \<noteq> []" "HasPrefix s old"
    | (no) "s \<noteq> []" "old \<noteq> []" "\<not> HasPrefix s old" by blast
  then show ?case
  proof cases
    case 1
    then show ?thesis by (auto simp: ReplaceAll.simps [of s])
  next
    case pre
    then have "set (ReplaceAll (drop (length old) s) old new) \<subseteq> set (drop (length old) s) \<union> set new"
      using "1.IH" by simp
    with pre show ?thesis
      by (auto simp: ReplaceAll.simps [of s] dest!: subsetD dest: in_set_dropD)
  next
    case no
    then have "set (ReplaceAll (tl s) old new) \<subseteq> set (tl s) \<union> set new" using "1.IH" by simp
    with no show ?thesis by (cases s) (auto simp: ReplaceAll_skip)
  qed
qed

text \<open>For a one-byte \<open>old\<close>, \<open>ReplaceAll\<close> is a bytewise substitution.\<close>

lemma ReplaceAll_single:
  "ReplaceAll s [c] new = concat (map (\<lambda>x. if x = c then new else [x]) s)"
proof (induction s)
  case (Cons x xs)
  then show ?case by (simp add: ReplaceAll.simps [of "x # xs"])
qed simp

text \<open>
  \<open>strings.TrimSpace\<close>: removes leading and trailing runes with \<open>unicode.IsSpace\<close>.
  \<open>space_len s\<close> is the number of bytes of the white-space rune \<open>s\<close> begins with, 0 when it
  begins with another rune: the ASCII ones, U+0085, U+00A0, U+1680, U+2000-U+200A, U+2028,
  U+2029, U+202F, U+205F and U+3000 in UTF-8.
\<close>

definition ascii_space :: "char \<Rightarrow> bool" where
  "ascii_space c = (c \<in> set [CHR 0x09, CHR 0x0A, CHR 0x0B, CHR 0x0C, CHR 0x0D, CHR 0x20])"

definition space2 :: "char \<Rightarrow> char \<Rightarrow> bool" where
  "space2 a b = (a = CHR 0xC2 \<and> (b = CHR 0x85 \<or> b = CHR 0xA0))"

definition space3 :: "char \<Rightarrow> char \<Rightarrow> char \<Rightarrow> bool" where
  "space3 a b c =
     ((a = CHR 0xE1 \<and> b = CHR 0x9A \<and> c = CHR 0x80)
      \<or> (a = CHR 0xE2 \<and> b = CHR 0x80 \<and>
           (CHR 0x80 \<le> c \<and> c \<le> CHR 0x8A \<or> c = CHR 0xA8 \<or> c = CHR 0xA9 \<or> c = CHR 0xAF))
      \<or> (a = CHR 0xE2 \<and> b = CHR 0x81 \<and> c = CHR 0x9F)
      \<or> (a = CHR 0xE3 \<and> b = CHR 0x80 \<and> c = CHR 0x80))"

fun trim_left :: "string \<Rightarrow> string" where
  "trim_left (a # b # c # s) =
     (if ascii_space a then trim_left (b # c # s)
      else if space2 a b then trim_left (c # s)
      else if space3 a b c then trim_left s else a # b # c # s)"
| "trim_left [a, b] =
     (if ascii_space a then trim_left [b] else if space2 a b then [] else [a, b])"
| "trim_left [a] = (if ascii_space a then [] else [a])"
| "trim_left [] = []"

fun trim_right_rev :: "string \<Rightarrow> string" where
  \<comment> \<open>on the reversed string\<close>
  "trim_right_rev (c # b # a # s) =
     (if ascii_space c then trim_right_rev (b # a # s)
      else if space2 b c then trim_right_rev (a # s)
      else if space3 a b c then trim_right_rev s else c # b # a # s)"
| "trim_right_rev [b, a] =
     (if ascii_space b then trim_right_rev [a] else if space2 a b then [] else [b, a])"
| "trim_right_rev [a] = (if ascii_space a then [] else [a])"
| "trim_right_rev [] = []"

definition TrimSpace :: "string \<Rightarrow> string" where
  "TrimSpace s = rev (trim_right_rev (rev (trim_left s)))"

lemma length_trim_left: "length (trim_left s) \<le> length s"
  by (induction s rule: trim_left.induct) auto

lemma length_trim_right_rev: "length (trim_right_rev s) \<le> length s"
  by (induction s rule: trim_right_rev.induct) auto

lemma length_TrimSpace: "length (TrimSpace s) \<le> length s"
  using length_trim_left [of s] length_trim_right_rev [of "rev (trim_left s)"]
  by (simp add: TrimSpace_def)

lemma set_trim_left: "set (trim_left s) \<subseteq> set s"
  by (induction s rule: trim_left.induct) auto

lemma set_trim_right_rev: "set (trim_right_rev s) \<subseteq> set s"
  by (induction s rule: trim_right_rev.induct) auto

lemma set_TrimSpace: "set (TrimSpace s) \<subseteq> set s"
  using set_trim_left [of s] set_trim_right_rev [of "rev (trim_left s)"]
  by (auto simp: TrimSpace_def)

subsection \<open>Decimal rendering\<close>

text \<open>\<open>strconv.Itoa\<close> and \<open>%d\<close>.\<close>

fun itoa_nat :: "nat \<Rightarrow> string" where
  "itoa_nat n =
     (if n < 10 then [char_of (48 + n)] else itoa_nat (n div 10) @ [char_of (48 + n mod 10)])"

declare itoa_nat.simps [simp del]

definition Itoa :: "int \<Rightarrow> string" where
  "Itoa i = (if i < 0 then CHR ''-'' # itoa_nat (nat (- i)) else itoa_nat (nat i))"

lemma of_char_digit: "n < 10 \<Longrightarrow> of_char (char_of (48 + n) :: char) = (48 + n :: nat)"
  by simp

lemma char_digit_inject: "m < 10 \<Longrightarrow> n < 10 \<Longrightarrow> (char_of (48 + m) :: char) = char_of (48 + n) \<Longrightarrow> m = (n :: nat)"
  by (metis add_left_cancel of_char_digit)

lemma itoa_nat_ne [simp]: "itoa_nat n \<noteq> []" "[] \<noteq> itoa_nat n"
  by (subst itoa_nat.simps; simp)+

lemma itoa_nat_inject: "itoa_nat m = itoa_nat n \<Longrightarrow> m = n"
proof (induction m arbitrary: n rule: itoa_nat.induct)
  case (1 m)
  show ?case
  proof (cases "m < 10")
    case True
    show ?thesis
    proof (cases "n < 10")
      case n: True
      from 1 True n have "(char_of (48 + m) :: char) = char_of (48 + n)"
        by (simp add: itoa_nat.simps [of m] itoa_nat.simps [of n])
      then show ?thesis using True n by (rule char_digit_inject [rotated 2])
    next
      case False
      with True 1 show ?thesis
        by (simp add: itoa_nat.simps [of m] itoa_nat.simps [of n])
    qed
  next
    case False
    show ?thesis
    proof (cases "n < 10")
      case True
      with False 1 show ?thesis
        by (simp add: itoa_nat.simps [of m] itoa_nat.simps [of n])
    next
      case n: False
      from 1 False n have "itoa_nat (m div 10) = itoa_nat (n div 10)"
        and "(char_of (48 + m mod 10) :: char) = char_of (48 + n mod 10)"
        by (simp_all add: itoa_nat.simps [of m] itoa_nat.simps [of n])
      then have "m div 10 = n div 10" "m mod 10 = n mod 10"
        using 1 False by (auto intro: char_digit_inject)
      then show ?thesis by (metis div_mult_mod_eq)
    qed
  qed
qed

lemma itoa_nat_digits: "c \<in> set (itoa_nat n) \<Longrightarrow> \<exists>d < 10. c = char_of (48 + d :: nat)"
proof (induction n rule: itoa_nat.induct)
  case (1 n)
  show ?case
  proof (cases "n < 10")
    case True
    with 1 show ?thesis by (auto simp: itoa_nat.simps [of n])
  next
    case False
    with 1 show ?thesis
      by (auto simp: itoa_nat.simps [of n] intro: exI [of _ "n mod 10"])
  qed
qed

section \<open>Lists and maps\<close>

lemma map_of_map_key:
  "map_of (map (\<lambda>x. (f x, g x)) xs) k = map_option g (find (\<lambda>x. f x = k) xs)"
  by (induction xs) auto

lemma find_None_set: "find P xs = None \<longleftrightarrow> (\<forall>x \<in> set xs. \<not> P x)"
  by (auto simp: find_None_iff)

lemma find_Some_set: "find P xs = Some x \<Longrightarrow> x \<in> set xs \<and> P x"
  by (auto simp: find_Some_iff)

lemma find_distinct:
  "distinct (map f xs) \<Longrightarrow> x \<in> set xs \<Longrightarrow> find (\<lambda>y. f y = f x) xs = Some x"
  by (induction xs) (auto simp: rev_image_eqI)

lemma distinct_map_eq:
  "distinct (map f xs) \<Longrightarrow> x \<in> set xs \<Longrightarrow> y \<in> set xs \<Longrightarrow> f x = f y \<Longrightarrow> x = y"
  by (metis distinct_map inj_onD)

end
