(* ===== verification/Utf8.thy ===== *)
theory Utf8
  imports Prelude
begin

text \<open>
  Go's \<open>unicode/utf8\<close> as far as the program uses it: \<open>RuneStart\<close>, \<open>Valid\<close> and the
  width a \<open>range\<close> loop over a string advances by. The lemma the label and truncation code rests
  on is \<open>Valid_take\<close>: cutting a valid string before a byte that starts a rune leaves a valid
  string.
\<close>

definition cont_byte :: "char \<Rightarrow> bool" where
  "cont_byte c = (128 \<le> (of_char c :: nat) \<and> (of_char c :: nat) < 192)"

definition RuneStart :: "char \<Rightarrow> bool" where
  "RuneStart c = (\<not> cont_byte c)"

definition byte_in :: "nat \<Rightarrow> nat \<Rightarrow> char \<Rightarrow> bool" where
  "byte_in lo hi c = (lo \<le> of_char c \<and> of_char c \<le> hi)"

text \<open>The number of bytes of the well-formed rune a string begins with; \<open>None\<close> if it begins
  with none (the decoder then yields \<open>RuneError\<close> and advances one byte).\<close>

definition lead_width :: "nat \<Rightarrow> nat" where
  \<comment> \<open>bytes of the rune a lead byte announces; 0 for a byte no rune starts with\<close>
  "lead_width b =
     (if b < 128 then 1 else if b < 194 then 0 else if b < 224 then 2
      else if b < 240 then 3 else if b < 245 then 4 else 0)"

definition second_ok :: "nat \<Rightarrow> char \<Rightarrow> bool" where
  "second_ok b c =
     byte_in (if b = 224 then 160 else if b = 240 then 144 else 128)
             (if b = 237 then 159 else if b = 244 then 143 else 191) c"

definition tail_ok :: "nat \<Rightarrow> string \<Rightarrow> bool" where
  "tail_ok b cs = (case cs of [] \<Rightarrow> True | c # ds \<Rightarrow> second_ok b c \<and> list_all cont_byte ds)"

definition rune_len :: "string \<Rightarrow> nat option" where
  "rune_len s =
     (case s of [] \<Rightarrow> None
      | a # t \<Rightarrow>
        (let b = of_char a; n = lead_width b in
         if n = 0 \<or> length s < n then None
         else if tail_ok b (take (n - 1) t) then Some n else None))"

definition range_width :: "string \<Rightarrow> nat" where
  "range_width s = (case rune_len s of None \<Rightarrow> 1 | Some n \<Rightarrow> n)"

lemma byte_in_cont: "byte_in lo hi c \<Longrightarrow> 128 \<le> lo \<Longrightarrow> hi \<le> 191 \<Longrightarrow> cont_byte c"
  by (simp add: byte_in_def cont_byte_def)

lemma second_ok_cont: "second_ok b c \<Longrightarrow> cont_byte c"
  unfolding second_ok_def by (erule byte_in_cont) auto

lemma tail_ok_cont: "tail_ok b cs \<Longrightarrow> c \<in> set cs \<Longrightarrow> cont_byte c"
  by (auto simp: tail_ok_def list_all_iff second_ok_cont split: list.splits)

lemma lead_width_le: "lead_width b \<le> 4"
  by (simp add: lead_width_def)

lemma lead_width_start: "0 < lead_width (of_char c) \<Longrightarrow> RuneStart c"
  by (auto simp: lead_width_def RuneStart_def cont_byte_def split: if_splits)

lemma rune_len_Cons_iff:
  "rune_len (a # t) = Some n \<longleftrightarrow>
     n = lead_width (of_char a) \<and> 0 < n \<and> n \<le> Suc (length t) \<and> tail_ok (of_char a) (take (n - 1) t)"
  by (auto simp: rune_len_def Let_def)

lemma rune_len_shape:
  assumes "rune_len s = Some n"
  shows "1 \<le> n \<and> n \<le> 4 \<and> n \<le> length s \<and> RuneStart (hd s) \<and> (\<forall>i. 0 < i \<and> i < n \<longrightarrow> cont_byte (s ! i))"
proof (cases s)
  case Nil
  with assms show ?thesis by (simp add: rune_len_def)
next
  case (Cons a t)
  have "cont_byte (s ! i)" if "0 < i" "i < n" for i
  proof -
    have "take (n - 1) t ! (i - 1) \<in> set (take (n - 1) t)"
      using that assms Cons by (intro nth_mem) (auto simp: rune_len_Cons_iff)
    then have "cont_byte (take (n - 1) t ! (i - 1))"
      using assms Cons by (intro tail_ok_cont) (auto simp: rune_len_Cons_iff)
    with that Cons show ?thesis by (simp add: nth_Cons')
  qed
  then show ?thesis
    using assms Cons lead_width_le [of "of_char a"] lead_width_start [of a]
    by (auto simp: rune_len_Cons_iff)
qed

lemma rune_len_pos: "rune_len s = Some n \<Longrightarrow> 0 < n \<and> n \<le> length s \<and> s \<noteq> []"
  using rune_len_shape [of s n] by (cases s) (auto simp: rune_len_def)

lemma rune_len_append:
  assumes "rune_len s = Some n"
  shows "rune_len (s @ u) = Some n"
  using assms by (cases s) (auto simp: rune_len_Cons_iff rune_len_def [of "[]"])

lemma rune_len_take:
  assumes "rune_len s = Some n" "n \<le> k"
  shows "rune_len (take k s) = Some n"
proof -
  obtain a t where s: "s = a # t" using assms by (cases s) (auto simp: rune_len_def)
  obtain k' where k: "k = Suc k'" using assms rune_len_pos [of s n] by (cases k) auto
  have "min (n - 1) k' = n - 1" using assms k by simp
  then show ?thesis using assms unfolding s k by (auto simp: rune_len_Cons_iff)
qed

function Valid :: "string \<Rightarrow> bool" where
  "Valid s = (s = [] \<or> (case rune_len s of None \<Rightarrow> False | Some n \<Rightarrow> Valid (drop n s)))"
  by pat_completeness auto
termination
  by (relation "measure length") (auto dest: rune_len_pos)

declare Valid.simps [simp del]

lemma Valid_Nil [simp]: "Valid []"
  by (simp add: Valid.simps)

lemma Valid_step: "rune_len s = Some n \<Longrightarrow> Valid s \<longleftrightarrow> Valid (drop n s)"
  using rune_len_pos [of s n] by (simp add: Valid.simps [of s])

lemma Valid_rune: "Valid s \<Longrightarrow> s \<noteq> [] \<Longrightarrow> \<exists>n. rune_len s = Some n \<and> Valid (drop n s)"
  by (simp add: Valid.simps [of s] split: option.splits)

lemma Valid_append: "Valid s \<Longrightarrow> Valid t \<Longrightarrow> Valid (s @ t)"
proof (induction s rule: Valid.induct)
  case (1 s)
  show ?case
  proof (cases "s = []")
    case False
    then obtain n where n: "rune_len s = Some n" "Valid (drop n s)"
      using 1 Valid_rune by blast
    then have "Valid (drop n s @ t)" using 1 by simp
    moreover have "drop n (s @ t) = drop n s @ t" using rune_len_pos [OF n(1)] by simp
    ultimately show ?thesis using Valid_step [OF rune_len_append [OF n(1)]] by simp
  qed (use 1 in simp)
qed

lemma Valid_take:
  "Valid s \<Longrightarrow> k \<le> length s \<Longrightarrow> k = 0 \<or> k = length s \<or> RuneStart (s ! k) \<Longrightarrow> Valid (take k s)"
proof (induction s arbitrary: k rule: Valid.induct)
  case (1 s)
  show ?case
  proof (cases "s = [] \<or> k = 0 \<or> k = length s")
    case False
    then obtain n where n: "rune_len s = Some n" "Valid (drop n s)"
      using "1.prems" Valid_rune by blast
    note sh = rune_len_shape [OF n(1)]
    have nk: "n \<le> k" using sh False "1.prems" by (metis RuneStart_def not_le not_gr_zero)
    have "Valid (take (k - n) (drop n s))"
    proof (rule "1.IH")
      show "k - n = 0 \<or> k - n = length (drop n s) \<or> RuneStart (drop n s ! (k - n))"
        using "1.prems" False nk by auto
    qed (use False n "1.prems" in auto)
    then have "Valid (drop n (take k s))" by (simp add: drop_take)
    then show ?thesis using Valid_step [OF rune_len_take [OF n(1) nk]] by simp
  qed (use "1.prems" in auto)
qed

lemma Valid_ascii: "\<forall>c \<in> set s. (of_char c :: nat) < 128 \<Longrightarrow> Valid s"
proof (induction s)
  case (Cons c s)
  then have "rune_len (c # s) = Some 1"
    by (simp add: rune_len_Cons_iff lead_width_def tail_ok_def)
  with Cons show ?case by (simp add: Valid_step)
qed simp

section \<open>Cutting at a rune boundary\<close>

text \<open>The loop \<open>for end > 0 && !utf8.RuneStart(s[end]) { end-- }\<close>.\<close>

fun back_to_rune :: "string \<Rightarrow> nat \<Rightarrow> nat" where
  "back_to_rune s 0 = 0"
| "back_to_rune s (Suc e) = (if RuneStart (s ! Suc e) then Suc e else back_to_rune s e)"

lemma back_to_rune_le: "back_to_rune s e \<le> e"
  by (induction e) auto

lemma back_to_rune_start: "back_to_rune s e = 0 \<or> RuneStart (s ! back_to_rune s e)"
  by (induction e) auto

lemma Valid_back_to_rune: "Valid s \<Longrightarrow> e < length s \<Longrightarrow> Valid (take (back_to_rune s e) s)"
  using back_to_rune_le [of s e] back_to_rune_start [of s e] by (intro Valid_take) auto

text \<open>A boundary lies at most three bytes back in a valid string.\<close>

lemma back_to_rune_near:
  "Valid s \<Longrightarrow> e < length s \<Longrightarrow> e \<le> back_to_rune s e + 3"
proof (induction s arbitrary: e rule: Valid.induct)
  case (1 s)
  show ?case
  proof (cases e)
    case (Suc e')
    from "1.prems" obtain n where n: "rune_len s = Some n" "Valid (drop n s)"
      using Valid_rune by (metis length_greater_0_conv less_nat_zero_code list.size(3))
    note sh = rune_len_shape [OF n(1)]
    show ?thesis
    proof (cases "e < n")
      case True
      with sh show ?thesis by linarith
    next
      case False
      have IH: "e - n \<le> back_to_rune (drop n s) (e - n) + 3"
      proof (rule "1.IH")
        show "rune_len s = Some n" "Valid (drop n s)" by (rule n)+
        show "e - n < length (drop n s)" using "1.prems" False by simp
      qed
      have shift: "back_to_rune (drop n s) m = back_to_rune s (n + m) - n \<and> n \<le> back_to_rune s (n + m)"
        if "n + m < length s" for m
        using that
      proof (induction m)
        case 0
        have "RuneStart (s ! n)"
        proof -
          from n(2) 0 obtain k where "rune_len (drop n s) = Some k"
            using Valid_rune [of "drop n s"] by auto
          then have "RuneStart (hd (drop n s))" using rune_len_shape by blast
          with 0 show ?thesis by (simp add: hd_drop_conv_nth)
        qed
        then show ?case using sh by (cases n) auto
      qed simp
      from shift [of "e - n"] IH False "1.prems" show ?thesis by auto
    qed
  qed simp
qed

end
