(* ===== verification/ContentId.thy ===== *)
theory ContentId
  imports Utf8 "HOL-Library.Word"
begin

text \<open>
  The packages \<open>internal/contentid\<close>, \<open>internal/tokens\<close> and \<open>internal/fileext\<close>: hashes
  and node identifiers, the token estimate, and the extension tables.

  \<open>xxhash.Sum64String\<close> is a third-party function: every definition that hashes takes it as the
  argument \<open>h\<close>, of type \<^typ>\<open>string \<Rightarrow> 64 word\<close>. Nothing is assumed of it here;
  where a property needs two inputs not to collide it says so for the inputs concerned.
\<close>

section \<open>Fixed-length positional digits\<close>

text \<open>The \<open>n\<close> low base-\<open>b\<close> digits of \<open>v\<close>, most significant first: what the encoders of the
  package compute.\<close>

fun digits :: "nat \<Rightarrow> nat \<Rightarrow> nat \<Rightarrow> nat list" where
  "digits b 0 v = []"
| "digits b (Suc n) v = digits b n (v div b) @ [v mod b]"

definition undigits :: "nat \<Rightarrow> nat list \<Rightarrow> nat" where
  "undigits b ds = foldl (\<lambda>a d. a * b + d) 0 ds"

lemma length_digits [simp]: "length (digits b n v) = n"
  by (induction n arbitrary: v) auto

lemma digits_less: "0 < b \<Longrightarrow> d \<in> set (digits b n v) \<Longrightarrow> d < b"
  by (induction n arbitrary: v) auto

lemma undigits_digits: "v < b ^ n \<Longrightarrow> undigits b (digits b n v) = v"
proof (induction n arbitrary: v)
  case 0
  then show ?case by (simp add: undigits_def)
next
  case (Suc n)
  then have "v div b < b ^ n"
    by (metis less_mult_imp_div_less mult.commute power_Suc)
  then have "undigits b (digits b n (v div b)) = v div b" by (rule Suc.IH)
  then show ?case by (simp add: undigits_def)
qed

lemma digits_inject: "digits b n v = digits b n w \<Longrightarrow> v < b ^ n \<Longrightarrow> w < b ^ n \<Longrightarrow> v = w"
  by (metis undigits_digits)

section \<open>Hex content hashes\<close>

text \<open>\<open>binary.BigEndian.PutUint64\<close> and \<open>hex.EncodeToString\<close>.\<close>

definition PutUint64 :: "64 word \<Rightarrow> 8 word list" where
  "PutUint64 v = map (\<lambda>i. ucast (drop_bit (8 * i) v)) [7, 6, 5, 4, 3, 2, 1, 0]"

definition hexDigit :: "nat \<Rightarrow> char" where
  "hexDigit d = ''0123456789abcdef'' ! d"

definition hexEncode :: "8 word list \<Rightarrow> string" where
  "hexEncode bs = concat (map (\<lambda>b. [hexDigit (unat b div 16), hexDigit (unat b mod 16)]) bs)"

definition ContentHash :: "(string \<Rightarrow> 64 word) \<Rightarrow> string \<Rightarrow> string" where
  "ContentHash h content = hexEncode (PutUint64 (h content))"

lemma hexDigit_inject: "d < 16 \<Longrightarrow> e < 16 \<Longrightarrow> hexDigit d = hexDigit e \<Longrightarrow> d = e"
proof -
  assume a: "d < 16" "e < 16" "hexDigit d = hexDigit e"
  have "distinct ''0123456789abcdef''" by simp
  with a show "d = e" unfolding hexDigit_def
    by (subst (asm) nth_eq_iff_index_eq) auto
qed

lemma unat8: "unat (b :: 8 word) < 256"
proof -
  have "unat b < 2 ^ LENGTH(8)" by (rule unsigned_less)
  then show ?thesis by simp
qed

lemma unat64: "unat (v :: 64 word) < 2 ^ 64"
proof -
  have "unat v < 2 ^ LENGTH(64)" by (rule unsigned_less)
  then show ?thesis by simp
qed

lemma hexEncode_inject: "length bs = length cs \<Longrightarrow> hexEncode bs = hexEncode cs \<Longrightarrow> bs = cs"
proof (induction bs cs rule: list_induct2)
  case (Cons b bs c cs)
  have lt: "unat b div 16 < 16" "unat c div 16 < 16"
    using unat8 [of b] unat8 [of c] by (simp_all add: less_mult_imp_div_less)
  from Cons.prems have "hexDigit (unat b div 16) = hexDigit (unat c div 16)"
    "hexDigit (unat b mod 16) = hexDigit (unat c mod 16)" "hexEncode bs = hexEncode cs"
    by (simp_all add: hexEncode_def)
  then have "unat b div 16 = unat c div 16" "unat b mod 16 = unat c mod 16" "bs = cs"
    using lt Cons.IH by (auto intro: hexDigit_inject)
  moreover then have "unat b = unat c" by (metis div_mult_mod_eq)
  ultimately show ?case by (simp add: word_unat_eq_iff)
qed simp

lemma length_hexEncode: "length (hexEncode bs) = 2 * length bs"
  by (induction bs) (auto simp: hexEncode_def)

lemma PutUint64_nth: "i < 8 \<Longrightarrow> PutUint64 v ! (7 - i) = ucast (drop_bit (8 * i) v)"
proof -
  assume "i < 8"
  then consider "i = 0" | "i = 1" | "i = 2" | "i = 3" | "i = 4" | "i = 5" | "i = 6" | "i = 7"
    by linarith
  then show ?thesis by cases (simp_all add: PutUint64_def nth_Cons')
qed

lemma PutUint64_bit: "i < 8 \<Longrightarrow> j < 8 \<Longrightarrow> bit (PutUint64 v ! (7 - i)) j = bit v (8 * i + j)"
  by (simp add: PutUint64_nth bit_ucast_iff bit_drop_bit_eq add.commute)

lemma PutUint64_inject: "PutUint64 v = PutUint64 w \<Longrightarrow> v = w"
proof (rule bit_word_eqI)
  fix n assume eq: "PutUint64 v = PutUint64 w" and "n < LENGTH(64)"
  then have "n div 8 < 8" "n mod 8 < 8" by (auto simp: less_mult_imp_div_less)
  from PutUint64_bit [OF this, of v] PutUint64_bit [OF this, of w] eq
  show "bit v n = bit w n" by simp
qed

lemma length_PutUint64 [simp]: "length (PutUint64 v) = 8"
  by (simp add: PutUint64_def)

lemma ContentHash_eq_iff: "ContentHash h s = ContentHash h t \<longleftrightarrow> h s = h t"
  unfolding ContentHash_def by (auto dest!: hexEncode_inject [rotated] dest: PutUint64_inject)

lemma length_ContentHash: "length (ContentHash h s) = 16"
  by (simp add: ContentHash_def length_hexEncode)

section \<open>Base-62 node identifiers\<close>

definition base62Alphabet :: string where
  "base62Alphabet = ''0123456789ABCDEFGHIJKLMNOPQRSTUVWXYZabcdefghijklmnopqrstuvwxyz''"

definition idLen :: nat where "idLen = 11"

definition sep :: string where "sep = [CHR 0x00]"

text \<open>The loop fills \<open>buf[i]\<close> from the right, dividing \<open>v\<close> by 62 after each byte.\<close>

fun encodeBase62_loop :: "nat \<Rightarrow> 64 word \<Rightarrow> string" where
  "encodeBase62_loop 0 v = []"
| "encodeBase62_loop (Suc i) v =
     encodeBase62_loop i (v div 62) @ [base62Alphabet ! unat (v mod 62)]"

definition encodeBase62 :: "64 word \<Rightarrow> string" where
  "encodeBase62 v = encodeBase62_loop 11 v"

definition IdentifyNode :: "(string \<Rightarrow> 64 word) \<Rightarrow> string \<Rightarrow> string \<Rightarrow> int \<Rightarrow> string" where
  "IdentifyNode h source parent siblingIndex =
     (let input = source @ sep @ parent @ sep @ Itoa siblingIndex
      in take idLen (encodeBase62 (h input)))"

definition IdentifyPayload :: "(string \<Rightarrow> 64 word) \<Rightarrow> string \<Rightarrow> string \<Rightarrow> string" where
  "IdentifyPayload h namespace payload =
     (let input = namespace @ sep @ payload in take idLen (encodeBase62 (h input)))"

text \<open>The decoder the program does not have, for the round trip.\<close>

definition base62_value :: "char \<Rightarrow> nat" where
  "base62_value c = length (takeWhile (\<lambda>x. x \<noteq> c) base62Alphabet)"

definition decodeBase62 :: "string \<Rightarrow> nat" where
  "decodeBase62 s = undigits 62 (map base62_value s)"

lemma base62_loop_digits:
  "encodeBase62_loop n v = map (\<lambda>d. base62Alphabet ! d) (digits 62 n (unat v))"
  by (induction n arbitrary: v) (auto simp: unat_div unat_mod)

lemma base62_value_nth: "d < 62 \<Longrightarrow> base62_value (base62Alphabet ! d) = d"
proof -
  assume d: "d < 62"
  have dist: "distinct base62Alphabet" and len: "length base62Alphabet = 62"
    by (simp_all add: base62Alphabet_def)
  have "takeWhile (\<lambda>x. x \<noteq> base62Alphabet ! d) base62Alphabet = take d base62Alphabet"
    using d len dist
    by (intro takeWhile_eq_take_P_nth) (auto simp: nth_eq_iff_index_eq)
  with d len show ?thesis by (simp add: base62_value_def)
qed

lemma length_encodeBase62 [simp]: "length (encodeBase62 v) = 11"
  by (simp add: encodeBase62_def base62_loop_digits)

lemma encodeBase62_alphabet: "c \<in> set (encodeBase62 v) \<Longrightarrow> c \<in> set base62Alphabet"
proof -
  assume "c \<in> set (encodeBase62 v)"
  then obtain d where "d \<in> set (digits 62 11 (unat v))" "c = base62Alphabet ! d"
    by (auto simp: encodeBase62_def base62_loop_digits)
  moreover then have "d < 62" by (auto intro: digits_less)
  moreover have "length base62Alphabet = 62" by (simp add: base62Alphabet_def)
  ultimately show ?thesis by (metis nth_mem)
qed

lemma decode_encodeBase62: "decodeBase62 (encodeBase62 v) = unat v"
proof -
  have "map base62_value (encodeBase62 v) = digits 62 11 (unat v)"
    unfolding encodeBase62_def base62_loop_digits map_map
    by (rule map_idI) (auto simp: base62_value_nth digits_less)
  moreover have "unat v < 62 ^ 11" using unat64 [of v] by simp
  ultimately show ?thesis by (simp add: decodeBase62_def undigits_digits)
qed

lemma encodeBase62_inject: "encodeBase62 v = encodeBase62 w \<Longrightarrow> v = w"
  by (metis decode_encodeBase62 word_unat_eq_iff)

lemma take_idLen_encodeBase62 [simp]: "take idLen (encodeBase62 v) = encodeBase62 v"
  by (simp add: idLen_def)

lemma length_IdentifyNode [simp]: "length (IdentifyNode h s p i) = 11"
  by (simp add: IdentifyNode_def)

lemma IdentifyNode_nonempty [simp]: "IdentifyNode h s p i \<noteq> []" "[] \<noteq> IdentifyNode h s p i"
  by (metis length_IdentifyNode list.size(3) zero_neq_numeral)+

lemma no_sep_base62: "CHR 0x00 \<notin> set base62Alphabet"
  by (simp add: base62Alphabet_def)

lemma no_sep_encode: "CHR 0x00 \<notin> set (encodeBase62 v)"
  using encodeBase62_alphabet no_sep_base62 by blast

lemma no_sep_IdentifyNode: "CHR 0x00 \<notin> set (IdentifyNode h s p i)"
  by (simp add: IdentifyNode_def no_sep_encode)

lemma no_sep_IdentifyPayload: "CHR 0x00 \<notin> set (IdentifyPayload h n p)"
  by (simp add: IdentifyPayload_def no_sep_encode)

text \<open>The hashed input names the triple it is built from, when neither path nor parent holds the
  NUL separator.\<close>

definition id_input :: "string \<Rightarrow> string \<Rightarrow> int \<Rightarrow> string" where
  "id_input source parent i = source @ sep @ parent @ sep @ Itoa i"

lemma IdentifyNode_input: "IdentifyNode h s p i = encodeBase62 (h (id_input s p i))"
  by (simp add: IdentifyNode_def id_input_def)

lemma Itoa_inject: "0 \<le> i \<Longrightarrow> 0 \<le> j \<Longrightarrow> Itoa i = Itoa j \<Longrightarrow> i = j"
  by (auto simp: Itoa_def dest: itoa_nat_inject)

lemma append_sep_inject:
  "c \<notin> set s \<Longrightarrow> c \<notin> set s' \<Longrightarrow> s @ c # t = s' @ c # t' \<Longrightarrow> s = s' \<and> t = t'"
proof (induction s arbitrary: s')
  case Nil
  then show ?case by (cases s') auto
next
  case (Cons a s)
  then show ?case by (cases s') auto
qed

lemma id_input_inject:
  assumes "id_input s p i = id_input s' p' j"
    and "CHR 0x00 \<notin> set s" "CHR 0x00 \<notin> set s'" "CHR 0x00 \<notin> set p" "CHR 0x00 \<notin> set p'"
    and "0 \<le> i" "0 \<le> j"
  shows "s = s' \<and> p = p' \<and> i = j"
proof -
  from assms(1) have "s @ CHR 0x00 # (p @ CHR 0x00 # Itoa i) = s' @ CHR 0x00 # (p' @ CHR 0x00 # Itoa j)"
    by (simp add: id_input_def sep_def)
  then have "s = s'" "p @ CHR 0x00 # Itoa i = p' @ CHR 0x00 # Itoa j"
    using append_sep_inject [OF assms(2,3)] by blast+
  moreover then have "p = p'" "Itoa i = Itoa j"
    using append_sep_inject [OF assms(4,5)] by blast+
  ultimately show ?thesis using Itoa_inject assms(6,7) by blast
qed

text \<open>Node identifiers are faithful to the 64-bit hash: eleven bytes, all in the base-62
  alphabet, and two identifiers agree exactly when the hashes of their inputs do; the inputs
  themselves agree only for the same file, parent and sibling index.\<close>

theorem IdentifyNode_faithful:
  assumes "CHR 0x00 \<notin> set s" "CHR 0x00 \<notin> set s'" "CHR 0x00 \<notin> set p" "CHR 0x00 \<notin> set p'"
    and "0 \<le> i" "0 \<le> j"
    and "h (id_input s p i) = h (id_input s' p' j) \<Longrightarrow> id_input s p i = id_input s' p' j"
  shows "length (IdentifyNode h s p i) = 11 \<and> set (IdentifyNode h s p i) \<subseteq> set base62Alphabet
    \<and> (IdentifyNode h s p i = IdentifyNode h s' p' j \<longleftrightarrow> s = s' \<and> p = p' \<and> i = j)"
proof -
  have "IdentifyNode h s p i = IdentifyNode h s' p' j \<Longrightarrow> s = s' \<and> p = p' \<and> i = j"
    using id_input_inject [OF _ assms(1-6)] assms(7) encodeBase62_inject
    unfolding IdentifyNode_input by blast
  then show ?thesis
    by (auto simp: IdentifyNode_input dest: encodeBase62_alphabet)
qed

theorem IdentifyNode_faithful_witness:
  "IdentifyNode (\<lambda>s. of_nat (length s)) ''a'' [] 1 \<noteq> IdentifyNode (\<lambda>s. of_nat (length s)) ''a'' [] 12"
proof -
  have "Itoa 1 = ''1''" "Itoa 12 = ''12''" by code_simp+
  then have "(of_nat (length (id_input ''a'' [] 1)) :: 64 word) \<noteq> of_nat (length (id_input ''a'' [] 12))"
    by (simp add: id_input_def sep_def)
  then show ?thesis
    using IdentifyNode_faithful [of "''a''" "''a''" "[]" "[]" 1 12 "\<lambda>s. of_nat (length s)"]
    by simp
qed

text \<open>The base-62 encoding of a 64-bit hash loses nothing: decoding the eleven digits gives
  the hash back, although 62 is no power of two.\<close>

theorem base62_roundtrip: "decodeBase62 (encodeBase62 v) = unat v \<and> length (encodeBase62 v) = idLen"
  by (simp add: decode_encodeBase62 idLen_def)

section \<open>Token estimate\<close>

text \<open>\<open>int(math.Ceil(float64(len(s)) * 0.25))\<close>. Multiplying by 0.25 is exact in binary floating
  point, so the real-number reading is the machine's for every length below \<open>2 ^ 53\<close>.\<close>

definition perByte :: real where "perByte = 0.25"

definition Estimate :: "string \<Rightarrow> int" where
  "Estimate s = (if length s = 0 then 0 else \<lceil>real (length s) * perByte\<rceil>)"

lemma ceiling_quarter: "\<lceil>real n / 4\<rceil> = int ((n + 3) div 4)"
proof -
  have "n \<le> 4 * ((n + 3) div 4)" "4 * ((n + 3) div 4) < n + 4" by presburger+
  then have "real n \<le> real (4 * ((n + 3) div 4))" "real (4 * ((n + 3) div 4)) < real (n + 4)"
    by (simp_all only: of_nat_le_iff of_nat_less_iff)
  then show ?thesis by (simp add: ceiling_eq_iff del: of_nat_add)
qed

lemma Estimate_div: "Estimate s = int ((length s + 3) div 4)"
  using ceiling_quarter [of "length s"] by (simp add: Estimate_def perByte_def)

lemma Estimate_nonneg [simp]: "0 \<le> Estimate s"
  by (simp add: Estimate_div)

text \<open>The token estimate is the length in quarters rounded up, zero only for the empty
  string, and never grows by splitting: the estimate of a concatenation is at most the sum, and
  at most one less than it.\<close>

theorem Estimate_spec:
  "Estimate s = int ((length s + 3) div 4) \<and> (Estimate s = 0 \<longleftrightarrow> s = [])
   \<and> Estimate (s @ t) \<le> Estimate s + Estimate t \<and> Estimate s + Estimate t \<le> Estimate (s @ t) + 1"
proof -
  have "(length s + length t + 3) div 4 \<le> (length s + 3) div 4 + (length t + 3) div 4"
    "(length s + 3) div 4 + (length t + 3) div 4 \<le> (length s + length t + 3) div 4 + 1"
    by linarith+
  moreover have "(length s + 3) div 4 = 0 \<longleftrightarrow> s = []"
    using div_greater_zero_iff [of "length s + 3" 4] by (cases s) auto
  ultimately show ?thesis by (simp add: Estimate_div)
qed

section \<open>File extensions\<close>

text \<open>
  The model is of the Unix builds: \<open>filepath.Separator\<close> is the slash. \<open>filepath.Ext\<close> is the
  suffix from the last dot of the last path element. \<open>strings.ToLower\<close> is written out for the
  bytes that can become ASCII: the letters, and the two non-ASCII runes whose lower case is ASCII
  (U+0130 gives i, U+212A gives k); other non-ASCII runes map to non-ASCII runes, which no
  table of the program holds, and are left alone.
\<close>

fun Ext_rev :: "string \<Rightarrow> string \<Rightarrow> string" where
  \<comment> \<open>the reversed path and the suffix read so far\<close>
  "Ext_rev [] acc = []"
| "Ext_rev (c # cs) acc =
     (if c = CHR ''/'' then [] else if c = CHR ''.'' then c # acc else Ext_rev cs (c # acc))"

definition Ext :: "string \<Rightarrow> string" where
  "Ext path = Ext_rev (rev path) []"

definition lower_char :: "char \<Rightarrow> char" where
  "lower_char c =
     (if 65 \<le> (of_char c :: nat) \<and> (of_char c :: nat) \<le> 90 then char_of (of_char c + 32 :: nat) else c)"

fun ToLower :: "string \<Rightarrow> string" where
  "ToLower (a # b # c # s) =
     (if a = CHR 0xC4 \<and> b = CHR 0xB0 then CHR ''i'' # ToLower (c # s)
      else if a = CHR 0xE2 \<and> b = CHR 0x84 \<and> c = CHR 0xAA then CHR ''k'' # ToLower s
      else lower_char a # ToLower (b # c # s))"
| "ToLower [a, b] =
     (if a = CHR 0xC4 \<and> b = CHR 0xB0 then ''i'' else [lower_char a, lower_char b])"
| "ToLower [a] = [lower_char a]"
| "ToLower [] = []"

definition supported :: "string list" where
  "supported = [''.md'', ''.markdown'', ''.yaml'', ''.yml'', ''.json'', ''.jsonl'', ''.ndjson'', ''.toon'']"

definition skipDirs :: "string list" where
  "skipDirs = [''Pods'', ''__pycache__'', ''bower_components'', ''dist'', ''node_modules'',
               ''target'', ''vendor'', ''venv'']"

definition Supported :: "string \<Rightarrow> bool" where
  "Supported path = (ToLower (Ext path) \<in> set supported)"

definition ShouldSkipDir :: "string \<Rightarrow> bool" where
  "ShouldSkipDir name =
     (if name = [] \<or> name = ''.'' \<or> name = ''..'' then False
      else if HasPrefix name ''.'' then True
      else name \<in> set skipDirs)"

lemma Ext_rev_no_dot: "CHR ''.'' \<notin> set cs \<Longrightarrow> Ext_rev cs acc = []"
  by (induction cs arbitrary: acc) auto

lemma Ext_rev_dot:
  "CHR ''.'' \<notin> set e \<Longrightarrow> CHR ''/'' \<notin> set e \<Longrightarrow> Ext_rev (e @ CHR ''.'' # cs) acc = CHR ''.'' # rev e @ acc"
  by (induction e arbitrary: acc) auto

lemma Ext_dot: "CHR ''.'' \<notin> set e \<Longrightarrow> CHR ''/'' \<notin> set e \<Longrightarrow> Ext (b @ CHR ''.'' # e) = CHR ''.'' # e"
  using Ext_rev_dot [of "rev e" "rev b" "[]"] by (simp add: Ext_def)

end
