(* ===== verification/Ast.thy ===== *)
theory Ast
  imports ContentId
begin

text \<open>
  The package \<open>pkg/parser\<close>, file \<open>ast.go\<close>: the tree of context nodes and its flattening.
  \<open>NodeType\<close> and \<open>Format\<close> are strings in the code, with named constants, and stay strings
  here: values read back from the database are converted without a check. The nil-able
  \<open>*float64\<close> is an option. The scalar fields of \<open>ContextNode\<close> are the record
  \<open>node_data\<close>; the recursive field \<open>Children\<close> sits in the datatype around it.
\<close>

type_synonym NodeType = string

definition NodeHeading :: NodeType where "NodeHeading = ''heading''"
definition NodeList :: NodeType where "NodeList = ''list''"
definition NodeTable :: NodeType where "NodeTable = ''table''"
definition NodeCode :: NodeType where "NodeCode = ''code''"
definition NodeText :: NodeType where "NodeText = ''text''"
definition NodeKV :: NodeType where "NodeKV = ''kv''"
definition NodePreamble :: NodeType where "NodePreamble = ''preamble''"

definition FormatPlain :: string where "FormatPlain = ''plain''"
definition FormatToon :: string where "FormatToon = ''toon''"

definition MaxInlineFields :: nat where "MaxInlineFields = 5"

lemmas node_type_defs = NodeHeading_def NodeList_def NodeTable_def NodeCode_def NodeText_def
  NodeKV_def NodePreamble_def

record node_data =
  ID :: string
  ParentID :: string
  SourceFile :: string
  Label :: string
  Content :: string
  Hash :: string
  Format :: string
  Temperature :: "real option"
  Depth :: int
  TokenCount :: int
  Kind :: NodeType

datatype ContextNode = CNode (nd: node_data) (Children: "ContextNode list")

text \<open>The zero value of the struct, for composite literals that leave fields out.\<close>

definition zero_data :: node_data where
  "zero_data = \<lparr>ID = [], ParentID = [], SourceFile = [], Label = [], Content = [], Hash = [],
     Format = [], Temperature = None, Depth = 0, TokenCount = 0, Kind = []\<rparr>"

section \<open>Flatten\<close>

fun collectNodes :: "ContextNode list \<Rightarrow> ContextNode list \<Rightarrow> ContextNode list" where
  "collectNodes out [] = out"
| "collectNodes out (CNode d cs # ns) =
     collectNodes (collectNodes (out @ [CNode d cs]) cs) ns"

definition Flatten :: "ContextNode list \<Rightarrow> ContextNode list" where
  "Flatten roots = collectNodes [] roots"

definition FlattenMap :: "ContextNode list \<Rightarrow> (string \<rightharpoonup> ContextNode)" where
  "FlattenMap roots = foldl (\<lambda>m n. m(ID (nd n) \<mapsto> n)) Map.empty (Flatten roots)"

lemma collectNodes_append': "collectNodes (out' @ out) ns = out' @ collectNodes out ns"
proof (induction out ns arbitrary: out' rule: collectNodes.induct)
  case (2 out d cs ns)
  then show ?case by (metis append_assoc collectNodes.simps(2))
qed simp

lemma collectNodes_append: "collectNodes out ns = out @ collectNodes [] ns"
  using collectNodes_append' [of out "[]" ns] by simp

lemma Flatten_Nil [simp]: "Flatten [] = []"
  by (simp add: Flatten_def)

lemma Flatten_Cons [simp]: "Flatten (CNode d cs # ns) = CNode d cs # Flatten cs @ Flatten ns"
  unfolding Flatten_def
  using collectNodes_append [of "collectNodes [CNode d cs] cs" ns]
    collectNodes_append [of "[CNode d cs]" cs] by simp

lemma Flatten_append: "Flatten (xs @ ys) = Flatten xs @ Flatten ys"
proof (induction xs)
  case (Cons x xs)
  then show ?case by (cases x) simp
qed simp

lemma Flatten_eq_Nil [simp]: "Flatten ns = [] \<longleftrightarrow> ns = []"
proof (cases ns)
  case (Cons n ns')
  then show ?thesis by (cases n) simp
qed simp

text \<open>The induction the tree proofs use: over a forest, node by node.\<close>

fun forest_size :: "ContextNode list \<Rightarrow> nat" where
  "forest_size [] = 0"
| "forest_size (CNode d cs # ns) = Suc (forest_size cs + forest_size ns)"

lemma forest_induct [case_names Nil Node]:
  assumes "P []" and "\<And>d cs ns. P cs \<Longrightarrow> P ns \<Longrightarrow> P (CNode d cs # ns)"
  shows "P ns"
  by (induction ns rule: forest_size.induct) (use assms in auto)

lemma length_Flatten: "length (Flatten ns) = forest_size ns"
  by (induction ns rule: forest_size.induct) auto

section \<open>Updating every node\<close>

text \<open>
  The transformer walks the flat list of pointers and writes through them; the tree shares the
  nodes, so the writes show in the tree. A pass that only looks at the node it writes is
  \<open>map_nodes\<close>, and \<open>Flatten_map_nodes\<close> says that the flat list sees it too.
\<close>

fun map_nodes :: "(node_data \<Rightarrow> node_data) \<Rightarrow> ContextNode list \<Rightarrow> ContextNode list" where
  "map_nodes f [] = []"
| "map_nodes f (CNode d cs # ns) = CNode (f d) (map_nodes f cs) # map_nodes f ns"

definition flat_data :: "ContextNode list \<Rightarrow> node_data list" where
  "flat_data ns = map nd (Flatten ns)"

lemma flat_data_simps [simp]:
  "flat_data [] = []"
  "flat_data (CNode d cs # ns) = d # flat_data cs @ flat_data ns"
  by (simp_all add: flat_data_def)

lemma flat_data_map_nodes: "flat_data (map_nodes f ns) = map f (flat_data ns)"
  by (induction ns rule: forest_induct) auto

lemma flat_data_append: "flat_data (xs @ ys) = flat_data xs @ flat_data ys"
  by (simp add: flat_data_def Flatten_append)

lemma flat_data_eq_Nil [simp]: "flat_data ns = [] \<longleftrightarrow> ns = []"
  by (simp add: flat_data_def)

lemma map_nodes_comp: "map_nodes f (map_nodes g ns) = map_nodes (f \<circ> g) ns"
  by (induction ns rule: forest_induct) auto

lemma foldl_upd_eq_map_of: "foldl (\<lambda>m n. m(k n \<mapsto> v n)) m0 xs = m0 ++ map_of (rev (map (\<lambda>n. (k n, v n)) xs))"
  by (induction xs rule: rev_induct) (auto simp: map_add_def fun_eq_iff)

lemma map_of_rev_distinct: "distinct (map fst xs) \<Longrightarrow> map_of (rev xs) = map_of xs"
  by (rule map_of_eqI) (auto simp: map_of_eq_Some_iff rev_map [symmetric])

lemma foldl_upd_lookup:
  assumes "distinct (map k xs)"
  shows "foldl (\<lambda>m n. m(k n \<mapsto> v n)) Map.empty xs i = map_option v (find (\<lambda>n. k n = i) xs)"
proof -
  have "map_of (rev (map (\<lambda>n. (k n, v n)) xs)) = map_of (map (\<lambda>n. (k n, v n)) xs)"
    using assms by (intro map_of_rev_distinct) (simp add: comp_def)
  then show ?thesis by (simp add: foldl_upd_eq_map_of map_of_map_key)
qed

lemma dom_foldl_upd: "dom (foldl (\<lambda>m n. m(k n \<mapsto> v n)) Map.empty xs) = k ` set xs"
  by (auto simp: foldl_upd_eq_map_of dom_map_of_conv_image_fst image_image)

lemma FlattenMap_Some:
  assumes "distinct (map ID (flat_data roots))" "n \<in> set (Flatten roots)"
  shows "FlattenMap roots (ID (nd n)) = Some n"
proof -
  have "distinct (map (\<lambda>n. ID (nd n)) (Flatten roots))"
    using assms(1) by (simp add: flat_data_def comp_def)
  then show ?thesis
    unfolding FlattenMap_def using assms(2)
    by (simp add: foldl_upd_lookup find_distinct [where f = "\<lambda>n. ID (nd n)"])
qed

lemma dom_FlattenMap: "dom (FlattenMap roots) = ID ` set (flat_data roots)"
  by (simp add: FlattenMap_def dom_foldl_upd flat_data_def image_image)

end
