(* ===== verification/Diff.thy ===== *)
theory Diff
  imports Ast "HOL-Library.AList" "HOL-Library.Multiset"
begin

text \<open>
  The package \<open>pkg/diff\<close>: the deltas between a transformed forest and the previous snapshot,
  and the hash that names a state. A Go map is an association list with distinct keys; its
  iteration order is the list's, and \<open>DiffFlat\<close> sorts what it collects from it.
\<close>

definition OpAdd :: string where "OpAdd = ''add''"
definition OpMod :: string where "OpMod = ''mod''"
definition OpRem :: string where "OpRem = ''rem''"

lemmas op_defs = OpAdd_def OpMod_def OpRem_def

record NodeState =
  StHash :: string
  StContent :: string

record Delta =
  NodeID :: string
  OldHash :: string
  NewHash :: string
  OldContent :: string
  NewContent :: string
  Op :: string

type_synonym snapshot_map = "(string \<times> NodeState) list"

definition state_of :: "node_data \<Rightarrow> NodeState" where
  "state_of n = \<lparr>StHash = Hash n, StContent = Content n\<rparr>"

definition SnapshotFromNodes :: "ContextNode list \<Rightarrow> snapshot_map" where
  "SnapshotFromNodes roots =
     foldl (\<lambda>m n. AList.update (ID n) \<lparr>StHash = Hash n, StContent = Content n\<rparr> m) [] (flat_data roots)"

definition DiffFlat_step :: "snapshot_map \<Rightarrow> node_data \<Rightarrow> Delta list" where
  "DiffFlat_step prev n =
     (case map_of prev (ID n) of
        None \<Rightarrow> [\<lparr>NodeID = ID n, OldHash = [], NewHash = Hash n,
                  OldContent = [], NewContent = Content n, Op = OpAdd\<rparr>]
      | Some old \<Rightarrow>
          if StHash old \<noteq> Hash n
          then [\<lparr>NodeID = ID n, OldHash = StHash old, NewHash = Hash n,
                 OldContent = StContent old, NewContent = Content n, Op = OpMod\<rparr>]
          else [])"

definition DiffFlat :: "node_data list \<Rightarrow> snapshot_map \<Rightarrow> Delta list" where
  "DiffFlat flat prev =
     (let seen = map ID flat;
          deltas = concat (map (DiffFlat_step prev) flat);
          removed = sort (filter (\<lambda>i. i \<notin> set seen) (map fst prev))
      in deltas @ map (\<lambda>i. let old = the (map_of prev i)
                           in \<lparr>NodeID = i, OldHash = StHash old, NewHash = [],
                               OldContent = StContent old, NewContent = [], Op = OpRem\<rparr>) removed)"

definition Diff :: "ContextNode list \<Rightarrow> snapshot_map \<Rightarrow> Delta list" where
  "Diff roots prev = DiffFlat (flat_data roots) prev"

text \<open>\<open>xxhash.New\<close>, \<open>WriteString\<close> and \<open>Sum64\<close> hash the concatenation of what was written.\<close>

definition CursorHashFlat :: "(string \<Rightarrow> 64 word) \<Rightarrow> node_data list \<Rightarrow> string" where
  "CursorHashFlat h flat =
     (let pairs = sort (map (\<lambda>n. ID n @ '':'' @ Hash n) flat)
      in hexEncode (PutUint64 (h (concat pairs))))"

definition CursorHash :: "(string \<Rightarrow> 64 word) \<Rightarrow> ContextNode list \<Rightarrow> string" where
  "CursorHash h roots = CursorHashFlat h (flat_data roots)"

section \<open>Snapshots\<close>

lemma map_of_foldl_update:
  "map_of (foldl (\<lambda>m n. AList.update (k n) (v n) m) m0 ns) = foldl (\<lambda>m n. m(k n \<mapsto> v n)) (map_of m0) ns"
  by (induction ns arbitrary: m0) (simp_all add: update_conv')

lemma distinct_foldl_update:
  "distinct (map fst m0) \<Longrightarrow> distinct (map fst (foldl (\<lambda>m n. AList.update (k n) (v n) m) m0 ns))"
  by (induction ns arbitrary: m0) (simp_all add: distinct_update)

lemma Snapshot_lookup:
  "map_of (SnapshotFromNodes roots) = foldl (\<lambda>m n. m(ID n \<mapsto> state_of n)) Map.empty (flat_data roots)"
  by (simp add: SnapshotFromNodes_def map_of_foldl_update state_of_def)

lemma distinct_Snapshot: "distinct (map fst (SnapshotFromNodes roots))"
  by (simp add: SnapshotFromNodes_def distinct_foldl_update)

definition states :: "node_data list \<Rightarrow> (string \<rightharpoonup> NodeState)" where
  "states flat = map_of (map (\<lambda>n. (ID n, state_of n)) flat)"

lemma states_simps [simp]:
  "states [] = Map.empty" "states (n # ns) = (states ns)(ID n \<mapsto> state_of n)"
  by (simp_all add: states_def)

lemma states_None: "i \<notin> ID ` set flat \<Longrightarrow> states flat i = None"
  by (induction flat) auto

lemma states_member: "distinct (map ID flat) \<Longrightarrow> n \<in> set flat \<Longrightarrow> states flat (ID n) = Some (state_of n)"
  by (simp add: states_def map_of_eq_Some_iff comp_def)

lemma dom_states: "dom (states flat) = ID ` set flat"
  by (simp add: states_def dom_map_of_conv_image_fst image_image)

lemma Snapshot_states:
  "distinct (map ID (flat_data roots)) \<Longrightarrow> map_of (SnapshotFromNodes roots) = states (flat_data roots)"
  unfolding Snapshot_lookup states_def foldl_upd_eq_map_of
  by (simp add: map_of_rev_distinct comp_def)

section \<open>What a delta does to a state\<close>

definition apply_delta :: "Delta \<Rightarrow> (string \<rightharpoonup> NodeState) \<Rightarrow> (string \<rightharpoonup> NodeState)" where
  "apply_delta d m =
     (if Op d = OpRem then m(NodeID d := None)
      else m(NodeID d \<mapsto> \<lparr>StHash = NewHash d, StContent = NewContent d\<rparr>))"

definition undo_delta :: "Delta \<Rightarrow> (string \<rightharpoonup> NodeState) \<Rightarrow> (string \<rightharpoonup> NodeState)" where
  "undo_delta d m =
     (if Op d = OpAdd then m(NodeID d := None)
      else m(NodeID d \<mapsto> \<lparr>StHash = OldHash d, StContent = OldContent d\<rparr>))"

lemma foldl_apply_other: "i \<notin> NodeID ` set ds \<Longrightarrow> foldl (\<lambda>m d. apply_delta d m) m ds i = m i"
  by (induction ds arbitrary: m) (auto simp: apply_delta_def)

lemma foldl_undo_other: "i \<notin> NodeID ` set ds \<Longrightarrow> foldl (\<lambda>m d. undo_delta d m) m ds i = m i"
  by (induction ds arbitrary: m) (auto simp: undo_delta_def)

lemma foldl_apply_at:
  "distinct (map NodeID ds) \<Longrightarrow> d \<in> set ds \<Longrightarrow>
    foldl (\<lambda>m d. apply_delta d m) m ds (NodeID d) = apply_delta d Map.empty (NodeID d)"
proof (induction ds arbitrary: m)
  case (Cons e ds)
  then show ?case
    by (cases "d = e") (auto simp: foldl_apply_other, auto simp: apply_delta_def)
qed simp

lemma foldl_undo_at:
  "distinct (map NodeID ds) \<Longrightarrow> d \<in> set ds \<Longrightarrow>
    foldl (\<lambda>m d. undo_delta d m) m ds (NodeID d) = undo_delta d Map.empty (NodeID d)"
proof (induction ds arbitrary: m)
  case (Cons e ds)
  then show ?case
    by (cases "d = e") (auto simp: foldl_undo_other, auto simp: undo_delta_def)
qed simp

section \<open>The deltas of a diff\<close>

abbreviation add_delta :: "node_data \<Rightarrow> Delta" where
  "add_delta n \<equiv> \<lparr>NodeID = ID n, OldHash = [], NewHash = Hash n, OldContent = [],
     NewContent = Content n, Op = OpAdd\<rparr>"

abbreviation mod_delta :: "NodeState \<Rightarrow> node_data \<Rightarrow> Delta" where
  "mod_delta old n \<equiv> \<lparr>NodeID = ID n, OldHash = StHash old, NewHash = Hash n,
     OldContent = StContent old, NewContent = Content n, Op = OpMod\<rparr>"

abbreviation rem_delta :: "string \<Rightarrow> NodeState \<Rightarrow> Delta" where
  "rem_delta i old \<equiv> \<lparr>NodeID = i, OldHash = StHash old, NewHash = [],
     OldContent = StContent old, NewContent = [], Op = OpRem\<rparr>"

lemma set_DiffFlat:
  "d \<in> set (DiffFlat flat prev) \<longleftrightarrow>
     (\<exists>n \<in> set flat. map_of prev (ID n) = None \<and> d = add_delta n)
   \<or> (\<exists>n \<in> set flat. \<exists>old. map_of prev (ID n) = Some old \<and> StHash old \<noteq> Hash n \<and> d = mod_delta old n)
   \<or> (\<exists>i old. map_of prev i = Some old \<and> i \<notin> ID ` set flat \<and> d = rem_delta i old)"
  (is "_ = (?A \<or> ?M \<or> ?R)")
proof -
  have "(\<exists>n \<in> set flat. d \<in> set (DiffFlat_step prev n)) \<longleftrightarrow> ?A \<or> ?M"
    by (fastforce simp: DiffFlat_step_def split: option.splits if_splits)
  moreover have "(\<exists>i \<in> fst ` set prev. i \<notin> ID ` set flat \<and> d = rem_delta i (the (map_of prev i))) \<longleftrightarrow> ?R"
    by (metis (no_types, lifting) domIff dom_map_of_conv_image_fst option.collapse option.distinct(1) option.sel)
  ultimately show ?thesis
    unfolding DiffFlat_def Let_def by (auto simp: image_iff)
qed

lemma ids_DiffFlat_steps: "set (map NodeID (concat (map (DiffFlat_step prev) flat))) \<subseteq> ID ` set flat"
  by (force simp: DiffFlat_step_def split: option.splits if_splits)

lemma distinct_steps:
  "distinct (map ID flat) \<Longrightarrow> distinct (map NodeID (concat (map (DiffFlat_step prev) flat)))"
proof (induction flat)
  case (Cons n flat)
  have "map NodeID (DiffFlat_step prev n) = [] \<or> map NodeID (DiffFlat_step prev n) = [ID n]"
    by (simp add: DiffFlat_step_def split: option.splits)
  moreover have "ID n \<notin> set (map NodeID (concat (map (DiffFlat_step prev) flat)))"
    using Cons.prems ids_DiffFlat_steps [of prev flat] unfolding list.map(2) distinct.simps list.set_map by blast
  moreover have "distinct (map NodeID (concat (map (DiffFlat_step prev) flat)))"
    using Cons by simp
  ultimately show ?case
    unfolding list.map(2) concat.simps(2) map_append
    by (elim disjE) (simp_all only: append_Nil append_Cons distinct.simps not_False_eq_True conj_absorb simp_thms)
qed simp

lemma distinct_DiffFlat:
  assumes "distinct (map ID flat)" "distinct (map fst prev)"
  shows "distinct (map NodeID (DiffFlat flat prev))"
proof -
  have "set (map NodeID (concat (map (DiffFlat_step prev) flat))) \<inter> set (filter (\<lambda>i. i \<notin> ID ` set flat) (map fst prev)) = {}"
    using ids_DiffFlat_steps [of prev flat] by auto
  then show ?thesis
    using distinct_steps [OF assms(1)] assms(2)
    unfolding DiffFlat_def Let_def map_append distinct_append map_map comp_def
    by (auto simp: distinct_filter)
qed

lemma DiffFlat_changed:
  assumes "distinct (map ID flat)"
  shows "NodeID ` set (DiffFlat flat prev)
    = {i. map_option StHash (map_of prev i) \<noteq> map_option StHash (states flat i)}" (is "?L = ?R")
proof (intro equalityI subsetI)
  fix i assume "i \<in> ?L"
  then obtain d where d: "d \<in> set (DiffFlat flat prev)" "i = NodeID d" by blast
  from d(1) show "i \<in> ?R"
    unfolding set_DiffFlat d(2)
    by (elim disjE bexE exE conjE) (auto simp: states_member [OF assms] states_None state_of_def)
next
  fix i assume i: "i \<in> ?R"
  show "i \<in> ?L"
  proof (cases "i \<in> ID ` set flat")
    case True
    then obtain n where n: "n \<in> set flat" "i = ID n" by blast
    have "\<exists>d \<in> set (DiffFlat flat prev). i = NodeID d"
    proof (cases "map_of prev i")
      case None
      with n show ?thesis by (intro bexI [of _ "add_delta n"]) (auto simp: set_DiffFlat)
    next
      case (Some old)
      with n i have "StHash old \<noteq> Hash n" using states_member [OF assms n(1)] by (simp add: state_of_def)
      with Some n show ?thesis by (intro bexI [of _ "mod_delta old n"]) (auto simp: set_DiffFlat)
    qed
    then show ?thesis by (auto simp: image_iff)
  next
    case False
    with i obtain old where "map_of prev i = Some old" by (cases "map_of prev i") (auto simp: states_None)
    with False have "rem_delta i old \<in> set (DiffFlat flat prev)" by (auto simp: set_DiffFlat)
    then show ?thesis by (force simp: image_iff)
  qed
qed

text \<open>The content hash is trusted to tell contents apart; this is the collision-freedom it is
  trusted for.\<close>

definition hash_faithful :: "node_data list \<Rightarrow> snapshot_map \<Rightarrow> bool" where
  "hash_faithful flat prev \<longleftrightarrow>
     (\<forall>n \<in> set flat. case map_of prev (ID n) of None \<Rightarrow> True
        | Some old \<Rightarrow> StHash old = Hash n \<longrightarrow> StContent old = Content n)"

lemma hash_faithfulD:
  "hash_faithful flat prev \<Longrightarrow> n \<in> set flat \<Longrightarrow> map_of prev (ID n) = Some old \<Longrightarrow> StHash old = Hash n \<Longrightarrow> old = state_of n"
  by (auto simp: hash_faithful_def state_of_def split: option.splits)

lemma unchanged_same:
  assumes "distinct (map ID flat)" "hash_faithful flat prev" "i \<notin> NodeID ` set (DiffFlat flat prev)"
  shows "map_of prev i = states flat i"
proof -
  have eq: "map_option StHash (map_of prev i) = map_option StHash (states flat i)"
    using assms(3) by (simp add: DiffFlat_changed [OF assms(1)])
  show ?thesis
  proof (cases "i \<in> ID ` set flat")
    case True
    then obtain n where n: "n \<in> set flat" "i = ID n" by blast
    with eq obtain old where "map_of prev i = Some old" "StHash old = Hash n"
      using states_member [OF assms(1) n(1)] by (auto simp: state_of_def)
    with hash_faithfulD [OF assms(2) n(1)] n states_member [OF assms(1) n(1)] show ?thesis by simp
  next
    case False
    with eq show ?thesis by (simp add: states_None)
  qed
qed

lemma apply_DiffFlat:
  assumes "distinct (map ID flat)" "distinct (map fst prev)" "hash_faithful flat prev"
  shows "foldl (\<lambda>m d. apply_delta d m) (map_of prev) (DiffFlat flat prev) = states flat"
proof
  fix i
  let ?ds = "DiffFlat flat prev"
  show "foldl (\<lambda>m d. apply_delta d m) (map_of prev) ?ds i = states flat i"
  proof (cases "i \<in> NodeID ` set ?ds")
    case True
    then obtain d where d: "d \<in> set ?ds" "i = NodeID d" by blast
    have "apply_delta d Map.empty i = states flat i"
      using d(1) unfolding set_DiffFlat d(2)
      by (elim disjE bexE exE conjE)
         (auto simp: apply_delta_def op_defs states_member [OF assms(1)] states_None state_of_def)
    then show ?thesis using foldl_apply_at [OF distinct_DiffFlat [OF assms(1,2)] d(1)] d(2) by simp
  next
    case False
    then show ?thesis by (simp add: foldl_apply_other unchanged_same [OF assms(1,3)])
  qed
qed

lemma undo_DiffFlat:
  assumes "distinct (map ID flat)" "distinct (map fst prev)" "hash_faithful flat prev"
  shows "foldl (\<lambda>m d. undo_delta d m) (states flat) (DiffFlat flat prev) = map_of prev"
proof
  fix i
  let ?ds = "DiffFlat flat prev"
  show "foldl (\<lambda>m d. undo_delta d m) (states flat) ?ds i = map_of prev i"
  proof (cases "i \<in> NodeID ` set ?ds")
    case True
    then obtain d where d: "d \<in> set ?ds" "i = NodeID d" by blast
    have "undo_delta d Map.empty i = map_of prev i"
      using d(1) unfolding set_DiffFlat d(2)
      by (elim disjE bexE exE conjE) (auto simp: undo_delta_def op_defs)
    then show ?thesis using foldl_undo_at [OF distinct_DiffFlat [OF assms(1,2)] d(1)] d(2) by simp
  next
    case False
    then show ?thesis by (simp add: foldl_undo_other unchanged_same [OF assms(1,3)])
  qed
qed

text \<open>C14: a diff is complete and reversible: applying its deltas to the previous snapshot gives
  exactly the snapshot of the new forest, and undoing them, from the old hash and content each one
  records, gives the previous snapshot back. Identifiers are distinct (what \<open>Transform\<close>
  delivers) and equal hashes mean equal contents.\<close>

theorem Diff_complete_reversible:
  assumes "distinct (map ID (flat_data roots))" "distinct (map fst prev)"
    and "hash_faithful (flat_data roots) prev"
  shows "foldl (\<lambda>m d. apply_delta d m) (map_of prev) (Diff roots prev) = map_of (SnapshotFromNodes roots)
    \<and> foldl (\<lambda>m d. undo_delta d m) (map_of (SnapshotFromNodes roots)) (Diff roots prev) = map_of prev"
  unfolding Diff_def Snapshot_states [OF assms(1)]
  using apply_DiffFlat [OF assms] undo_DiffFlat [OF assms] by blast

theorem Diff_complete_reversible_witness:
  "foldl (\<lambda>m d. apply_delta d m) (map_of [(''b'', \<lparr>StHash = ''h'', StContent = ''t''\<rparr>)])
     (Diff [CNode (zero_data\<lparr>ID := ''a'', Hash := ''h'', Content := ''t''\<rparr>) []] [(''b'', \<lparr>StHash = ''h'', StContent = ''t''\<rparr>)])
   = map_of (SnapshotFromNodes [CNode (zero_data\<lparr>ID := ''a'', Hash := ''h'', Content := ''t''\<rparr>) []])"
  using Diff_complete_reversible [of "[CNode (zero_data\<lparr>ID := ''a'', Hash := ''h'', Content := ''t''\<rparr>) []]"
      "[(''b'', \<lparr>StHash = ''h'', StContent = ''t''\<rparr>)]"]
  by (simp add: hash_faithful_def)

text \<open>A diff is minimal: it has one delta for each identifier whose hash differs between the
  two snapshots (absence counting as a difference) and none for any other; so it is empty exactly
  when nothing changed, in particular against a forest's own snapshot.\<close>

theorem Diff_minimal:
  assumes "distinct (map ID (flat_data roots))" "distinct (map fst prev)"
  shows "distinct (map NodeID (Diff roots prev))
    \<and> NodeID ` set (Diff roots prev)
        = {i. map_option StHash (map_of prev i) \<noteq> map_option StHash (map_of (SnapshotFromNodes roots) i)}
    \<and> Diff roots (SnapshotFromNodes roots) = []"
proof -
  have "NodeID ` set (DiffFlat (flat_data roots) (SnapshotFromNodes roots)) = {}"
    by (simp add: DiffFlat_changed [OF assms(1)] Snapshot_states [OF assms(1)])
  then have "DiffFlat (flat_data roots) (SnapshotFromNodes roots) = []" by (metis image_is_empty set_empty)
  then show ?thesis
    by (simp add: Diff_def distinct_DiffFlat [OF assms] DiffFlat_changed [OF assms(1)] Snapshot_states [OF assms(1)])
qed

theorem Diff_minimal_witness:
  "NodeID ` set (Diff [CNode (zero_data\<lparr>ID := ''a'', Hash := ''new''\<rparr>) []] [(''a'', \<lparr>StHash = ''old'', StContent = []\<rparr>)])
    = {i. map_option StHash (map_of [(''a'', \<lparr>StHash = ''old'', StContent = []\<rparr>)] i)
        \<noteq> map_option StHash (map_of (SnapshotFromNodes [CNode (zero_data\<lparr>ID := ''a'', Hash := ''new''\<rparr>) []]) i)}"
  using Diff_minimal [of "[CNode (zero_data\<lparr>ID := ''a'', Hash := ''new''\<rparr>) []]" "[(''a'', \<lparr>StHash = ''old'', StContent = []\<rparr>)]"]
  by simp

section \<open>The cursor hash\<close>

lemma concat_fixed_inject:
  "concat xs = concat ys \<Longrightarrow> \<forall>x \<in> set xs \<union> set ys. length x = Suc n \<Longrightarrow> xs = ys"
proof (induction xs arbitrary: ys)
  case Nil
  then show ?case by (cases ys) auto
next
  case (Cons x xs)
  then show ?case by (cases ys) auto
qed

definition fixed_widths :: "node_data list \<Rightarrow> bool" where
  "fixed_widths flat \<longleftrightarrow> (\<forall>n \<in> set flat. length (ID n) = 11 \<and> length (Hash n) = 16)"

definition pair_of :: "node_data \<Rightarrow> string" where
  "pair_of n = ID n @ '':'' @ Hash n"

definition cursor_input :: "node_data list \<Rightarrow> string" where
  \<comment> \<open>the string the cursor hash is taken of\<close>
  "cursor_input flat = concat (sort (map pair_of flat))"

lemma CursorHashFlat_input: "CursorHashFlat h flat = ContentHash h (cursor_input flat)"
  by (simp add: CursorHashFlat_def ContentHash_def cursor_input_def pair_of_def [abs_def])

lemma pair_split: "fixed_widths ns \<Longrightarrow> map (\<lambda>s. (take 11 s, drop 12 s)) (map pair_of ns) = map (\<lambda>n. (ID n, Hash n)) ns"
  by (simp add: fixed_widths_def pair_of_def)

lemma pair_join: "map (\<lambda>(i, x). i @ '':'' @ x) (map (\<lambda>n. (ID n, Hash n)) ns) = map pair_of ns"
  by (simp add: pair_of_def)

lemma mset_sort_eq: "mset xs = mset ys \<Longrightarrow> sort xs = sort (ys :: string list)"
  by (rule properties_for_sort) simp_all

lemma mset_map_eq: "mset xs = mset ys \<Longrightarrow> mset (map f xs) = mset (map f ys)"
  by simp

lemma cursor_input_iff:
  assumes "fixed_widths flat" "fixed_widths flat'"
  shows "cursor_input flat = cursor_input flat' \<longleftrightarrow>
    mset (map (\<lambda>n. (ID n, Hash n)) flat) = mset (map (\<lambda>n. (ID n, Hash n)) flat')"
proof
  assume "cursor_input flat = cursor_input flat'"
  then have "sort (map pair_of flat) = sort (map pair_of flat')"
    unfolding cursor_input_def
    by (rule concat_fixed_inject [where n = 27]) (use assms in \<open>auto simp: fixed_widths_def pair_of_def\<close>)
  from arg_cong [OF this, of mset] have "mset (map pair_of flat) = mset (map pair_of flat')" by (simp only: mset_sort)
  from mset_map_eq [OF this, of "\<lambda>s. (take 11 s, drop 12 s)"]
  show "mset (map (\<lambda>n. (ID n, Hash n)) flat) = mset (map (\<lambda>n. (ID n, Hash n)) flat')"
    unfolding pair_split [OF assms(1)] pair_split [OF assms(2)] .
next
  assume "mset (map (\<lambda>n. (ID n, Hash n)) flat) = mset (map (\<lambda>n. (ID n, Hash n)) flat')"
  from mset_map_eq [OF this, of "\<lambda>(i, x). i @ '':'' @ x"]
  have "mset (map pair_of flat) = mset (map pair_of flat')" unfolding pair_join .
  from mset_sort_eq [OF this] show "cursor_input flat = cursor_input flat'"
    by (simp only: cursor_input_def)
qed

text \<open>C38: a cursor hash names the set of node states and nothing else: it does not depend on the
  order of the nodes, and two forests with the same cursor hash hold the same identifiers with the
  same content hashes, as long as the 64-bit hash does not collide on the two hashed strings.\<close>

theorem CursorHash_names_state:
  assumes "fixed_widths flat" "fixed_widths flat'"
    and "h (cursor_input flat) = h (cursor_input flat') \<Longrightarrow> cursor_input flat = cursor_input flat'"
  shows "CursorHashFlat h flat = CursorHashFlat h flat' \<longleftrightarrow>
    mset (map (\<lambda>n. (ID n, Hash n)) flat) = mset (map (\<lambda>n. (ID n, Hash n)) flat')"
  unfolding cursor_input_iff [OF assms(1,2), symmetric] CursorHashFlat_input ContentHash_eq_iff
  using assms(3) by auto

theorem CursorHash_names_state_witness:
  "CursorHashFlat (\<lambda>s. of_nat (length s))
     [zero_data\<lparr>ID := ''aaaaaaaaaaa'', Hash := ''0000000000000000''\<rparr>, zero_data\<lparr>ID := ''bbbbbbbbbbb'', Hash := ''0000000000000001''\<rparr>]
   = CursorHashFlat (\<lambda>s. of_nat (length s))
     [zero_data\<lparr>ID := ''bbbbbbbbbbb'', Hash := ''0000000000000001''\<rparr>, zero_data\<lparr>ID := ''aaaaaaaaaaa'', Hash := ''0000000000000000''\<rparr>]"
  (is "CursorHashFlat ?h ?xs = CursorHashFlat ?h ?ys")
proof -
  have "fixed_widths ?xs" "fixed_widths ?ys" by (simp_all add: fixed_widths_def)
  moreover from this have "cursor_input ?xs = cursor_input ?ys" by (subst cursor_input_iff) simp_all
  ultimately show ?thesis using CursorHash_names_state [of ?xs ?ys ?h] by simp
qed

end
