(* ===== verification/Tables.thy ===== *)
theory Tables
  imports Diff
begin

text \<open>
  The package \<open>pkg/store\<close> and the schema under \<open>migrations\<close>: the four tables and the
  statements that write them (\<open>queries.go\<close>, \<open>node.go\<close>, \<open>snapshot.go\<close>). SQLite is
  not under \<open>src\<close>: a statement is translated by the documented meaning of the SQL text it holds, with
  the constraints the schema declares (primary keys, the unique cursor hash, foreign keys with
  \<open>ON DELETE CASCADE\<close>). A table is the list of its rows in rowid order.
\<close>

section \<open>Errors\<close>

datatype error =
    ForeignKey
  | Unique string
  | NoRows
  | Driver string
  | Errorf string error
  | NodeNotFound string
  | UnsupportedExt string
  | InvalidUTF8 string

text \<open>The message of an error; a wrapped error ends in the message it wraps. The constraint
  messages are SQLite's.\<close>

primrec Error :: "error \<Rightarrow> string" where
  "Error ForeignKey = ''FOREIGN KEY constraint failed''"
| "Error (Unique col) = ''UNIQUE constraint failed: '' @ col"
| "Error NoRows = ''sql: no rows in result set''"
| "Error (Driver msg) = msg"
| "Error (Errorf context e) = context @ '': '' @ Error e"
| "Error (UnsupportedExt ext) = ''unsupported extension: '' @ ext"
| "Error (InvalidUTF8 path) = ''invalid UTF-8: '' @ path"
| "Error (NodeNotFound i) = ''emitter: node '' @ i @ '' not found in tree''"

definition wrap_error :: "string \<Rightarrow> error + 'a \<Rightarrow> error + 'a" where
  "wrap_error context r = (case r of Inl e \<Rightarrow> Inl (Errorf context e) | Inr x \<Rightarrow> Inr x)"

lemma wrap_error_simps [simp]:
  "wrap_error c (Inl e) = Inl (Errorf c e)" "wrap_error c (Inr x) = Inr x"
  by (simp_all add: wrap_error_def)

lemma wrap_error_Inr [simp]: "wrap_error c r = Inr x \<longleftrightarrow> r = Inr x"
  by (simp add: wrap_error_def split: sum.splits)

section \<open>Rows\<close>

record row =
  c_id :: string
  c_parent_id :: "string option"
  c_source_file :: string
  c_node_type :: string
  c_depth :: int
  c_label :: string
  c_content :: string
  c_format :: string
  c_token_count :: int
  c_content_hash :: string
  c_temperature :: real
  c_access_count :: int
  c_last_accessed_at :: "int option"
  c_created_at :: int
  c_updated_at :: int

record snapshot_row =
  s_id :: int
  s_cursor_hash :: string
  s_parent_id :: "int option"
  s_message :: string
  s_compile_root :: string
  s_created_at :: int

record diff_row =
  d_id :: int
  d_snapshot_id :: int
  d_node_id :: string
  d_op :: string
  d_old_hash :: string
  d_new_hash :: string
  d_old_content :: string
  d_new_content :: string

record db =
  t_nodes :: "row list"
  t_snapshots :: "snapshot_row list"
  t_diffs :: "diff_row list"
  t_head :: "int option"      \<comment> \<open>the row \<open>HEAD\<close> of \<open>cursors\<close>\<close>
  seq_snapshots :: int        \<comment> \<open>\<open>AUTOINCREMENT\<close> counters: the last id given\<close>
  seq_diffs :: int

definition empty_db :: db where
  "empty_db = \<lparr>t_nodes = [], t_snapshots = [], t_diffs = [], t_head = None,
     seq_snapshots = 0, seq_diffs = 0\<rparr>"

text \<open>The Go structs.\<close>

record Node =
  nID :: string
  nParentID :: string
  nSourceFile :: string
  nNodeType :: string
  nDepth :: int
  nLabel :: string
  nContent :: string
  nFormat :: string
  nTokenCount :: int
  nContentHash :: string
  nTemperature :: real
  nAccessCount :: int
  nLastAccessed :: "int option"
  nCreatedAt :: int
  nUpdatedAt :: int
  nSeedTemp :: "real option"

record DiffRecord =
  SnapshotID :: int
  drNodeID :: string
  drOp :: string
  drOldHash :: string
  drNewHash :: string
  drOldContent :: string
  drNewContent :: string

definition scanNode :: "row \<Rightarrow> Node" where
  "scanNode r =
     \<lparr>nID = c_id r,
      nParentID = (case c_parent_id r of None \<Rightarrow> [] | Some p \<Rightarrow> p),
      nSourceFile = c_source_file r, nNodeType = c_node_type r, nDepth = c_depth r,
      nLabel = c_label r, nContent = c_content r, nFormat = c_format r,
      nTokenCount = c_token_count r, nContentHash = c_content_hash r,
      nTemperature = c_temperature r, nAccessCount = c_access_count r,
      nLastAccessed = c_last_accessed_at r,
      nCreatedAt = c_created_at r, nUpdatedAt = c_updated_at r, nSeedTemp = None\<rparr>"

definition parentIDParam :: "string \<Rightarrow> string option" where
  "parentIDParam i = (if i = [] then None else Some i)"

section \<open>Foreign keys on nodes\<close>

definition ids :: "row list \<Rightarrow> string list" where
  "ids rows = map c_id rows"

definition fk_ok :: "row list \<Rightarrow> row \<Rightarrow> bool" where
  "fk_ok rows r = (case c_parent_id r of None \<Rightarrow> True | Some p \<Rightarrow> p \<in> set (ids rows))"

section \<open>Upsert\<close>

text \<open>\<open>qUpsertNode\<close> with \<open>upsertArgs\<close>; \<open>now\<close> is \<open>unixepoch()\<close>. The foreign key is checked
  when the statement ends.\<close>

definition insert_row :: "int \<Rightarrow> Node \<Rightarrow> row" where
  "insert_row now n =
     \<lparr>c_id = nID n, c_parent_id = parentIDParam (nParentID n), c_source_file = nSourceFile n,
      c_node_type = nNodeType n, c_depth = nDepth n, c_label = nLabel n, c_content = nContent n,
      c_format = nFormat n, c_token_count = nTokenCount n, c_content_hash = nContentHash n,
      c_temperature = (case nSeedTemp n of None \<Rightarrow> 0.5 | Some t \<Rightarrow> t),
      c_access_count = 0, c_last_accessed_at = None, c_created_at = now, c_updated_at = now\<rparr>"

definition update_row :: "int \<Rightarrow> Node \<Rightarrow> row \<Rightarrow> row" where
  "update_row now n r =
     r\<lparr>c_parent_id := parentIDParam (nParentID n), c_source_file := nSourceFile n,
       c_node_type := nNodeType n, c_depth := nDepth n, c_label := nLabel n,
       c_content := nContent n, c_format := nFormat n, c_token_count := nTokenCount n,
       c_content_hash := nContentHash n,
       c_temperature := (case nSeedTemp n of None \<Rightarrow> c_temperature r | Some t \<Rightarrow> t),
       c_updated_at := now\<rparr>"

definition upsert_rows :: "int \<Rightarrow> Node \<Rightarrow> row list \<Rightarrow> row list" where
  "upsert_rows now n rows =
     (if nID n \<in> set (ids rows)
      then map (\<lambda>r. if c_id r = nID n then update_row now n r else r) rows
      else rows @ [insert_row now n])"

definition UpsertNodeTx :: "int \<Rightarrow> Node \<Rightarrow> db \<Rightarrow> error + db" where
  "UpsertNodeTx now n d =
     (let rows = upsert_rows now n (t_nodes d)
      in if nParentID n \<noteq> [] \<and> nParentID n \<notin> set (ids rows) then Inl ForeignKey
         else Inr (d\<lparr>t_nodes := rows\<rparr>))"

section \<open>Delete\<close>

text \<open>Deleting a row deletes the rows that name it as their parent, and so on. The work list holds
  the identifiers still to delete.\<close>

function delete_cascade :: "string list \<Rightarrow> row list \<Rightarrow> row list" where
  "delete_cascade [] rows = rows"
| "delete_cascade (i # todo) rows =
     (if i \<in> set (ids rows)
      then (let rows' = filter (\<lambda>r. c_id r \<noteq> i) rows
            in delete_cascade (todo @ ids (filter (\<lambda>r. c_parent_id r = Some i) rows')) rows')
      else delete_cascade todo rows)"
  by pat_completeness auto
termination
proof (relation "measures [\<lambda>(todo, rows). length rows, \<lambda>(todo, rows). length todo]")
  fix i todo rows rows'
  assume "i \<in> set (ids rows)" "rows' = filter (\<lambda>r. c_id r \<noteq> i) rows"
  then have "length rows' < length rows"
    by (auto simp: ids_def intro: length_filter_less)
  then show "((todo @ ids (filter (\<lambda>r. c_parent_id r = Some i) rows'), rows'), i # todo, rows)
      \<in> measures [\<lambda>(todo, rows). length rows, \<lambda>(todo, rows). length todo]" by simp
qed simp_all

definition DeleteNodeTx :: "string \<Rightarrow> db \<Rightarrow> db" where
  "DeleteNodeTx i d = d\<lparr>t_nodes := delete_cascade [i] (t_nodes d)\<rparr>"

definition DeleteNodesByFiles :: "string list \<Rightarrow> db \<Rightarrow> db" where
  "DeleteNodesByFiles paths d =
     (if paths = [] then d
      else d\<lparr>t_nodes := delete_cascade (ids (filter (\<lambda>r. c_source_file r \<in> set paths) (t_nodes d))) (t_nodes d)\<rparr>)"

section \<open>Snapshots, diffs and the cursor\<close>

definition CreateSnapshotTx :: "int \<Rightarrow> string \<Rightarrow> string \<Rightarrow> string \<Rightarrow> db \<Rightarrow> error + (int \<times> db)" where
  "CreateSnapshotTx now cursorHash message compileRoot d =
     (if cursorHash \<in> s_cursor_hash ` set (t_snapshots d) then Inl (Unique ''snapshots.cursor_hash'')
      else let i = seq_snapshots d + 1;
               s = \<lparr>s_id = i, s_cursor_hash = cursorHash, s_parent_id = t_head d,
                    s_message = message, s_compile_root = compileRoot, s_created_at = now\<rparr>
           in Inr (i, d\<lparr>t_snapshots := t_snapshots d @ [s], seq_snapshots := i\<rparr>))"

definition InsertDiffTx :: "DiffRecord \<Rightarrow> db \<Rightarrow> error + db" where
  "InsertDiffTx r d =
     (if SnapshotID r \<notin> s_id ` set (t_snapshots d) then Inl ForeignKey
      else let i = seq_diffs d + 1
           in Inr (d\<lparr>t_diffs := t_diffs d @
                      [\<lparr>d_id = i, d_snapshot_id = SnapshotID r, d_node_id = drNodeID r,
                        d_op = drOp r, d_old_hash = drOldHash r, d_new_hash = drNewHash r,
                        d_old_content = drOldContent r, d_new_content = drNewContent r\<rparr>],
                     seq_diffs := i\<rparr>))"

definition AdvanceCursorTx :: "int \<Rightarrow> db \<Rightarrow> error + db" where
  "AdvanceCursorTx i d =
     (if i \<notin> s_id ` set (t_snapshots d) then Inl ForeignKey else Inr (d\<lparr>t_head := Some i\<rparr>))"

section \<open>The invariant of the database\<close>

text \<open>Node identifiers are unique and every parent exists; snapshot identifiers grow, cursor
  hashes are unique, a snapshot's parent is an older one; diffs and the head name snapshots that
  exist.\<close>

definition nodes_ok :: "row list \<Rightarrow> bool" where
  "nodes_ok rows \<longleftrightarrow> distinct (ids rows) \<and> (\<forall>r \<in> set rows. fk_ok rows r)"

fun chain_ok :: "int list \<Rightarrow> snapshot_row list \<Rightarrow> bool" where
  "chain_ok older [] = True"
| "chain_ok older (s # ss) =
     ((\<forall>i \<in> set older. i < s_id s)
      \<and> (case s_parent_id s of None \<Rightarrow> True | Some p \<Rightarrow> p \<in> set older)
      \<and> chain_ok (older @ [s_id s]) ss)"

definition history_ok :: "db \<Rightarrow> bool" where
  "history_ok d \<longleftrightarrow>
     chain_ok [] (t_snapshots d)
     \<and> distinct (map s_cursor_hash (t_snapshots d))
     \<and> (\<forall>s \<in> set (t_snapshots d). s_id s \<le> seq_snapshots d)
     \<and> (\<forall>r \<in> set (t_diffs d). d_snapshot_id r \<in> s_id ` set (t_snapshots d))
     \<and> (case t_head d of None \<Rightarrow> True | Some i \<Rightarrow> i \<in> s_id ` set (t_snapshots d))"

definition db_ok :: "db \<Rightarrow> bool" where
  "db_ok d \<longleftrightarrow> nodes_ok (t_nodes d) \<and> history_ok d"

lemma db_ok_empty: "db_ok empty_db"
  by (simp add: db_ok_def nodes_ok_def history_ok_def empty_db_def ids_def)

section \<open>Upsert: effect and invariant\<close>

lemma ids_simps [simp]: "ids [] = []" "ids (r # rs) = c_id r # ids rs" "ids (xs @ ys) = ids xs @ ids ys"
  by (simp_all add: ids_def)

lemma update_row_id [simp]: "c_id (update_row now n r) = c_id r" "c_id (insert_row now n) = nID n"
  by (simp_all add: update_row_def insert_row_def)

lemma ids_map_same: "(\<And>r. c_id (f r) = c_id r) \<Longrightarrow> ids (map f rows) = ids rows"
  by (simp add: ids_def)

lemma ids_upsert_rows:
  "ids (upsert_rows now n rows) = (if nID n \<in> set (ids rows) then ids rows else ids rows @ [nID n])"
  by (simp add: upsert_rows_def ids_map_same)

lemma parentIDParam_simps [simp]:
  "parentIDParam [] = None" "p \<noteq> [] \<Longrightarrow> parentIDParam p = Some p" "parentIDParam p = None \<longleftrightarrow> p = []"
  by (simp_all add: parentIDParam_def)

lemma c_parent_written [simp]:
  "c_parent_id (update_row now n r) = parentIDParam (nParentID n)"
  "c_parent_id (insert_row now n) = parentIDParam (nParentID n)"
  by (simp_all add: update_row_def insert_row_def)

lemma nodes_ok_upsert:
  assumes "nodes_ok rows" "nParentID n = [] \<or> nParentID n \<in> set (ids (upsert_rows now n rows))"
  shows "nodes_ok (upsert_rows now n rows)"
proof -
  have "fk_ok (upsert_rows now n rows) r" if "r \<in> set rows" for r
    using assms(1) that ids_upsert_rows [of now n rows] by (auto simp: nodes_ok_def fk_ok_def split: option.splits)
  moreover have "fk_ok (upsert_rows now n rows) r" if "c_parent_id r = parentIDParam (nParentID n)" for r
    using assms(2) that by (auto simp: fk_ok_def parentIDParam_def)
  ultimately have "\<forall>r \<in> set (upsert_rows now n rows). fk_ok (upsert_rows now n rows) r"
    by (subst upsert_rows_def) auto
  moreover have "distinct (ids (upsert_rows now n rows))"
    using assms(1) by (simp add: ids_upsert_rows nodes_ok_def)
  ultimately show ?thesis by (simp add: nodes_ok_def)
qed

lemma UpsertNodeTx_Inr:
  "UpsertNodeTx now n d = Inr d' \<longleftrightarrow>
     (nParentID n = [] \<or> nParentID n \<in> set (ids (upsert_rows now n (t_nodes d))))
     \<and> d' = d\<lparr>t_nodes := upsert_rows now n (t_nodes d)\<rparr>"
  by (auto simp: UpsertNodeTx_def Let_def)

lemma history_ok_nodes [simp]: "history_ok (d\<lparr>t_nodes := rows\<rparr>) = history_ok d"
  by (cases "t_head d") (simp_all add: history_ok_def)

lemma db_ok_upsert: "db_ok d \<Longrightarrow> UpsertNodeTx now n d = Inr d' \<Longrightarrow> db_ok d'"
  by (auto simp: UpsertNodeTx_Inr db_ok_def nodes_ok_upsert)

text \<open>A row looked up by its identifier.\<close>

definition get_row :: "row list \<Rightarrow> string \<Rightarrow> row option" where
  "get_row rows i = find (\<lambda>r. c_id r = i) rows"

lemma get_row_None: "get_row rows i = None \<longleftrightarrow> i \<notin> set (ids rows)"
  by (auto simp: get_row_def ids_def find_None_set)

lemma get_row_Some: "get_row rows i = Some r \<Longrightarrow> r \<in> set rows \<and> c_id r = i"
  by (auto simp: get_row_def dest: find_Some_set)

lemma get_row_member: "distinct (ids rows) \<Longrightarrow> r \<in> set rows \<Longrightarrow> get_row rows (c_id r) = Some r"
  unfolding get_row_def ids_def by (rule find_distinct)

lemma get_row_simps [simp]:
  "get_row [] i = None"
  "get_row (r # rs) i = (if c_id r = i then Some r else get_row rs i)"
  by (simp_all add: get_row_def)

lemma get_row_append: "get_row (xs @ ys) i = (case get_row xs i of None \<Rightarrow> get_row ys i | Some r \<Rightarrow> Some r)"
  by (induction xs) auto

lemma get_row_map: "(\<And>r. c_id (f r) = c_id r) \<Longrightarrow> get_row (map f rows) i = map_option f (get_row rows i)"
  by (induction rows) auto

lemma get_row_filter:
  "distinct (ids rows) \<Longrightarrow> get_row (filter P rows) i
    = (case get_row rows i of None \<Rightarrow> None | Some r \<Rightarrow> if P r then Some r else None)"
proof (induction rows)
  case (Cons r rows)
  then have "c_id r \<notin> set (ids rows)" by simp
  then have "get_row rows (c_id r) = None" "get_row (filter P rows) (c_id r) = None"
    by (auto simp: get_row_None ids_def)
  with Cons show ?case by auto
qed simp

lemma get_row_upsert:
  "get_row (upsert_rows now n rows) i =
     (if i = nID n
      then Some (case get_row rows i of None \<Rightarrow> insert_row now n | Some r \<Rightarrow> update_row now n r)
      else get_row rows i)"
proof (cases "nID n \<in> set (ids rows)")
  case True
  have "get_row (map (\<lambda>r. if c_id r = nID n then update_row now n r else r) rows) i
      = map_option (\<lambda>r. if c_id r = nID n then update_row now n r else r) (get_row rows i)"
    by (rule get_row_map) simp
  moreover have "map_option (\<lambda>r. if c_id r = nID n then update_row now n r else r) (get_row rows i)
      = (if i = nID n then map_option (update_row now n) (get_row rows i) else get_row rows i)"
    by (cases "get_row rows i") (auto dest: get_row_Some)
  ultimately show ?thesis using True
    by (auto simp: upsert_rows_def get_row_None split: option.splits)
next
  case False
  then have "get_row rows (nID n) = None" by (simp add: get_row_None)
  with False show ?thesis by (cases "i = nID n") (auto simp: upsert_rows_def get_row_append split: option.splits)
qed

section \<open>Delete: effect and invariant\<close>

text \<open>\<open>below rows S i\<close>: the row chain from \<open>i\<close> up through parents meets \<open>S\<close>.\<close>

inductive below :: "row list \<Rightarrow> string set \<Rightarrow> string \<Rightarrow> bool" for rows S where
  below_base: "i \<in> S \<Longrightarrow> below rows S i"
| below_step: "r \<in> set rows \<Longrightarrow> c_parent_id r = Some p \<Longrightarrow> below rows S p \<Longrightarrow> below rows S (c_id r)"

lemma below_mono: "below rows S i \<Longrightarrow> set rows \<subseteq> set rows' \<Longrightarrow> (\<And>j. j \<in> S \<Longrightarrow> below rows' T j) \<Longrightarrow> below rows' T i"
  by (induction rule: below.induct) (auto intro: below_step)

lemma delete_cascade_filter: "\<exists>P. delete_cascade todo rows = filter P rows"
proof (induction todo rows rule: delete_cascade.induct)
  case (1 rows)
  then show ?case by (intro exI [of _ "\<lambda>_. True"]) simp
next
  case (2 i todo rows)
  show ?case
  proof (cases "i \<in> set (ids rows)")
    case True
    with "2.IH"(1) [OF True refl] show ?thesis
      by (simp add: Let_def) (metis filter_filter)
  next
    case False
    with "2.IH"(2) show ?thesis by simp
  qed
qed

lemma delete_cascade_subset: "set (delete_cascade todo rows) \<subseteq> set rows"
  using delete_cascade_filter [of todo rows] by auto

lemma delete_cascade_removed:
  "r \<in> set rows \<Longrightarrow> r \<notin> set (delete_cascade todo rows) \<Longrightarrow> below rows (set todo) (c_id r)"
proof (induction todo rows rule: delete_cascade.induct)
  case (2 i todo rows)
  show ?case
  proof (cases "i \<in> set (ids rows)")
    case True
    let ?rows' = "filter (\<lambda>r. c_id r \<noteq> i) rows"
    let ?todo' = "todo @ ids (filter (\<lambda>r. c_parent_id r = Some i) ?rows')"
    show ?thesis
    proof (cases "c_id r = i")
      case True
      then show ?thesis by (auto intro: below_base)
    next
      case False
      with 2(3,4) True have "r \<in> set ?rows'" "r \<notin> set (delete_cascade ?todo' ?rows')" by (auto simp: Let_def)
      from "2.IH"(1) [OF True refl this] have "below ?rows' (set ?todo') (c_id r)" .
      then show ?thesis
        by (rule below_mono) (auto simp: ids_def intro: below_base below_step)
    qed
  next
    case False
    with 2(3,4) have "below rows (set todo) (c_id r)" using "2.IH"(2) by simp
    then show ?thesis by (rule below_mono) (auto intro: below_base)
  qed
qed simp

lemma delete_cascade_gone: "i \<in> set todo \<Longrightarrow> i \<notin> set (ids (delete_cascade todo rows))"
proof (induction todo rows rule: delete_cascade.induct)
  case (2 j todo rows)
  show ?case
  proof (cases "j \<in> set (ids rows)")
    case True
    let ?rows' = "filter (\<lambda>r. c_id r \<noteq> j) rows"
    let ?todo' = "todo @ ids (filter (\<lambda>r. c_parent_id r = Some j) ?rows')"
    have "i \<notin> set (ids (delete_cascade ?todo' ?rows'))"
    proof (cases "i = j")
      case True
      then show ?thesis using delete_cascade_subset [of ?todo' ?rows'] by (auto simp: ids_def)
    next
      case False
      with 2(3) show ?thesis using "2.IH"(1) [OF True refl] by simp
    qed
    with True show ?thesis by (simp add: Let_def)
  next
    case False
    show ?thesis
    proof (cases "i = j")
      case True
      then show ?thesis using False delete_cascade_subset [of todo rows] by (auto simp: ids_def)
    next
      case ij: False
      with 2(3) False show ?thesis using "2.IH"(2) [OF False] by simp
    qed
  qed
qed simp

text \<open>Deleting keeps the foreign keys: no row is left whose parent was deleted.\<close>

lemma delete_cascade_fk:
  "\<forall>r \<in> set rows. fk_ok rows r \<or> c_id r \<in> set todo \<Longrightarrow>
    r \<in> set (delete_cascade todo rows) \<Longrightarrow> fk_ok (delete_cascade todo rows) r"
proof (induction todo rows rule: delete_cascade.induct)
  case (2 i todo rows)
  show ?case
  proof (cases "i \<in> set (ids rows)")
    case True
    let ?rows' = "filter (\<lambda>r. c_id r \<noteq> i) rows"
    let ?todo' = "todo @ ids (filter (\<lambda>r. c_parent_id r = Some i) ?rows')"
    have "fk_ok ?rows' r \<or> c_id r \<in> set ?todo'" if r: "r \<in> set ?rows'" for r
    proof (cases "c_parent_id r = Some i \<or> c_id r \<in> set todo")
      case True
      then show ?thesis using r by (auto simp: ids_def)
    next
      case False
      with r 2(3) have "fk_ok rows r" by auto
      with False show ?thesis by (auto simp: fk_ok_def ids_def split: option.splits)
    qed
    with "2.IH"(1) [OF True refl] 2(4) True show ?thesis by (simp add: Let_def)
  next
    case False
    then have "\<forall>r \<in> set rows. c_id r \<noteq> i" by (auto simp: ids_def)
    with 2(3) have "\<forall>r \<in> set rows. fk_ok rows r \<or> c_id r \<in> set todo" by auto
    with "2.IH"(2) [OF False] 2(4) False show ?thesis by simp
  qed
qed simp

declare delete_cascade.simps(2) [simp del]

lemma nodes_ok_delete: "nodes_ok rows \<Longrightarrow> nodes_ok (delete_cascade todo rows)"
proof -
  assume ok: "nodes_ok rows"
  from delete_cascade_filter obtain P where "delete_cascade todo rows = filter P rows" by blast
  with ok have "distinct (ids (delete_cascade todo rows))"
    by (simp add: nodes_ok_def ids_def distinct_map_filter)
  moreover have "\<forall>r \<in> set (delete_cascade todo rows). fk_ok (delete_cascade todo rows) r"
    using ok by (intro ballI delete_cascade_fk) (auto simp: nodes_ok_def)
  ultimately show ?thesis by (simp add: nodes_ok_def)
qed

lemma get_row_delete:
  assumes "distinct (ids rows)"
  shows "get_row (delete_cascade todo rows) i = (if i \<in> set (ids (delete_cascade todo rows)) then get_row rows i else None)"
proof -
  from delete_cascade_filter obtain P where "delete_cascade todo rows = filter P rows" by blast
  with get_row_filter [OF assms, of P i] show ?thesis
    by (auto simp: get_row_None [symmetric] split: option.splits)
qed

lemma delete_cascade_keeps:
  assumes "i \<in> set (ids rows)" "\<not> below rows (set todo) i"
  shows "i \<in> set (ids (delete_cascade todo rows))"
proof -
  from assms(1) obtain r where "r \<in> set rows" "i = c_id r" by (auto simp: ids_def)
  with delete_cascade_removed [of r rows todo] assms(2) show ?thesis by (auto simp: ids_def)
qed

lemma db_ok_delete: "db_ok d \<Longrightarrow> db_ok (DeleteNodeTx i d)" "db_ok d \<Longrightarrow> db_ok (DeleteNodesByFiles paths d)"
  by (simp_all add: db_ok_def DeleteNodeTx_def DeleteNodesByFiles_def nodes_ok_delete)

lemma delete_one:
  assumes "nodes_ok rows"
  shows "get_row (delete_cascade [i] rows) j = (if below rows {i} j then None else get_row rows j)"
proof -
  let ?rows = "rows" and ?rows' = "delete_cascade [i] rows"
  have ok': "nodes_ok ?rows'" using assms by (rule nodes_ok_delete)
  have gone: "j \<notin> set (ids ?rows')" if "below ?rows {i} j" for j
    using that
  proof (induction rule: below.induct)
    case (below_base j)
    then show ?case using delete_cascade_gone [of i "[i]"] by simp
  next
    case (below_step r p)
    show ?case
    proof
      assume "c_id r \<in> set (ids ?rows')"
      then obtain r' where r': "r' \<in> set ?rows'" "c_id r' = c_id r" by (auto simp: ids_def)
      then have "r' = r" using below_step(1) delete_cascade_subset assms
        by (metis (no_types) nodes_ok_def get_row_member option.inject subsetD)
      with r' ok' below_step show False by (auto simp: nodes_ok_def fk_ok_def)
    qed
  qed
  have "j \<in> set (ids ?rows')" if "\<not> below ?rows {i} j" "j \<in> set (ids ?rows)"
    using delete_cascade_keeps [of j ?rows "[i]"] that by simp
  then show ?thesis
    using ok' gone [of j] get_row_delete [of ?rows "[i]" j] assms get_row_None [of ?rows j]
    by (auto simp: nodes_ok_def)
qed

text \<open>C37: deleting a node deletes exactly the subtree below it: the node itself and no row whose
  chain of parents misses it, everything else stays as it was, and no foreign key is left
  dangling.\<close>

theorem DeleteNode_subtree:
  assumes "nodes_ok (t_nodes d)"
  shows "nodes_ok (t_nodes (DeleteNodeTx i d))
    \<and> get_row (t_nodes (DeleteNodeTx i d)) j
        = (if below (t_nodes d) {i} j then None else get_row (t_nodes d) j)"
  using nodes_ok_delete [OF assms] delete_one [OF assms] by (simp add: DeleteNodeTx_def)

definition sample_row :: "string \<Rightarrow> string option \<Rightarrow> row" where
  "sample_row i p = \<lparr>c_id = i, c_parent_id = p, c_source_file = ''f'', c_node_type = ''text'', c_depth = 0,
     c_label = [], c_content = [], c_format = ''plain'', c_token_count = 0, c_content_hash = [],
     c_temperature = 0.5, c_access_count = 0, c_last_accessed_at = None, c_created_at = 0, c_updated_at = 0\<rparr>"

theorem DeleteNode_subtree_witness:
  "get_row (t_nodes (DeleteNodeTx ''a'' (empty_db\<lparr>t_nodes := [sample_row ''a'' None, sample_row ''b'' (Some ''a''), sample_row ''c'' None]\<rparr>))) ''b'' = None"
proof -
  let ?d = "empty_db\<lparr>t_nodes := [sample_row ''a'' None, sample_row ''b'' (Some ''a''), sample_row ''c'' None]\<rparr>"
  have "nodes_ok (t_nodes ?d)" by (simp add: nodes_ok_def fk_ok_def sample_row_def)
  moreover have "below (t_nodes ?d) {''a''} ''a''" by (rule below_base) simp
  then have "below (t_nodes ?d) {''a''} (c_id (sample_row ''b'' (Some ''a'')))"
    by (rule below_step [rotated 2]) (simp_all add: sample_row_def)
  ultimately show ?thesis using DeleteNode_subtree [of ?d "''a''" "''b''"] by (simp add: sample_row_def)
qed

section \<open>History: effect and invariant\<close>

lemma chain_ok_append:
  "chain_ok older (ss @ ts) \<longleftrightarrow> chain_ok older ss \<and> chain_ok (older @ map s_id ss) ts"
  by (induction ss arbitrary: older) auto

lemma CreateSnapshotTx_Inr:
  "CreateSnapshotTx now h m r d = Inr (i, d') \<longleftrightarrow>
     h \<notin> s_cursor_hash ` set (t_snapshots d) \<and> i = seq_snapshots d + 1
     \<and> d' = d\<lparr>t_snapshots := t_snapshots d @ [\<lparr>s_id = i, s_cursor_hash = h, s_parent_id = t_head d,
          s_message = m, s_compile_root = r, s_created_at = now\<rparr>], seq_snapshots := i\<rparr>"
  by (auto simp: CreateSnapshotTx_def Let_def)

lemma history_ok_snapshot:
  assumes "history_ok d" "CreateSnapshotTx now h m r d = Inr (i, d')"
  shows "history_ok d' \<and> i \<in> s_id ` set (t_snapshots d')"
proof -
  have "\<forall>j \<in> s_id ` set (t_snapshots d). j < i"
    using assms by (fastforce simp: history_ok_def CreateSnapshotTx_Inr)
  then show ?thesis
    using assms by (cases "t_head d") (fastforce simp: history_ok_def CreateSnapshotTx_Inr chain_ok_append)+
qed

lemma history_ok_diff: "history_ok d \<Longrightarrow> InsertDiffTx r d = Inr d' \<Longrightarrow> history_ok d'"
  by (cases "t_head d") (auto simp: InsertDiffTx_def history_ok_def Let_def split: if_splits)

lemma history_ok_cursor: "history_ok d \<Longrightarrow> AdvanceCursorTx i d = Inr d' \<Longrightarrow> history_ok d'"
  by (auto simp: AdvanceCursorTx_def history_ok_def split: if_splits)

lemma nodes_same:
  "CreateSnapshotTx now h m r d = Inr (i, d') \<Longrightarrow> t_nodes d' = t_nodes d"
  "InsertDiffTx rec d = Inr d' \<Longrightarrow> t_nodes d' = t_nodes d \<and> t_snapshots d' = t_snapshots d \<and> t_head d' = t_head d"
  "AdvanceCursorTx i d = Inr d' \<Longrightarrow> t_nodes d' = t_nodes d \<and> t_snapshots d' = t_snapshots d \<and> t_diffs d' = t_diffs d"
  by (auto simp: CreateSnapshotTx_Inr InsertDiffTx_def AdvanceCursorTx_def Let_def split: if_splits)

end
