(* ===== verification/Tx.thy ===== *)
theory Tx
  imports Tables
begin

text \<open>
  The package \<open>pkg/store\<close>, file \<open>db.go\<close>: transactions and their retries. The engine's
  part of an attempt (whether the transaction starts, commits, and whether the context ends during
  the pause before the next attempt) is the argument \<open>env\<close>, one record per attempt; the body is
  the Go closure, a function of the database.
\<close>

definition isBusy :: "error \<Rightarrow> bool" where
  "isBusy err = (ContainsStr (Error err) ''SQLITE_BUSY'' \<or> ContainsStr (Error err) ''database is locked'')"

record attempt_env =
  begin_error :: "error option"
  commit_error :: "error option"
  sleep_done :: bool   \<comment> \<open>the timer fires before the context is cancelled\<close>

definition maxAttempts :: nat where "maxAttempts = 6"

definition backoffSteps :: "nat list" where
  "backoffSteps = [10, 20, 40, 80, 160, 320]"

definition backoff_delay :: "nat \<Rightarrow> nat" where
  \<comment> \<open>milliseconds\<close>
  "backoff_delay attempt =
     (if attempt < length backoffSteps then backoffSteps ! attempt
      else backoffSteps ! (length backoffSteps - 1))"

definition runTx :: "attempt_env \<Rightarrow> ('s \<Rightarrow> error + 's) \<Rightarrow> 's \<Rightarrow> error option \<times> 's" where
  "runTx e fn d =
     (case begin_error e of
        Some err \<Rightarrow> (Some err, d)
      | None \<Rightarrow>
          (case fn d of
             Inl err \<Rightarrow> (Some err, d)      \<comment> \<open>rolled back\<close>
           | Inr d' \<Rightarrow>
               (case commit_error e of
                  Some err \<Rightarrow> (Some err, d)
                | None \<Rightarrow> (None, d'))))"

text \<open>The retry loop of \<open>Tx\<close>. \<open>ctxErr\<close> is \<open>ctx.Err()\<close>; the number of attempts made is
  returned as well.\<close>

function Tx_loop :: "(nat \<Rightarrow> attempt_env) \<Rightarrow> error \<Rightarrow> ('s \<Rightarrow> error + 's) \<Rightarrow> nat \<Rightarrow> 's
    \<Rightarrow> error option \<times> 's \<times> nat" where
  "Tx_loop env ctxErr fn attempt d =
     (case runTx (env attempt) fn d of
        (None, d') \<Rightarrow> (None, d', attempt + 1)
      | (Some err, d') \<Rightarrow>
          if attempt \<ge> maxAttempts - 1 \<or> \<not> isBusy err then (Some err, d', attempt + 1)
          else if \<not> sleep_done (env attempt) then (Some ctxErr, d', attempt + 1)
          else Tx_loop env ctxErr fn (attempt + 1) d')"
  by pat_completeness auto
termination
  by (relation "measure (\<lambda>(env, ctxErr, fn, attempt, d). maxAttempts - attempt)")
     (auto simp: maxAttempts_def)

declare Tx_loop.simps [simp del]

definition Tx :: "(nat \<Rightarrow> attempt_env) \<Rightarrow> error \<Rightarrow> ('s \<Rightarrow> error + 's) \<Rightarrow> 's \<Rightarrow> error option \<times> 's \<times> nat" where
  "Tx env ctxErr fn d = Tx_loop env ctxErr fn 0 d"

definition fair_env :: "nat \<Rightarrow> attempt_env" where
  "fair_env k = \<lparr>begin_error = None, commit_error = None, sleep_done = True\<rparr>"

lemma runTx_cases:
  "runTx e fn d = (r, d') \<Longrightarrow> (r = None \<and> fn d = Inr d') \<or> (\<exists>err. r = Some err \<and> d' = d)"
  by (auto simp: runTx_def split: option.splits sum.splits)

lemma Tx_loop_atomic:
  "Tx_loop env ctxErr fn k d = (r, d', n) \<Longrightarrow> k < maxAttempts \<Longrightarrow>
    k < n \<and> n \<le> maxAttempts \<and> ((r = None \<and> fn d = Inr d') \<or> (\<exists>err. r = Some err \<and> d' = d))"
proof (induction env ctxErr fn k d rule: Tx_loop.induct)
  case (1 env ctxErr fn k d)
  obtain r1 d1 where r1: "runTx (env k) fn d = (r1, d1)" by (cases "runTx (env k) fn d")
  note cases1 = runTx_cases [OF r1]
  show ?case
  proof (cases r1)
    case None
    with r1 1(2,3) cases1 show ?thesis by (auto simp: Tx_loop.simps [of env ctxErr fn k])
  next
    case (Some err)
    with cases1 have d1: "d1 = d" by simp
    show ?thesis
    proof (cases "k \<ge> maxAttempts - 1 \<or> \<not> isBusy err \<or> \<not> sleep_done (env k)")
      case True
      with r1 Some d1 1(2,3) show ?thesis
        by (auto simp: Tx_loop.simps [of env ctxErr fn k] split: if_splits)
    next
      case False
      then have step: "Tx_loop env ctxErr fn k d = Tx_loop env ctxErr fn (k + 1) d"
        using r1 Some d1 by (simp add: Tx_loop.simps [of env ctxErr fn k])
      have "k + 1 < maxAttempts" using False by (simp add: maxAttempts_def)
      with 1(1) [OF r1 [symmetric] Some] False 1(2) step d1 show ?thesis by auto
    qed
  qed
qed

lemma Tx_atomic:
  assumes "Tx env ctxErr fn d = (r, d', n)"
  shows "(r = None \<and> fn d = Inr d') \<or> (\<exists>err. r = Some err \<and> d' = d)"
  using Tx_loop_atomic [OF assms [unfolded Tx_def]] by (simp add: maxAttempts_def)

lemma Tx_fair: "fn d = Inr d' \<Longrightarrow> Tx fair_env ctxErr fn d = (None, d', 1)"
  by (simp add: Tx_def Tx_loop.simps runTx_def fair_env_def)

text \<open>C19: a transaction is all or nothing and makes at most six attempts: when it reports success
  the database is what the body made of it, on any error (of the body, the engine or the context)
  it is what it was before, and a body error that is no lock contention is reported after the first
  attempt.\<close>

theorem Tx_all_or_nothing:
  assumes "Tx env ctxErr fn d = (r, d', n)"
  shows "1 \<le> n \<and> n \<le> 6
    \<and> (r = None \<longrightarrow> fn d = Inr d')
    \<and> (r \<noteq> None \<longrightarrow> d' = d)
    \<and> (\<forall>err. begin_error (env 0) = None \<longrightarrow> fn d = Inl err \<longrightarrow> \<not> isBusy err \<longrightarrow> r = Some err \<and> n = 1)"
proof -
  have "r = Some err \<and> n = 1" if "begin_error (env 0) = None" "fn d = Inl err" "\<not> isBusy err" for err
    using assms that by (simp add: Tx_def Tx_loop.simps runTx_def)
  then show ?thesis
    using Tx_loop_atomic [OF assms [unfolded Tx_def]] by (auto simp: maxAttempts_def)
qed

theorem Tx_all_or_nothing_witness:
  "\<exists>n. Tx (\<lambda>k. \<lparr>begin_error = Some (Driver ''SQLITE_BUSY''), commit_error = None, sleep_done = True\<rparr>) NoRows
     (\<lambda>d. Inr (d + 1 :: nat)) 0 = (Some (Driver ''SQLITE_BUSY''), 0, n) \<and> n \<le> 6"
proof -
  let ?env = "\<lambda>k. \<lparr>begin_error = Some (Driver ''SQLITE_BUSY''), commit_error = None, sleep_done = True\<rparr>"
  have busy: "isBusy (Driver ''SQLITE_BUSY'')" by (simp add: isBusy_def) code_simp
  have "Tx ?env NoRows (\<lambda>d. Inr (d + 1 :: nat)) 0 = (Some (Driver ''SQLITE_BUSY''), 0, 6)"
    using busy by (simp add: Tx_def Tx_loop.simps runTx_def maxAttempts_def)
  then show ?thesis using Tx_all_or_nothing [of ?env NoRows "\<lambda>d. Inr (d + 1 :: nat)" 0] by blast
qed

section \<open>Waiting out a lock\<close>

lemma Tx_loop_waits:
  assumes "\<forall>j. k \<le> j \<and> j < m \<longrightarrow> begin_error (env j) = Some (busy j) \<and> isBusy (busy j) \<and> sleep_done (env j)"
    and "begin_error (env m) = None" "commit_error (env m) = None" "fn d = Inr d'" "k \<le> m" "m < maxAttempts"
  shows "Tx_loop env ctxErr fn k d = (None, d', m + 1)"
  using assms(1,5)
proof (induction "m - k" arbitrary: k)
  case 0
  then have "k = m" by simp
  with assms show ?case by (simp add: Tx_loop.simps runTx_def)
next
  case (Suc n)
  then have "k < m" by simp
  with Suc assms(6) have "Tx_loop env ctxErr fn k d = Tx_loop env ctxErr fn (k + 1) d"
    by (subst Tx_loop.simps) (simp add: runTx_def maxAttempts_def)
  with Suc show ?case by simp
qed

text \<open>C20: a transaction waits out a lock: if the database is locked at the first attempts but free
  at one of the six, and the context lasts, the transaction commits its body there, once.\<close>

theorem Tx_commits_after_lock:
  assumes "\<forall>j < m. begin_error (env j) = Some (busy j) \<and> isBusy (busy j) \<and> sleep_done (env j)"
    and "begin_error (env m) = None" "commit_error (env m) = None" "fn d = Inr d'" "m < 6"
  shows "Tx env ctxErr fn d = (None, d', m + 1)"
  using assms by (simp add: Tx_def Tx_loop_waits maxAttempts_def)

theorem Tx_commits_after_lock_witness:
  "Tx (\<lambda>k. \<lparr>begin_error = if k < 5 then Some (Driver ''database is locked'') else None, commit_error = None, sleep_done = True\<rparr>)
     NoRows (\<lambda>d. Inr (d + 1 :: nat)) 7 = (None, 8, 6)"
proof -
  have busy: "isBusy (Driver ''database is locked'')" by (simp add: isBusy_def) code_simp
  from Tx_commits_after_lock [of 5 "\<lambda>k. \<lparr>begin_error = if k < 5 then Some (Driver ''database is locked'') else None, commit_error = None, sleep_done = True\<rparr>"
      "\<lambda>j. Driver ''database is locked''" "\<lambda>d. Inr (d + 1 :: nat)" 7 8 NoRows] busy
  show ?thesis by simp
qed

section \<open>Transaction bodies\<close>

text \<open>The contract of a transaction body: it keeps the invariant. Then the transaction does,
  whatever the engine answers.\<close>

locale tx_body =
  fixes body :: "db \<Rightarrow> error + db"
  assumes body_ok: "db_ok d \<Longrightarrow> body d = Inr d' \<Longrightarrow> db_ok d'"
begin

lemma Tx_ok: "db_ok d \<Longrightarrow> db_ok (fst (snd (Tx env ctxErr body d)))"
proof -
  assume ok: "db_ok d"
  obtain r d' n where t: "Tx env ctxErr body d = (r, d', n)" by (cases "Tx env ctxErr body d") auto
  from Tx_atomic [OF t] ok body_ok show ?thesis by (auto simp: t)
qed

end

interpretation upsert: tx_body "UpsertNodeTx now n" for now n
  by unfold_locales (rule db_ok_upsert)

interpretation delete: tx_body "\<lambda>d. Inr (DeleteNodeTx i d)" for i
  by unfold_locales (auto simp: db_ok_delete)

end
