(* ===== verification/Migrate.thy ===== *)
theory Migrate
  imports Tx
begin

text \<open>
  The package \<open>pkg/store\<close>, file \<open>migrate.go\<close>: bringing a database up to date. What a migration's SQL
  does is the argument \<open>exec\<close> on a schema of any type; the table \<open>schema_migrations\<close> is the list of its
  versions, a primary key. The embedded files are a directory listing with their bodies. Every
  migration runs in a transaction of its own, with its own engine behaviour \<open>envs\<close>.
\<close>

record 'q mdb =
  m_versions :: "string list"
  m_schema :: 'q

record dir_entry =
  de_Name :: string
  de_IsDir :: bool
  de_body :: "error + string"

type_synonym migration = "string \<times> string"   \<comment> \<open>version and body\<close>

fun loadMigrations_loop :: "dir_entry list \<Rightarrow> error + migration list" where
  "loadMigrations_loop [] = Inr []"
| "loadMigrations_loop (e # es) =
     (if de_IsDir e \<or> \<not> HasSuffix (de_Name e) ''.sql'' then loadMigrations_loop es
      else bindR (wrap_error (''failed to read: '' @ de_Name e) (de_body e)) (\<lambda>body.
           bindR (loadMigrations_loop es) (\<lambda>out. Inr ((de_Name e, body) # out))))"

definition loadMigrations :: "error + dir_entry list \<Rightarrow> error + migration list" where
  "loadMigrations dir =
     bindR (wrap_error ''failed to read: embedded migrations'' dir) (\<lambda>entries.
     bindR (loadMigrations_loop entries) (\<lambda>out. Inr (sort_key fst out)))"

definition migration_body :: "(string \<Rightarrow> 'q \<Rightarrow> error + 'q) \<Rightarrow> migration \<Rightarrow> 'q mdb \<Rightarrow> error + 'q mdb" where
  "migration_body exec m d =
     bindR (exec (snd m) (m_schema d)) (\<lambda>q.
       if fst m \<in> set (m_versions d) then Inl (Unique ''schema_migrations.version'')
       else Inr \<lparr>m_versions = m_versions d @ [fst m], m_schema = q\<rparr>)"

definition applyMigration :: "(nat \<Rightarrow> attempt_env) \<Rightarrow> error \<Rightarrow> (string \<Rightarrow> 'q \<Rightarrow> error + 'q) \<Rightarrow> migration \<Rightarrow> 'q mdb
    \<Rightarrow> error option \<times> 'q mdb" where
  "applyMigration env ctxErr exec m d = (case Tx env ctxErr (migration_body exec m) d of (e, d', _) \<Rightarrow> (e, d'))"

text \<open>\<open>applied\<close> is read once, before the loop.\<close>

fun Migrate_loop :: "(string \<Rightarrow> nat \<Rightarrow> attempt_env) \<Rightarrow> error \<Rightarrow> (string \<Rightarrow> 'q \<Rightarrow> error + 'q) \<Rightarrow> string set
    \<Rightarrow> migration list \<Rightarrow> 'q mdb \<Rightarrow> error option \<times> 'q mdb" where
  "Migrate_loop envs ctxErr exec applied [] d = (None, d)"
| "Migrate_loop envs ctxErr exec applied (m # ms) d =
     (if fst m \<in> applied then Migrate_loop envs ctxErr exec applied ms d
      else case applyMigration (envs (fst m)) ctxErr exec m d of
             (Some e, d') \<Rightarrow> (Some (Errorf (''failed to apply: '' @ fst m) e), d')
           | (None, d') \<Rightarrow> Migrate_loop envs ctxErr exec applied ms d')"

text \<open>\<open>ddl\<close> and \<open>readErr\<close> are the errors of creating and of reading the versions table.\<close>

definition Migrate :: "(string \<Rightarrow> nat \<Rightarrow> attempt_env) \<Rightarrow> error \<Rightarrow> (string \<Rightarrow> 'q \<Rightarrow> error + 'q) \<Rightarrow> error option \<Rightarrow> error option
    \<Rightarrow> error + dir_entry list \<Rightarrow> 'q mdb \<Rightarrow> error option \<times> 'q mdb" where
  "Migrate envs ctxErr exec ddl readErr dir d =
     (case ddl of
        Some e \<Rightarrow> (Some (Errorf ''failed to create: schema_migrations'' e), d)
      | None \<Rightarrow>
          (case readErr of
             Some e \<Rightarrow> (Some (Errorf ''failed to read: schema_migrations'' e), d)
           | None \<Rightarrow>
               (case loadMigrations dir of
                  Inl e \<Rightarrow> (Some e, d)
                | Inr pending \<Rightarrow> Migrate_loop envs ctxErr exec (set (m_versions d)) pending d)))"

section \<open>Migrating applies what is missing, in order\<close>

fun run_bodies :: "(string \<Rightarrow> 'q \<Rightarrow> error + 'q) \<Rightarrow> migration list \<Rightarrow> 'q \<Rightarrow> error + 'q" where
  "run_bodies exec [] q = Inr q"
| "run_bodies exec (m # ms) q = bindR (exec (snd m) q) (run_bodies exec ms)"

definition missing :: "string set \<Rightarrow> migration list \<Rightarrow> migration list" where
  "missing applied ms = filter (\<lambda>m. fst m \<notin> applied) ms"

lemma applyMigration_cases:
  assumes "applyMigration env ctxErr exec m d = (e, d')"
  shows "(\<exists>err. e = Some err \<and> d' = d) \<or>
    (e = None \<and> exec (snd m) (m_schema d) = Inr (m_schema d') \<and> m_versions d' = m_versions d @ [fst m])"
proof -
  from assms obtain n where "Tx env ctxErr (migration_body exec m) d = (e, d', n)"
    by (auto simp: applyMigration_def split: prod.splits)
  from Tx_atomic [OF this] show ?thesis
    by (auto simp: migration_body_def bindR_Inr_iff split: if_splits)
qed

lemma Migrate_loop_prefix:
  "Migrate_loop envs ctxErr exec applied ms d = (e, d') \<Longrightarrow>
    \<exists>k \<le> length (missing applied ms). (e = None \<longleftrightarrow> k = length (missing applied ms))
      \<and> run_bodies exec (take k (missing applied ms)) (m_schema d) = Inr (m_schema d')
      \<and> m_versions d' = m_versions d @ map fst (take k (missing applied ms))"
proof (induction envs ctxErr exec applied ms d rule: Migrate_loop.induct)
  case (1 envs ctxErr exec applied d)
  then show ?case by (simp add: missing_def)
next
  case (2 envs ctxErr exec applied m ms d)
  show ?case
  proof (cases "fst m \<in> applied")
    case True
    with 2 show ?thesis by (simp add: missing_def)
  next
    case False
    then have mis: "missing applied (m # ms) = m # missing applied ms" by (simp add: missing_def)
    obtain e1 d1 where a: "applyMigration (envs (fst m)) ctxErr exec m d = (e1, d1)" by fastforce
    show ?thesis
    proof (cases e1)
      case (Some err)
      with 2(3) False a applyMigration_cases [OF a] have "e \<noteq> None" "d' = d" by auto
      then show ?thesis unfolding mis by (intro exI [of _ 0]) simp
    next
      case None
      with applyMigration_cases [OF a] have step: "exec (snd m) (m_schema d) = Inr (m_schema d1)"
        "m_versions d1 = m_versions d @ [fst m]" by auto
      from 2(3) False a None have "Migrate_loop envs ctxErr exec applied ms d1 = (e, d')" by simp
      from 2(2) [OF False a [symmetric] None this] obtain k where
        "k \<le> length (missing applied ms)" "e = None \<longleftrightarrow> k = length (missing applied ms)"
        "run_bodies exec (take k (missing applied ms)) (m_schema d1) = Inr (m_schema d')"
        "m_versions d' = m_versions d1 @ map fst (take k (missing applied ms))" by blast
      with step show ?thesis unfolding mis by (intro exI [of _ "Suc k"]) simp
    qed
  qed
qed

text \<open>C36: migrating applies a prefix of the missing migrations, in version order, and records exactly
  those: all of them if it succeeds. What a failed run applied stays applied and recorded, and what is
  missing afterwards is the rest, so the next run resumes there; after a success nothing is missing.\<close>

theorem Migrate_resumable:
  assumes "Migrate envs ctxErr exec None None dir d = (e, d')" "loadMigrations dir = Inr ms" "distinct (map fst ms)"
  shows "\<exists>k \<le> length (missing (set (m_versions d)) ms).
      (e = None \<longleftrightarrow> k = length (missing (set (m_versions d)) ms))
      \<and> run_bodies exec (take k (missing (set (m_versions d)) ms)) (m_schema d) = Inr (m_schema d')
      \<and> m_versions d' = m_versions d @ map fst (take k (missing (set (m_versions d)) ms))
      \<and> missing (set (m_versions d')) ms = drop k (missing (set (m_versions d)) ms)"
proof -
  let ?ms = "missing (set (m_versions d)) ms"
  from assms(1,2) have "Migrate_loop envs ctxErr exec (set (m_versions d)) ms d = (e, d')" by (simp add: Migrate_def)
  from Migrate_loop_prefix [OF this] obtain k where k: "k \<le> length ?ms" "e = None \<longleftrightarrow> k = length ?ms"
    "run_bodies exec (take k ?ms) (m_schema d) = Inr (m_schema d')"
    "m_versions d' = m_versions d @ map fst (take k ?ms)" by blast
  have d: "distinct (map fst ?ms)" using assms(3) by (simp add: missing_def distinct_map_filter)
  have rest: "filter (\<lambda>m. fst m \<notin> fst ` set (take k xs)) xs = drop k xs" if "distinct (map fst xs)" for xs :: "migration list"
    using that
  proof (induction xs arbitrary: k)
    case (Cons x xs)
    show ?case
    proof (cases k)
      case 0
      then show ?thesis by simp
    next
      case (Suc j)
      with Cons.prems have "filter (\<lambda>m. fst m \<notin> fst ` set (take k (x # xs))) xs = filter (\<lambda>m. fst m \<notin> fst ` set (take j xs)) xs"
        by (intro filter_cong) (auto simp: image_iff)
      with Suc Cons show ?thesis by simp
    qed
  qed simp
  have "missing (set (m_versions d')) ms = filter (\<lambda>m. fst m \<notin> fst ` set (take k ?ms)) ?ms"
    unfolding k(4) by (auto simp: missing_def intro: filter_cong)
  with rest [OF d] k show ?thesis by metis
qed

theorem Migrate_resumable_witness:
  "\<exists>d'. Migrate (\<lambda>v. fair_env) NoRows (\<lambda>body q. Inr (q @ [body])) None None
      (Inr [\<lparr>de_Name = ''0002.sql'', de_IsDir = False, de_body = Inr ''b''\<rparr>, \<lparr>de_Name = ''0001.sql'', de_IsDir = False, de_body = Inr ''a''\<rparr>])
      \<lparr>m_versions = [], m_schema = []\<rparr> = (None, d') \<and> m_schema d' = [''a'', ''b''] \<and> m_versions d' = [''0001.sql'', ''0002.sql'']"
proof -
  let ?dir = "Inr [\<lparr>de_Name = ''0002.sql'', de_IsDir = False, de_body = Inr ''b''\<rparr>, \<lparr>de_Name = ''0001.sql'', de_IsDir = False, de_body = Inr ''a''\<rparr>] :: error + dir_entry list"
  let ?d = "\<lparr>m_versions = [], m_schema = []\<rparr> :: string list mdb"
  let ?x = "\<lambda>body q. Inr (q @ [body]) :: error + string list"
  have ms: "loadMigrations ?dir = Inr [(''0001.sql'', ''a''), (''0002.sql'', ''b'')]" by code_simp
  obtain e d' where m: "Migrate (\<lambda>v. fair_env) NoRows ?x None None ?dir ?d = (e, d')" by fastforce
  have "\<exists>d'. Migrate (\<lambda>v. fair_env) NoRows ?x None None ?dir ?d = (None, d')"
    using ms by (simp add: Migrate_def applyMigration_def migration_body_def Tx_fair)
  with m have e: "e = None" by auto
  from Migrate_resumable [OF m ms] e show ?thesis using m by (auto simp: missing_def)
qed

end
