(* ===== verification/Compress.thy ===== *)
theory Compress
  imports Ast
begin

text \<open>
  The package \<open>pkg/transformer\<close>, file \<open>compress.go\<close>: white-space normalisation of a
  node's content, its normal form, and the fact that it keeps UTF-8 validity.
\<close>

definition trimTrailingPerLine :: "string \<Rightarrow> string" where
  "trimTrailingPerLine s = Join (map (\<lambda>l. TrimRight l [SP, TAB]) (splitOn LF s)) [LF]"

function collapseBlankLines :: "string \<Rightarrow> string" where
  "collapseBlankLines s =
     (if ContainsStr s [LF, LF, LF] then collapseBlankLines (ReplaceAll s [LF, LF, LF] [LF, LF])
      else s)"
  by pat_completeness auto
termination
  by (relation "measure length") (auto intro: ReplaceAll_shorter)

declare collapseBlankLines.simps [simp del]

definition trimEmptyEdges :: "string \<Rightarrow> string" where
  \<comment> \<open>the two loops strip one line feed at a time from the front, then from the back\<close>
  "trimEmptyEdges s = dropWhileEnd (\<lambda>c. c = LF) (dropWhile (\<lambda>c. c = LF) s)"

definition compress_text :: "string \<Rightarrow> string" where
  "compress_text s =
     (let s = ReplaceAll s [CR, LF] [LF];
          s = ReplaceAll s [CR] [LF];
          s = trimTrailingPerLine s;
          s = collapseBlankLines s
      in trimEmptyEdges s)"

definition compress :: "node_data \<Rightarrow> node_data" where
  "compress n = n\<lparr>Content := compress_text (Content n)\<rparr>"

section \<open>Lines without trailing blanks\<close>

definition blank :: "char \<Rightarrow> bool" where
  "blank c = (c = SP \<or> c = TAB)"

fun lines_ok :: "string \<Rightarrow> bool" where
  "lines_ok [] = True"
| "lines_ok [c] = (\<not> blank c)"
| "lines_ok (c # d # s) = ((blank c \<longrightarrow> d \<noteq> LF) \<and> lines_ok (d # s))"

lemma not_blank_LF [simp]: "\<not> blank LF"
  by (simp add: blank_def char_defs)

lemma lines_ok_LF [simp]: "lines_ok (LF # s) = lines_ok s"
  by (cases s) auto

lemma lines_ok_Cons: "lines_ok (c # s) \<longleftrightarrow> (blank c \<longrightarrow> s \<noteq> [] \<and> hd s \<noteq> LF) \<and> lines_ok s"
  by (cases s) auto

lemma lines_ok_append: "lines_ok (u @ v) \<Longrightarrow> lines_ok v"
  by (induction u) (auto simp: lines_ok_Cons)

lemma lines_ok_before_LF: "lines_ok (s @ LF # t) \<longleftrightarrow> lines_ok s \<and> lines_ok t"
proof (induction s)
  case (Cons c s)
  then show ?case by (cases s) (auto simp: lines_ok_Cons)
qed simp

lemma lines_ok_last: "lines_ok s \<Longrightarrow> s \<noteq> [] \<Longrightarrow> \<not> blank (last s)"
  by (induction s rule: lines_ok.induct) auto

lemma lines_ok_no_LF: "LF \<notin> set s \<Longrightarrow> lines_ok s \<longleftrightarrow> s = [] \<or> \<not> blank (last s)"
  by (induction s rule: lines_ok.induct) auto

lemma lines_ok_splitOn: "lines_ok s \<longleftrightarrow> (\<forall>l \<in> set (splitOn LF s). l = [] \<or> \<not> blank (last l))"
proof (induction "length s" arbitrary: s rule: less_induct)
  case less
  show ?case
  proof (cases "LF \<in> set s")
    case False
    then show ?thesis by (simp add: lines_ok_no_LF splitOn_id)
  next
    case True
    then obtain u v where uv: "s = u @ LF # v" "LF \<notin> set u" by (meson split_list_first)
    with less show ?thesis by (simp add: lines_ok_before_LF lines_ok_no_LF splitOn_append)
  qed
qed

lemma TrimRight_blank_id: "l = [] \<or> \<not> blank (last l) \<Longrightarrow> TrimRight l [SP, TAB] = l"
  unfolding TrimRight_def by (intro dropWhileEnd_id) (auto simp: blank_def)

lemma TrimRight_blank_last: "TrimRight l [SP, TAB] = [] \<or> \<not> blank (last (TrimRight l [SP, TAB]))"
  using dropWhileEnd_last [of "\<lambda>c. c \<in> set [SP, TAB]" l] by (auto simp: TrimRight_def blank_def)

lemma splitOn_trimTrailing:
  "splitOn LF (trimTrailingPerLine s) = map (\<lambda>l. TrimRight l [SP, TAB]) (splitOn LF s)"
  unfolding trimTrailingPerLine_def
proof (rule splitOn_Join)
  show "\<forall>x \<in> set (map (\<lambda>l. TrimRight l [SP, TAB]) (splitOn LF s)). LF \<notin> set x"
  proof
    fix x assume "x \<in> set (map (\<lambda>l. TrimRight l [SP, TAB]) (splitOn LF s))"
    then obtain l where "l \<in> set (splitOn LF s)" "x = TrimRight l [SP, TAB]" by auto
    then show "LF \<notin> set x" using splitOn_no_sep [of l LF s] set_dropWhileEnd
      by (auto simp: TrimRight_def)
  qed
qed simp

lemma lines_ok_trimTrailing: "lines_ok (trimTrailingPerLine s)"
  using TrimRight_blank_last by (auto simp: lines_ok_splitOn splitOn_trimTrailing)

lemma trimTrailing_id: "lines_ok s \<Longrightarrow> trimTrailingPerLine s = s"
proof -
  assume "lines_ok s"
  then have "map (\<lambda>l. TrimRight l [SP, TAB]) (splitOn LF s) = splitOn LF s"
    by (intro map_idI TrimRight_blank_id) (auto simp: lines_ok_splitOn)
  then show ?thesis by (simp add: trimTrailingPerLine_def Join_splitOn)
qed

section \<open>The normal form\<close>

definition compressed :: "string \<Rightarrow> bool" where
  "compressed s \<longleftrightarrow> CR \<notin> set s \<and> lines_ok s \<and> \<not> ContainsStr s [LF, LF, LF]
     \<and> (s \<noteq> [] \<longrightarrow> hd s \<noteq> LF \<and> last s \<noteq> LF)"

lemma hd_ReplaceAll_LF3:
  "s \<noteq> [] \<Longrightarrow> hd s \<noteq> LF \<Longrightarrow> ReplaceAll s [LF, LF, LF] n = hd s # ReplaceAll (tl s) [LF, LF, LF] n"
  by (cases s) (auto simp: ReplaceAll_skip HasPrefix_def)

lemma lines_ok_ReplaceAll: "lines_ok s \<Longrightarrow> lines_ok (ReplaceAll s [LF, LF, LF] [LF, LF])"
proof (induction "length s" arbitrary: s rule: less_induct)
  case less
  show ?case
  proof (cases s)
    case (Cons c t)
    show ?thesis
    proof (cases "HasPrefix s [LF, LF, LF]")
      case True
      then obtain u where u: "s = LF # LF # LF # u" by (auto simp: HasPrefix_iff)
      with less have "lines_ok (ReplaceAll u [LF, LF, LF] [LF, LF])" by simp
      with u True show ?thesis by (simp add: ReplaceAll_prefix)
    next
      case False
      have IH: "lines_ok (ReplaceAll t [LF, LF, LF] [LF, LF])"
        using less Cons by (auto simp: lines_ok_Cons)
      have "blank c \<longrightarrow> t \<noteq> [] \<and> hd t \<noteq> LF" using less.prems Cons by (simp add: lines_ok_Cons)
      then have "blank c \<longrightarrow> ReplaceAll t [LF, LF, LF] [LF, LF] \<noteq> []
          \<and> hd (ReplaceAll t [LF, LF, LF] [LF, LF]) \<noteq> LF"
        by (simp add: hd_ReplaceAll_LF3)
      with IH Cons False show ?thesis by (simp add: ReplaceAll_skip lines_ok_Cons)
    qed
  qed simp
qed

lemma collapse_induct:
  assumes step: "\<And>s. P s \<Longrightarrow> P (ReplaceAll s [LF, LF, LF] [LF, LF])" and "P s"
  shows "P (collapseBlankLines s) \<and> \<not> ContainsStr (collapseBlankLines s) [LF, LF, LF]"
  using assms(2)
proof (induction s rule: collapseBlankLines.induct)
  case (1 s)
  then show ?case using step by (cases "ContainsStr s [LF, LF, LF]")
    (simp_all add: collapseBlankLines.simps [of s])
qed

lemma trimEmptyEdges_parts: "\<exists>u v. s = u @ trimEmptyEdges s @ v \<and> set u \<subseteq> {LF} \<and> set v \<subseteq> {LF}"
proof -
  obtain v where v: "dropWhile (\<lambda>c. c = LF) s = trimEmptyEdges s @ v" "\<forall>c \<in> set v. c = LF"
    unfolding trimEmptyEdges_def
    using dropWhileEnd_prefix [of "dropWhile (\<lambda>c. c = LF) s" "\<lambda>c. c = LF"] by blast
  have "s = takeWhile (\<lambda>c. c = LF) s @ dropWhile (\<lambda>c. c = LF) s" by simp
  then have "s = takeWhile (\<lambda>c. c = LF) s @ trimEmptyEdges s @ v" unfolding v(1) .
  moreover have "set (takeWhile (\<lambda>c. c = LF) s) \<subseteq> {LF}" by (auto dest: set_takeWhileD)
  ultimately show ?thesis using v(2) by blast
qed

lemma lines_ok_prefix_LFs: "lines_ok (s @ v) \<Longrightarrow> set v \<subseteq> {LF} \<Longrightarrow> lines_ok s"
  by (cases v) (auto simp: lines_ok_before_LF)

lemma lines_ok_trimEmptyEdges: "lines_ok s \<Longrightarrow> lines_ok (trimEmptyEdges s)"
  using trimEmptyEdges_parts [of s] lines_ok_prefix_LFs lines_ok_append by metis

lemma trimEmptyEdges_edges:
  assumes "trimEmptyEdges s \<noteq> []"
  shows "hd (trimEmptyEdges s) \<noteq> LF \<and> last (trimEmptyEdges s) \<noteq> LF"
proof -
  let ?d = "dropWhile (\<lambda>c. c = LF) s"
  from assms have "?d \<noteq> []" unfolding trimEmptyEdges_def by (metis dropWhileEnd_Nil)
  then have "hd ?d \<noteq> LF" by (rule hd_dropWhile)
  moreover obtain v where "?d = trimEmptyEdges s @ v"
    unfolding trimEmptyEdges_def using dropWhileEnd_prefix [of ?d "\<lambda>c. c = LF"] by blast
  ultimately have "hd (trimEmptyEdges s) \<noteq> LF" using assms by (simp add: hd_append)
  moreover have "last (trimEmptyEdges s) \<noteq> LF"
    using assms dropWhileEnd_last unfolding trimEmptyEdges_def by blast
  ultimately show ?thesis by simp
qed

lemma trimEmptyEdges_id: "s \<noteq> [] \<longrightarrow> hd s \<noteq> LF \<and> last s \<noteq> LF \<Longrightarrow> trimEmptyEdges s = s"
  by (cases s) (auto simp: trimEmptyEdges_def intro: dropWhileEnd_id)

lemma no_CR_after_replace: "CR \<notin> set (ReplaceAll s [CR] [LF])"
  by (auto simp: ReplaceAll_single char_defs)

lemma set_trimTrailing: "set (trimTrailingPerLine s) \<subseteq> set s \<union> {LF}"
  unfolding trimTrailingPerLine_def
  using set_Join [of "map (\<lambda>l. TrimRight l [SP, TAB]) (splitOn LF s)" "[LF]"]
    set_splitOn_subset [of _ LF s] set_dropWhileEnd
  by (fastforce simp: TrimRight_def)

lemma compressed_compress_text: "compressed (compress_text s)"
proof -
  define a where "a = trimTrailingPerLine (ReplaceAll (ReplaceAll s [CR, LF] [LF]) [CR] [LF])"
  define b where "b = collapseBlankLines a"
  have eq: "compress_text s = trimEmptyEdges b" by (simp add: compress_text_def a_def b_def Let_def)
  have a: "lines_ok a \<and> CR \<notin> set a"
    using lines_ok_trimTrailing no_CR_after_replace set_trimTrailing
    unfolding a_def by (fastforce simp: char_defs)
  have "(lines_ok b \<and> CR \<notin> set b) \<and> \<not> ContainsStr b [LF, LF, LF]"
    unfolding b_def
  proof (rule collapse_induct)
    fix s assume "lines_ok s \<and> CR \<notin> set s"
    moreover have "CR \<noteq> LF" by (simp add: char_defs)
    ultimately show "lines_ok (ReplaceAll s [LF, LF, LF] [LF, LF])
        \<and> CR \<notin> set (ReplaceAll s [LF, LF, LF] [LF, LF])"
      using set_ReplaceAll [of s "[LF, LF, LF]" "[LF, LF]"] lines_ok_ReplaceAll by auto
  qed (rule a)
  moreover obtain u v where uv: "b = u @ trimEmptyEdges b @ v" using trimEmptyEdges_parts by blast
  ultimately have "CR \<notin> set (trimEmptyEdges b)" "lines_ok (trimEmptyEdges b)"
    using lines_ok_trimEmptyEdges by (auto, metis Un_iff set_append)
  moreover have "\<not> ContainsStr (trimEmptyEdges b) [LF, LF, LF]"
  proof
    assume "ContainsStr (trimEmptyEdges b) [LF, LF, LF]"
    then obtain x y where "trimEmptyEdges b = x @ [LF, LF, LF] @ y" by (auto simp: ContainsStr_iff)
    with uv have "b = (u @ x) @ [LF, LF, LF] @ (y @ v)" by simp
    then have "ContainsStr b [LF, LF, LF]" using ContainsStr_iff by blast
    with \<open>(lines_ok b \<and> CR \<notin> set b) \<and> \<not> ContainsStr b [LF, LF, LF]\<close> show False by blast
  qed
  ultimately show ?thesis using trimEmptyEdges_edges [of b] by (simp add: compressed_def eq)
qed

lemma compress_text_id:
  assumes "compressed s"
  shows "compress_text s = s"
proof -
  from assms have "\<not> ContainsStr s [CR, LF]" "\<not> ContainsStr s [CR]"
    by (auto simp: compressed_def ContainsStr_iff)
  with assms show ?thesis
    by (simp add: compress_text_def ReplaceAll_no trimTrailing_id trimEmptyEdges_id compressed_def
        collapseBlankLines.simps [of s])
qed

section \<open>UTF-8 validity\<close>

lemma Valid_drop_prefix: "Valid (s @ t) \<Longrightarrow> Valid s \<Longrightarrow> Valid t"
proof (induction s rule: Valid.induct)
  case (1 s)
  show ?case
  proof (cases "s = []")
    case False
    then obtain n where n: "rune_len s = Some n" "Valid (drop n s)" using 1 Valid_rune by blast
    then have "Valid (drop n s @ t)"
      using 1 Valid_step [OF rune_len_append [OF n(1)], of t] rune_len_pos [OF n(1)] by simp
    with n show ?thesis using 1 by blast
  qed (use 1 in simp)
qed

lemma RuneStart_ascii: "(of_char c :: nat) < 128 \<Longrightarrow> RuneStart c"
  by (simp add: RuneStart_def cont_byte_def)

lemma Valid_ascii_Cons: "(of_char c :: nat) < 128 \<Longrightarrow> Valid (c # s) = Valid s"
  using Valid_step [of "c # s" 1] by (simp add: rune_len_Cons_iff lead_width_def tail_ok_def)

lemma Valid_around_ascii: "(of_char c :: nat) < 128 \<Longrightarrow> Valid (s @ c # t) \<longleftrightarrow> Valid s \<and> Valid t"
proof -
  assume c: "(of_char c :: nat) < 128"
  have "Valid s \<and> Valid t" if v: "Valid (s @ c # t)"
  proof -
    have "Valid (take (length s) (s @ c # t))"
      using v RuneStart_ascii [OF c] by (intro Valid_take) auto
    then have "Valid s" by simp
    moreover have "Valid (c # t)" using Valid_drop_prefix [OF v \<open>Valid s\<close>] .
    ultimately show ?thesis using c by (simp add: Valid_ascii_Cons)
  qed
  then show ?thesis using c by (auto simp: Valid_ascii_Cons intro: Valid_append)
qed

lemma Valid_snoc_ascii: "(of_char c :: nat) < 128 \<Longrightarrow> Valid (s @ [c]) = Valid s"
  using Valid_around_ascii [of c s "[]"] by simp

lemma ascii_char_defs [simp]:
  "(of_char LF :: nat) < 128" "(of_char CR :: nat) < 128" "(of_char SP :: nat) < 128"
  "(of_char TAB :: nat) < 128"
  by (simp_all add: char_defs)

lemma Valid_splitOn: "Valid s \<Longrightarrow> (of_char c :: nat) < 128 \<Longrightarrow> l \<in> set (splitOn c s) \<Longrightarrow> Valid l"
proof (induction "length s" arbitrary: s rule: less_induct)
  case less
  show ?case
  proof (cases "c \<in> set s")
    case False
    with less show ?thesis by (simp add: splitOn_id)
  next
    case True
    then obtain u v where uv: "s = u @ c # v" "c \<notin> set u" by (meson split_list_first)
    with less.prems have "Valid u" "Valid v" by (simp_all add: Valid_around_ascii)
    moreover have "l = u \<or> l \<in> set (splitOn c v)" using less.prems uv by (simp add: splitOn_append)
    moreover have "length v < length s" using uv by simp
    ultimately show ?thesis using less.hyps [of v] less.prems by blast
  qed
qed

lemma Valid_Join: "\<forall>l \<in> set ls. Valid l \<Longrightarrow> Valid sep' \<Longrightarrow> Valid (Join ls sep')"
  by (induction ls sep' rule: Join.induct) (auto intro!: Valid_append)

lemma Valid_dropWhileEnd:
  "Valid s \<Longrightarrow> (\<And>c. P c \<Longrightarrow> (of_char c :: nat) < 128) \<Longrightarrow> Valid (dropWhileEnd P s)"
proof (induction s rule: rev_induct)
  case (snoc c s)
  then show ?case by (auto simp: dropWhileEnd_snoc Valid_snoc_ascii)
qed simp

lemma Valid_dropWhile:
  "Valid s \<Longrightarrow> (\<And>c. P c \<Longrightarrow> (of_char c :: nat) < 128) \<Longrightarrow> Valid (dropWhile P s)"
  by (induction s) (auto simp: Valid_ascii_Cons)

lemma Valid_ReplaceAll_ascii:
  assumes "old \<noteq> []" "\<forall>c \<in> set old. (of_char c :: nat) < 128" "Valid new"
  shows "Valid s \<Longrightarrow> Valid (ReplaceAll s old new)"
proof (induction "length s" arbitrary: s rule: less_induct)
  case less
  show ?case
  proof (cases "ContainsStr s old")
    case True
    define k where "k = (LEAST k. HasPrefix (drop k s) old)"
    from True obtain u v where "s = u @ old @ v" by (auto simp: ContainsStr_iff)
    then have "HasPrefix (drop (length u) s) old" by simp
    then have k: "HasPrefix (drop k s) old" unfolding k_def by (rule LeastI)
    have min: "\<not> HasPrefix (drop j s) old" if "j < k" for j
      using that not_less_Least unfolding k_def by blast
    obtain t where t: "drop k s = old @ t" using k HasPrefix_iff by blast
    have klen: "k < length s" using t assms(1) by (metis Nil_is_append_conv drop_all leI)
    have "ReplaceAll s old new = take k s @ new @ ReplaceAll t old new"
    proof -
      have "j \<le> k \<Longrightarrow> ReplaceAll (drop (k - j) s) old new
          = take j (drop (k - j) s) @ new @ ReplaceAll t old new" for j
      proof (induction j)
        case 0
        with t k assms(1) show ?case by (simp add: ReplaceAll_prefix)
      next
        case (Suc j)
        then have "\<not> HasPrefix (drop (k - Suc j) s) old" using min by simp
        moreover have "drop (k - Suc j) s = s ! (k - Suc j) # drop (k - j) s"
          using Suc.prems klen by (metis Cons_nth_drop_Suc Suc_diff_Suc Suc_le_lessD diff_le_self le_less_trans)
        ultimately show ?case using Suc assms(1) by (simp add: ReplaceAll_skip)
      qed
      from this [of k] show ?thesis by simp
    qed
    moreover have "Valid (take k s) \<and> Valid t"
    proof -
      obtain c os where os: "old = c # os" using assms(1) by (cases old) auto
      have s: "s = take k s @ c # (os @ t)" using t os by (metis append_Cons append_take_drop_id)
      with less.prems assms(2) os have v: "Valid (take k s)" "Valid (os @ t)"
        by (metis Valid_around_ascii list.set_intros(1))+
      moreover have "Valid os" using assms(2) os by (intro Valid_ascii) auto
      ultimately show ?thesis using Valid_drop_prefix by blast
    qed
    moreover have "length t < length s" using t assms(1)
      by (metis add_diff_cancel_left' diff_le_self klen length_append length_drop
          less_le_trans linorder_not_less not_add_less2 add.commute length_greater_0_conv
          less_add_same_cancel2 order_less_le_trans)
    ultimately show ?thesis using less assms(3) by (metis Valid_append)
  next
    case False
    with less show ?thesis by (simp add: ReplaceAll_no)
  qed
qed

lemma Valid_collapse: "Valid s \<Longrightarrow> Valid (collapseBlankLines s)"
proof -
  have "Valid [LF, LF]" by (rule Valid_ascii) auto
  then have step: "Valid (ReplaceAll s [LF, LF, LF] [LF, LF])" if "Valid s" for s
    using that by (intro Valid_ReplaceAll_ascii) simp_all
  show "Valid s \<Longrightarrow> Valid (collapseBlankLines s)"
    using collapse_induct [of Valid s] step by blast
qed

lemma Valid_trimTrailing: "Valid s \<Longrightarrow> Valid (trimTrailingPerLine s)"
  unfolding trimTrailingPerLine_def TrimRight_def
  by (intro Valid_Join ballI)
    (auto intro!: Valid_dropWhileEnd intro: Valid_splitOn [of s LF] Valid_ascii)

lemma Valid_compress_text: "Valid s \<Longrightarrow> Valid (compress_text s)"
proof -
  assume "Valid s"
  moreover have "Valid [LF]" by (rule Valid_ascii) simp
  ultimately have "Valid (ReplaceAll (ReplaceAll s [CR, LF] [LF]) [CR] [LF])"
    by (intro Valid_ReplaceAll_ascii) auto
  then have "Valid (collapseBlankLines (trimTrailingPerLine
      (ReplaceAll (ReplaceAll s [CR, LF] [LF]) [CR] [LF])))"
    by (intro Valid_collapse Valid_trimTrailing)
  then show ?thesis
    by (auto simp: compress_text_def Let_def trimEmptyEdges_def
        intro!: Valid_dropWhileEnd Valid_dropWhile)
qed

text \<open>Compressing a node's content reaches a normal form: no carriage return, no blank at a
  line's end, no two blank lines in a row, no line feed at either edge. It touches no other
  field, leaves content already in that form alone (so it is idempotent), and keeps UTF-8
  validity.\<close>

theorem compress_normal_form:
  "compressed (Content (compress n))
   \<and> compress n = n\<lparr>Content := Content (compress n)\<rparr>
   \<and> compress (compress n) = compress n
   \<and> (Valid (Content n) \<longrightarrow> Valid (Content (compress n)))"
  by (simp add: compress_def compressed_compress_text compress_text_id Valid_compress_text)

theorem compress_normal_form_witness:
  "Valid (Content (compress (zero_data\<lparr>Content := [CHR ''a'', SP, CR, LF, LF, LF, LF, CHR ''b'', LF]\<rparr>)))
   \<and> Content (compress (zero_data\<lparr>Content := [CHR ''a'', SP, CR, LF, LF, LF, LF, CHR ''b'', LF]\<rparr>))
     = [CHR ''a'', LF, LF, CHR ''b'']"
proof -
  have "Valid [CHR ''a'', SP, CR, LF, LF, LF, LF, CHR ''b'', LF]" by (rule Valid_ascii) auto
  then have "Valid (Content (compress (zero_data\<lparr>Content := [CHR ''a'', SP, CR, LF, LF, LF, LF, CHR ''b'', LF]\<rparr>)))"
    using compress_normal_form [of "zero_data\<lparr>Content := [CHR ''a'', SP, CR, LF, LF, LF, LF, CHR ''b'', LF]\<rparr>"]
    by simp
  moreover have "compress_text [CHR ''a'', SP, CR, LF, LF, LF, LF, CHR ''b'', LF] = [CHR ''a'', LF, LF, CHR ''b'']"
    by code_simp
  ultimately show ?thesis by (simp add: compress_def)
qed

end
