(* ===== verification/Labels.thy ===== *)
theory Labels
  imports Compress
begin

text \<open>
  The package \<open>pkg/transformer\<close>, file \<open>label.go\<close>: the label of a node, by node type.
  The bound shown is the one the database column and the tree views rely on: no label is longer
  than \<open>maxLabelLen\<close> bytes, and cutting never breaks a rune.
\<close>

definition maxLabelLen :: nat where "maxLabelLen = 80"
definition codeLabelLines :: nat where "codeLabelLines = 3"
definition kvLabelKeys :: nat where "kvLabelKeys = 3"
definition ellipsis :: string where "ellipsis = ''...''"

text \<open>\<open>max\<close> is at least the length of the ellipsis in every call of the program.\<close>

definition truncate :: "string \<Rightarrow> nat \<Rightarrow> string" where
  "truncate s mx =
     (if length s \<le> mx then s
      else take (back_to_rune s (mx - length ellipsis)) s @ ellipsis)"

text \<open>The \<open>range\<close> loop of \<open>firstSentence\<close> over the rest of the string, \<open>i\<close> bytes in: the end
  of the first sentence, if one ends.\<close>

definition sentence_end :: "string \<Rightarrow> bool" where
  "sentence_end s = (s \<noteq> [] \<and> hd s \<in> set ''.!?'' \<and> (tl s = [] \<or> hd (tl s) = SP \<or> hd (tl s) = LF))"

function firstSentence_loop :: "string \<Rightarrow> nat \<Rightarrow> nat option" where
  "firstSentence_loop s i =
     (if s = [] then None
      else if sentence_end s then Some (i + 1)
      else firstSentence_loop (drop (range_width s) s) (i + range_width s))"
  by pat_completeness auto
termination
  by (relation "measure (\<lambda>(s, i). length s)")
    (auto simp: range_width_def dest: rune_len_pos split: option.splits)

declare firstSentence_loop.simps [simp del]

definition firstSentence :: "string \<Rightarrow> nat \<Rightarrow> string" where
  "firstSentence s mx =
     (case firstSentence_loop s 0 of
        Some e \<Rightarrow> truncate (take e s) mx
      | None \<Rightarrow> truncate s mx)"

fun labelList_loop :: "string list \<Rightarrow> nat \<Rightarrow> string \<Rightarrow> nat \<times> string" where
  "labelList_loop [] count first = (count, first)"
| "labelList_loop (l # ls) count first =
     (let trimmed = TrimSpace l in
      if \<not> HasPrefix trimmed ''- '' then labelList_loop ls count first
      else labelList_loop ls (count + 1) (if first = [] then TrimPrefix trimmed ''- '' else first))"

definition labelList :: "node_data \<Rightarrow> string" where
  "labelList n =
     (let plain =
        (let (count, first) = labelList_loop (splitOn LF (Content n)) 0 []
         in if count = 0 then truncate (Content n) maxLabelLen
            else truncate (itoa_nat count @ ''-item list: '' @ first) maxLabelLen)
      in if Format n = FormatToon then
           (case IndexByte (Content n) (CHR '':'') of
              Some idx \<Rightarrow> truncate (take idx (Content n)) maxLabelLen
            | None \<Rightarrow> plain)
         else plain)"

definition labelTable :: "node_data \<Rightarrow> string" where
  "labelTable n =
     (let lines = splitOn LF (Content n)
      in case lines of [] \<Rightarrow> ''Table''
         | l0 # rest \<Rightarrow>
             (let cols = Join (splitOn TAB l0) '', '';
                  rows = length lines - 1;
                  label = ''Table: '' @ cols @ '' ('' @ itoa_nat rows @ '' rows)''
              in truncate label maxLabelLen))"

definition labelCode :: "node_data \<Rightarrow> string" where
  "labelCode n =
     (let lines = SplitN LF codeLabelLines (Content n)
      in case lines of [] \<Rightarrow> ''Code''
         | l0 # rest \<Rightarrow>
             (let first = TrimSpace l0;
                  isLang = (0 < length first \<and> length first < maxLabelLen \<and> \<not> ContainsStr first [SP])
              in if isLang \<and> length lines > 1
                 then truncate (''Code ('' @ first @ ''): '' @ TrimSpace (hd rest)) maxLabelLen
                 else truncate (''Code: '' @ first) maxLabelLen))"

fun extractTopKeys_loop :: "string list \<Rightarrow> nat \<Rightarrow> string list \<Rightarrow> string list" where
  "extractTopKeys_loop [] limit keys = keys"
| "extractTopKeys_loop (l # ls) limit keys =
     (if length l = 0 \<or> hd l = SP \<or> hd l = TAB then extractTopKeys_loop ls limit keys
      else (case IndexByte l (CHR '':'') of
              None \<Rightarrow> extractTopKeys_loop ls limit keys
            | Some idx \<Rightarrow>
                (if idx = 0 then extractTopKeys_loop ls limit keys
                 else (let keys' = keys @ [take idx l]
                       in if 0 < limit \<and> limit \<le> length keys' then keys'
                          else extractTopKeys_loop ls limit keys'))))"

definition extractTopKeys :: "string \<Rightarrow> nat \<Rightarrow> string list" where
  "extractTopKeys content limit = extractTopKeys_loop (splitOn LF content) limit []"

definition labelKV :: "node_data \<Rightarrow> string" where
  "labelKV n =
     (let keys = extractTopKeys (Content n) kvLabelKeys
      in if length keys = 0 then truncate (Content n) maxLabelLen
         else truncate (Join keys '', '') maxLabelLen)"

definition labelPreamble :: "node_data \<Rightarrow> string" where
  "labelPreamble n =
     (let keys = extractTopKeys (Content n) 0
      in if length keys = 0 then ''Preamble''
         else truncate (''Preamble: '' @ Join keys '', '') maxLabelLen)"

definition label_of :: "node_data \<Rightarrow> string" where
  "label_of n =
     (if Kind n = NodeHeading then truncate (Content n) maxLabelLen
      else if Kind n = NodeList then labelList n
      else if Kind n = NodeTable then labelTable n
      else if Kind n = NodeCode then labelCode n
      else if Kind n = NodeText then firstSentence (Content n) maxLabelLen
      else if Kind n = NodeKV then labelKV n
      else if Kind n = NodePreamble then labelPreamble n
      else truncate (Content n) maxLabelLen)"

definition setLabel :: "node_data \<Rightarrow> node_data" where
  "setLabel n = n\<lparr>Label := label_of n\<rparr>"

section \<open>Length\<close>

lemma truncate_length: "length ellipsis \<le> mx \<Longrightarrow> length (truncate s mx) \<le> mx"
  using back_to_rune_le [of s "mx - length ellipsis"] by (auto simp: truncate_def)

lemma truncate_80 [simp]: "length (truncate s maxLabelLen) \<le> 80"
  using truncate_length [of 80 s] by (simp add: maxLabelLen_def ellipsis_def)

lemma labelList_length: "length (labelList n) \<le> 80"
  by (simp add: labelList_def Let_def split: option.split prod.split)

lemma labelTable_length: "length (labelTable n) \<le> 80"
  by (simp add: labelTable_def Let_def split: list.split)

lemma labelCode_length: "length (labelCode n) \<le> 80"
  by (simp add: labelCode_def Let_def split: list.split)

lemma labelKeys_length: "length (labelKV n) \<le> 80" "length (labelPreamble n) \<le> 80"
  by (simp_all add: labelKV_def labelPreamble_def Let_def)

lemma firstSentence_length: "length (firstSentence s maxLabelLen) \<le> 80"
  by (simp add: firstSentence_def split: option.split)

lemma label_of_length: "length (label_of n) \<le> 80"
  by (simp add: label_of_def labelList_length labelTable_length labelCode_length labelKeys_length
      firstSentence_length)

section \<open>UTF-8 validity\<close>

lemma Valid_truncate: "Valid s \<Longrightarrow> length ellipsis \<le> mx \<Longrightarrow> Valid (truncate s mx)"
proof -
  assume v: "Valid s" and "length ellipsis \<le> mx"
  have "Valid ellipsis" by (rule Valid_ascii) (simp add: ellipsis_def)
  moreover have "Valid (take (back_to_rune s (mx - length ellipsis)) s)" if "mx < length s"
    using v that by (intro Valid_back_to_rune) auto
  ultimately show ?thesis using v by (auto simp: truncate_def intro: Valid_append)
qed

lemma Valid_truncate_80: "Valid s \<Longrightarrow> Valid (truncate s maxLabelLen)"
  by (rule Valid_truncate) (simp_all add: maxLabelLen_def ellipsis_def)

lemma Valid_before_ascii: "Valid s \<Longrightarrow> i < length s \<Longrightarrow> (of_char (s ! i) :: nat) < 128 \<Longrightarrow> Valid (take i s)"
  by (intro Valid_take) (auto intro: RuneStart_ascii)

lemma Valid_after_ascii: "Valid s \<Longrightarrow> i < length s \<Longrightarrow> (of_char (s ! i) :: nat) < 128 \<Longrightarrow> Valid (drop (Suc i) s)"
proof -
  assume a: "Valid s" "i < length s" "(of_char (s ! i) :: nat) < 128"
  then have "Valid (take i s @ s ! i # drop (Suc i) s)" by (simp add: id_take_nth_drop [symmetric])
  with a(3) show ?thesis by (simp add: Valid_around_ascii)
qed

lemma rune_len_space2: "space2 a b \<Longrightarrow> rune_len (a # b # s) = Some 2"
  by (auto simp: space2_def rune_len_Cons_iff lead_width_def tail_ok_def second_ok_def byte_in_def)

lemma space3_cont: "space3 a b c \<Longrightarrow> cont_byte c"
  by (auto simp: space3_def cont_byte_def less_eq_char_def)

lemma space3_bytes:
  "space3 a b c \<Longrightarrow> (of_char a, of_char b) \<in> {(225 :: nat, 154 :: nat), (226, 128), (226, 129), (227, 128)}"
  by (auto simp: space3_def)

lemma rune_len_space3: "space3 a b c \<Longrightarrow> rune_len (a # b # c # s) = Some 3"
  using space3_cont [of a b c] space3_bytes [of a b c]
  by (auto simp: rune_len_Cons_iff lead_width_def tail_ok_def second_ok_def byte_in_def)

lemma ascii_space_ascii: "ascii_space c \<Longrightarrow> (of_char c :: nat) < 128"
  by (auto simp: ascii_space_def)

lemma Valid_trim_left: "Valid s \<Longrightarrow> Valid (trim_left s)"
proof (induction s rule: trim_left.induct)
  case (1 a b c s)
  then show ?case
    using Valid_step [OF rune_len_space2 [of a b "c # s"]] Valid_step [OF rune_len_space3 [of a b c s]]
    by (auto simp: Valid_ascii_Cons ascii_space_ascii)
next
  case (2 a b)
  then show ?case by (auto simp: Valid_ascii_Cons ascii_space_ascii)
qed auto

lemma space_lead: "space2 a b \<Longrightarrow> RuneStart a" "space3 a b c \<Longrightarrow> RuneStart a"
  by (auto simp: space2_def space3_def RuneStart_def cont_byte_def)

lemma Valid_cut: "Valid (s @ a # t) \<Longrightarrow> RuneStart a \<Longrightarrow> Valid s"
  using Valid_take [of "s @ a # t" "length s"] by simp

lemma Valid_trim_right_rev: "Valid (rev s) \<Longrightarrow> Valid (rev (trim_right_rev s))"
proof (induction s rule: trim_right_rev.induct)
  case (1 c b a s)
  consider "ascii_space c" | (two) "\<not> ascii_space c" "space2 b c"
    | (three) "\<not> ascii_space c" "\<not> space2 b c" "space3 a b c"
    | "\<not> ascii_space c" "\<not> space2 b c" "\<not> space3 a b c" by blast
  then show ?case
  proof cases
    case 1
    then show ?thesis using "1.IH" "1.prems" Valid_snoc_ascii [OF ascii_space_ascii, of c "rev (b # a # s)"]
      by simp
  next
    case two
    with "1.prems" have "Valid (rev (a # s))"
      using Valid_cut [of "rev (a # s)" b "[c]"] space_lead by simp
    with two "1.IH" show ?thesis by simp
  next
    case three
    with "1.prems" have "Valid (rev s)" using Valid_cut [of "rev s" a "[b, c]"] space_lead by simp
    with three "1.IH" show ?thesis by simp
  qed (use 1 in simp)
next
  case (2 b a)
  then show ?case using Valid_snoc_ascii [OF ascii_space_ascii, of b "[a]"] by (auto split: if_splits)
qed auto

lemma Valid_TrimSpace: "Valid s \<Longrightarrow> Valid (TrimSpace s)"
  unfolding TrimSpace_def by (intro Valid_trim_right_rev) (simp add: Valid_trim_left)

lemma Valid_TrimPrefix_ascii: "Valid s \<Longrightarrow> \<forall>c \<in> set p. (of_char c :: nat) < 128 \<Longrightarrow> Valid (TrimPrefix s p)"
  by (auto simp: TrimPrefix_def HasPrefix_iff intro: Valid_drop_prefix Valid_ascii)

lemma Valid_itoa_nat: "Valid (itoa_nat n)"
  by (rule Valid_ascii) (auto dest: itoa_nat_digits simp: of_char_digit)

lemma Valid_lit: "list_all (\<lambda>c. (of_char c :: nat) < 128) s \<Longrightarrow> Valid s"
  by (rule Valid_ascii) (simp add: list_all_iff)

lemma Valid_SplitN: "Valid s \<Longrightarrow> (of_char c :: nat) < 128 \<Longrightarrow> l \<in> set (SplitN c n s) \<Longrightarrow> Valid l"
proof (induction c n s rule: SplitN.induct)
  case (3 c n s)
  show ?case
  proof (cases "IndexByte s c")
    case None
    with 3 show ?thesis by simp
  next
    case (Some i)
    then have i: "i < length s" "s ! i = c" by (auto dest: IndexByte_SomeD)
    with 3 have "Valid (take i s)" "Valid (drop (Suc i) s)"
      by (simp_all add: Valid_before_ascii Valid_after_ascii)
    with 3 Some show ?thesis by auto
  qed
qed auto

lemma Valid_IndexByte_take:
  "Valid s \<Longrightarrow> (of_char c :: nat) < 128 \<Longrightarrow> IndexByte s c = Some i \<Longrightarrow> Valid (take i s)"
  using IndexByte_SomeD [of s c i] by (intro Valid_before_ascii) auto

lemma Valid_labelList_loop:
  "\<forall>l \<in> set ls. Valid l \<Longrightarrow> Valid first \<Longrightarrow> Valid (snd (labelList_loop ls count first))"
proof (induction ls count first rule: labelList_loop.induct)
  case (2 l ls count first)
  have "Valid (TrimPrefix (TrimSpace l) ''- '')"
    using "2.prems" by (intro Valid_TrimPrefix_ascii Valid_TrimSpace) auto
  with 2 show ?case by (simp add: Let_def)
qed simp

lemma Valid_extractTopKeys_loop:
  "\<forall>l \<in> set ls. Valid l \<Longrightarrow> \<forall>k \<in> set keys. Valid k \<Longrightarrow> k \<in> set (extractTopKeys_loop ls limit keys) \<Longrightarrow> Valid k"
proof (induction ls limit keys rule: extractTopKeys_loop.induct)
  case (2 l ls limit keys)
  have "Valid (take idx l)" if "IndexByte l (CHR '':'') = Some idx" for idx
    using that "2.prems"(1) by (intro Valid_IndexByte_take [of l "CHR '':''"]) auto
  with 2 show ?case by (auto simp: Let_def split: if_splits option.splits)
qed simp

lemma Valid_extractTopKeys: "Valid s \<Longrightarrow> k \<in> set (extractTopKeys s limit) \<Longrightarrow> Valid k"
  unfolding extractTopKeys_def
  by (rule Valid_extractTopKeys_loop [of "splitOn LF s" "[]"]) (auto intro: Valid_splitOn [of s LF])

text \<open>The sentence cut falls after an ASCII byte at a rune boundary.\<close>

lemma firstSentence_loop_valid:
  "Valid s \<Longrightarrow> firstSentence_loop s i = Some e \<Longrightarrow> i \<le> e \<and> Valid (take (e - i) s)"
proof (induction s i rule: firstSentence_loop.induct)
  case (1 s i)
  from "1.prems" have ne: "s \<noteq> []" by (auto simp: firstSentence_loop.simps [of s])
  show ?case
  proof (cases "sentence_end s")
    case True
    with "1.prems" ne have "e = i + 1" by (simp add: firstSentence_loop.simps [of s])
    moreover have "Valid (take 1 s)"
      using True by (cases s) (auto simp: sentence_end_def Valid_ascii_Cons)
    ultimately show ?thesis by simp
  next
    case False
    obtain n where n: "rune_len s = Some n" "Valid (drop n s)" using "1.prems" ne Valid_rune by blast
    then have w: "range_width s = n" by (simp add: range_width_def)
    with "1.prems" ne False have "firstSentence_loop (drop n s) (i + n) = Some e"
      by (simp add: firstSentence_loop.simps [of s])
    with 1 ne False n w have IH: "i + n \<le> e" "Valid (take (e - (i + n)) (drop n s))" by auto
    then have "Valid (drop n (take (e - i) s))" by (simp add: drop_take)
    then show ?thesis using Valid_step [OF rune_len_take [OF n(1), of "e - i"]] IH(1) by auto
  qed
qed

lemma Valid_firstSentence: "Valid s \<Longrightarrow> Valid (firstSentence s maxLabelLen)"
  using firstSentence_loop_valid [of s 0]
  by (auto simp: firstSentence_def Valid_truncate_80 split: option.splits)

lemma Valid_labelList: "Valid (Content n) \<Longrightarrow> Valid (labelList n)"
proof -
  assume v: "Valid (Content n)"
  obtain count first where cf: "labelList_loop (splitOn LF (Content n)) 0 [] = (count, first)"
    by fastforce
  have "Valid first"
    using Valid_labelList_loop [of "splitOn LF (Content n)" "[]" 0] v cf
    by (simp add: Valid_splitOn [of "Content n" LF])
  then have "Valid (itoa_nat count @ ''-item list: '' @ first)"
    by (simp add: Valid_ascii_Cons Valid_around_ascii Valid_itoa_nat)
  then show ?thesis
    using v Valid_IndexByte_take [OF v, of "CHR '':''"]
    by (auto simp: labelList_def cf Let_def Valid_truncate_80 split: option.splits)
qed

lemma Valid_labelTable: "Valid (Content n) \<Longrightarrow> Valid (labelTable n)"
proof -
  assume v: "Valid (Content n)"
  obtain l0 rest where l: "splitOn LF (Content n) = l0 # rest" by (cases "splitOn LF (Content n)") auto
  then have "Valid l0" using Valid_splitOn [OF v, of LF l0] by simp
  then have "Valid (''Table: '' @ Join (splitOn TAB l0) '', '' @ '' ('' @ itoa_nat (length rest) @ '' rows)'')"
    by (simp add: Valid_ascii_Cons Valid_around_ascii Valid_itoa_nat Valid_Join Valid_splitOn [of l0 TAB])
  with l show ?thesis by (simp add: labelTable_def Let_def Valid_truncate_80)
qed

lemma Valid_labelCode: "Valid (Content n) \<Longrightarrow> Valid (labelCode n)"
proof -
  assume v: "Valid (Content n)"
  have all: "l \<in> set (SplitN LF codeLabelLines (Content n)) \<Longrightarrow> Valid l" for l
    by (rule Valid_SplitN [OF v]) auto
  have parts: "Valid (''Code ('' @ TrimSpace a @ ''): '' @ TrimSpace b)" "Valid (''Code: '' @ TrimSpace a)"
    if "Valid a" "Valid b" for a b
    using that by (simp_all add: Valid_ascii_Cons Valid_around_ascii Valid_TrimSpace)
  have code: "Valid ''Code''" by (rule Valid_lit) simp
  show ?thesis
  proof (cases "SplitN LF codeLabelLines (Content n)")
    case (Cons l0 rest)
    with all have "Valid l0" "rest \<noteq> [] \<Longrightarrow> Valid (hd rest)" by auto
    with Cons show ?thesis using parts [of l0 "hd rest"] parts(2) [of l0 l0]
      unfolding labelCode_def by (auto simp: Let_def intro!: Valid_truncate_80 simp del: append.simps)
  qed (use code in \<open>simp add: labelCode_def\<close>)
qed

lemma Valid_labelKeys:
  assumes "Valid (Content n)"
  shows "Valid (labelKV n)" "Valid (labelPreamble n)"
proof -
  have j: "Valid (Join (extractTopKeys (Content n) k) '', '')" for k
    using Valid_Join [of "extractTopKeys (Content n) k" "'', ''"] Valid_extractTopKeys [OF assms]
    by (simp add: Valid_lit)
  then have "Valid (''Preamble: '' @ Join (extractTopKeys (Content n) 0) '', '')"
    by (simp add: Valid_ascii_Cons)
  moreover have "Valid ''Preamble''" by (rule Valid_lit) simp
  ultimately show "Valid (labelKV n)" "Valid (labelPreamble n)"
    using j assms by (simp_all add: labelKV_def labelPreamble_def Let_def Valid_truncate_80)
qed

lemmas label_validity = Valid_truncate_80 Valid_labelList Valid_labelTable Valid_labelCode
  Valid_firstSentence Valid_labelKeys

text \<open>Whatever the node type and content, the label is at most 80 bytes, well within the
  120 bytes of the database column, and labelling changes nothing else; where the content is
  valid UTF-8 the label is too, so no cut falls inside a rune.\<close>

theorem label_bounded_and_valid:
  "length (Label (setLabel n)) \<le> maxLabelLen \<and> setLabel n = n\<lparr>Label := Label (setLabel n)\<rparr>
   \<and> (Valid (Content n) \<longrightarrow> Valid (Label (setLabel n)))"
  using label_of_length [of n]
  by (auto simp: setLabel_def maxLabelLen_def label_of_def label_validity [unfolded maxLabelLen_def])

theorem label_bounded_and_valid_witness:
  "Valid (Label (setLabel (zero_data\<lparr>Kind := NodeText, Content := ''Hi. You''\<rparr>)))
   \<and> Label (setLabel (zero_data\<lparr>Kind := NodeText, Content := ''Hi. You''\<rparr>)) = ''Hi.''"
proof -
  have "Valid ''Hi. You''" by (rule Valid_lit) simp
  then have "Valid (Label (setLabel (zero_data\<lparr>Kind := NodeText, Content := ''Hi. You''\<rparr>)))"
    using label_bounded_and_valid [of "zero_data\<lparr>Kind := NodeText, Content := ''Hi. You''\<rparr>"] by simp
  moreover have "firstSentence ''Hi. You'' maxLabelLen = ''Hi.''" by code_simp
  ultimately show ?thesis by (simp add: setLabel_def label_of_def node_type_defs)
qed

end
