(* ===== verification/Paths.thy ===== *)
theory Paths
  imports Ast
begin

text \<open>
  The package \<open>pkg/transformer\<close>, file \<open>prefix.go\<close>: stripping the compile root, or the
  longest common directory, from the source paths so that hashed paths do not depend on where the
  corpus sits. The model is of the Unix builds, where \<open>filepath.Separator\<close> is the slash and
  \<open>filepath\<close> and \<open>path\<close> agree; \<open>Clean\<close> and \<open>Dir\<close> are the standard library's.
\<close>

definition osSeparator :: string where "osSeparator = ''/''"

text \<open>\<open>path.Clean\<close>: lexical, element by element; the stack holds the elements kept so far, the
  last one first.\<close>

definition clean_step :: "bool \<Rightarrow> string list \<Rightarrow> string \<Rightarrow> string list" where
  "clean_step rooted stack seg =
     (if seg = [] \<or> seg = ''.'' then stack
      else if seg = ''..'' then
        (case stack of
           t # ts \<Rightarrow> if t = ''..'' then ''..'' # stack else ts
         | [] \<Rightarrow> if rooted then [] else [''..''])
      else seg # stack)"

definition Clean :: "string \<Rightarrow> string" where
  "Clean p =
     (if p = [] then ''.''
      else let rooted = (hd p = CHR ''/'');
               out = Join (rev (foldl (clean_step rooted) [] (splitOn (CHR ''/'') p))) ''/''
           in if rooted then CHR ''/'' # out else if out = [] then ''.'' else out)"

text \<open>\<open>path.Dir\<close>: everything up to the last slash, cleaned.\<close>

definition Dir :: "string \<Rightarrow> string" where
  "Dir p = Clean (rev (dropWhile (\<lambda>c. c \<noteq> CHR ''/'') (rev p)))"

definition pathSeparator :: "string \<Rightarrow> string" where
  "pathSeparator p =
     (if ContainsStr p ''/'' \<and> \<not> ContainsStr p [BSL] then ''/'' else osSeparator)"

definition cleanPath :: "string \<Rightarrow> string" where
  "cleanPath p = (if pathSeparator p = ''/'' then Clean p else Clean p)"

definition dirPath :: "string \<Rightarrow> string" where
  "dirPath p = (if pathSeparator p = ''/'' then Dir p else Dir p)"

definition splitPath :: "string \<Rightarrow> string \<Rightarrow> string list" where
  "splitPath p sepr = (let p = cleanPath p in if p = ''.'' then [] else splitOn (hd sepr) p)"

fun commonParts :: "string list \<Rightarrow> string list \<Rightarrow> string list" where
  "commonParts (a # as) (b # bs) = (if a = b then a # commonParts as bs else [])"
| "commonParts _ _ = []"

fun commonDirPrefix_loop :: "string \<Rightarrow> string list \<Rightarrow> node_data list \<Rightarrow> string list option" where
  \<comment> \<open>None where the code returns the empty string from inside the loop\<close>
  "commonDirPrefix_loop sepr parts [] = Some parts"
| "commonDirPrefix_loop sepr parts (n # ns) =
     (if pathSeparator (SourceFile n) \<noteq> sepr then None
      else (let parts' = commonParts parts (splitPath (dirPath (SourceFile n)) sepr)
            in if parts' = [] then None else commonDirPrefix_loop sepr parts' ns))"

definition commonDirPrefix :: "node_data list \<Rightarrow> string" where
  "commonDirPrefix nodes =
     (let sepr = pathSeparator (SourceFile (hd nodes));
          parts = splitPath (dirPath (SourceFile (hd nodes))) sepr
      in case commonDirPrefix_loop sepr parts (tl nodes) of
           None \<Rightarrow> []
         | Some parts \<Rightarrow>
             (let result = Join parts sepr
              in if result = [] \<or> result = ''.'' \<or> result = ''/'' \<or> result = [BSL] then []
                 else result @ sepr))"

definition prefix_to_strip :: "node_data list \<Rightarrow> string \<Rightarrow> string" where
  "prefix_to_strip nodes compileRoot =
     (if compileRoot \<noteq> [] then
        (let sepr = pathSeparator compileRoot; prefix = cleanPath compileRoot
         in if HasSuffix prefix sepr then prefix else prefix @ sepr)
      else commonDirPrefix nodes)"

definition compressPrefix :: "ContextNode list \<Rightarrow> string \<Rightarrow> ContextNode list" where
  "compressPrefix roots compileRoot =
     (if roots = [] then roots
      else let prefix = prefix_to_strip (flat_data roots) compileRoot
           in if prefix = [] then roots
              else map_nodes (\<lambda>n. n\<lparr>SourceFile := TrimPrefix (SourceFile n) prefix\<rparr>) roots)"

section \<open>Clean\<close>

definition clean_segs :: "bool \<Rightarrow> string list \<Rightarrow> bool" where
  \<comment> \<open>a stack the loop can build: no empty element, no dot, dot-dot only at the bottom\<close>
  "clean_segs rooted st \<longleftrightarrow>
     (\<forall>x \<in> set st. x \<noteq> [] \<and> x \<noteq> ''.'' \<and> CHR ''/'' \<notin> set x)
     \<and> (\<exists>xs ys. st = xs @ ys \<and> ''..'' \<notin> set xs \<and> set ys \<subseteq> {''..''} \<and> (rooted \<longrightarrow> ys = []))"

lemma clean_segs_Nil [simp]: "clean_segs r []"
  by (simp add: clean_segs_def)

lemma clean_segs_push: "clean_segs r st \<Longrightarrow> x \<noteq> [] \<Longrightarrow> x \<noteq> ''.'' \<Longrightarrow> CHR ''/'' \<notin> set x \<Longrightarrow> x \<noteq> ''..'' \<Longrightarrow> clean_segs r (x # st)"
  unfolding clean_segs_def
  by (elim conjE exE, intro conjI, simp) (metis append_Cons set_ConsD)

lemma clean_segs_tl: "clean_segs r (t # ts) \<Longrightarrow> clean_segs r ts"
proof -
  assume a: "clean_segs r (t # ts)"
  then obtain xs ys where xy: "t # ts = xs @ ys" "''..'' \<notin> set xs" "set ys \<subseteq> {''..''}" "r \<longrightarrow> ys = []"
    by (auto simp: clean_segs_def)
  have "\<exists>xs ys. ts = xs @ ys \<and> ''..'' \<notin> set xs \<and> set ys \<subseteq> {''..''} \<and> (r \<longrightarrow> ys = [])"
  proof (cases xs)
    case Nil
    with xy have "ts = [] @ tl ys" "set (tl ys) \<subseteq> {''..''}" "r \<longrightarrow> tl ys = []"
      by (auto dest: list.set_sel(2) simp: neq_Nil_conv Cons_eq_append_conv)
    then show ?thesis by (metis empty_iff empty_set)
  next
    case (Cons x xs')
    with xy have "ts = xs' @ ys" "''..'' \<notin> set xs'" by auto
    with xy show ?thesis by blast
  qed
  with a show ?thesis by (simp add: clean_segs_def)
qed

lemma clean_segs_dots: "clean_segs r (''..'' # ts) \<Longrightarrow> clean_segs r (''..'' # ''..'' # ts)"
proof -
  assume a: "clean_segs r (''..'' # ts)"
  then obtain xs ys where xy: "''..'' # ts = xs @ ys" "''..'' \<notin> set xs" "set ys \<subseteq> {''..''}" "r \<longrightarrow> ys = []"
    by (auto simp: clean_segs_def)
  then have "xs = []" by (cases xs) auto
  with xy have "set (''..'' # ''..'' # ts) \<subseteq> {''..''}" "\<not> r" by auto
  then show ?thesis unfolding clean_segs_def
    by (intro conjI ballI exI [of _ "[]"] exI [of _ "''..'' # ''..'' # ts"]) auto
qed

lemma clean_segs_step: "clean_segs r st \<Longrightarrow> CHR ''/'' \<notin> set seg \<Longrightarrow> clean_segs r (clean_step r st seg)"
proof -
  assume a: "clean_segs r st" "CHR ''/'' \<notin> set seg"
  have "clean_segs False [''..'']"
    unfolding clean_segs_def by (intro conjI exI [of _ "[]"] exI [of _ "[''..'']"]) auto
  with a show ?thesis
    by (auto simp: clean_step_def clean_segs_push clean_segs_dots dest: clean_segs_tl split: list.splits)
qed

lemma clean_segs_foldl:
  "clean_segs r st \<Longrightarrow> \<forall>x \<in> set segs. CHR ''/'' \<notin> set x \<Longrightarrow> clean_segs r (foldl (clean_step r) st segs)"
  by (induction segs arbitrary: st) (auto simp: clean_segs_step)

text \<open>Running the loop over a clean stack reproduces it.\<close>

lemma clean_step_push:
  "x \<noteq> [] \<Longrightarrow> x \<noteq> ''.'' \<Longrightarrow> x \<noteq> ''..'' \<or> (\<not> r \<and> set st \<subseteq> {''..''}) \<Longrightarrow> clean_step r st x = x # st"
  by (cases st) (auto simp: clean_step_def)

lemma clean_segs_ConsD:
  assumes "clean_segs r (x # st)"
  shows "clean_segs r st \<and> x \<noteq> [] \<and> x \<noteq> ''.'' \<and> (x \<noteq> ''..'' \<or> (\<not> r \<and> set st \<subseteq> {''..''}))"
proof -
  from assms obtain xs ys where xy: "x # st = xs @ ys" "''..'' \<notin> set xs" "set ys \<subseteq> {''..''}" "r \<longrightarrow> ys = []"
    by (auto simp: clean_segs_def)
  have "x \<noteq> ''..'' \<or> (\<not> r \<and> set st \<subseteq> {''..''})" using xy by (cases xs) auto
  moreover have "x \<noteq> [] \<and> x \<noteq> ''.''" using assms by (simp add: clean_segs_def)
  ultimately show ?thesis using clean_segs_tl [OF assms] by blast
qed

lemma clean_reproduce: "clean_segs r st \<Longrightarrow> foldl (clean_step r) [] (rev st) = st"
proof (induction st)
  case (Cons x st)
  then have "foldl (clean_step r) [] (rev st) = st" using clean_segs_ConsD by blast
  with Cons.prems show ?case using clean_segs_ConsD [OF Cons.prems] by (simp add: clean_step_push)
qed simp

lemma Clean_form:
  assumes "p \<noteq> []"
  obtains st where "st = foldl (clean_step (hd p = CHR ''/'')) [] (splitOn (CHR ''/'') p)"
    "clean_segs (hd p = CHR ''/'') st"
    "Clean p = (if hd p = CHR ''/'' then CHR ''/'' # Join (rev st) ''/''
       else if Join (rev st) ''/'' = [] then ''.'' else Join (rev st) ''/'')"
proof -
  let ?st = "foldl (clean_step (hd p = CHR ''/'')) [] (splitOn (CHR ''/'') p)"
  have "clean_segs (hd p = CHR ''/'') ?st"
    by (intro clean_segs_foldl) (auto dest: splitOn_no_sep)
  with assms that show ?thesis by (simp add: Clean_def Let_def)
qed

lemma Join_nonempty: "x \<in> set xs \<Longrightarrow> x \<noteq> [] \<Longrightarrow> Join xs s \<noteq> []"
  by (induction xs s rule: Join.induct) auto

lemma last_Join: "xs \<noteq> [] \<Longrightarrow> last xs \<noteq> [] \<Longrightarrow> last (Join xs s) = last (last xs)"
proof (induction xs)
  case (Cons x xs)
  show ?case
  proof (cases "xs = []")
    case False
    with Cons have "last (Join xs s) = last (last xs)" by simp
    moreover have "Join xs s \<noteq> []"
      using False Cons.prems(2) by (intro Join_nonempty [of "last xs"]) auto
    ultimately show ?thesis using False by (simp add: Join_Cons)
  qed simp
qed simp

lemma Clean_no_trailing_slash:
  assumes "Clean p \<noteq> ''/''"
  shows "\<not> HasSuffix (Clean p) ''/''"
proof (cases "p = []")
  case False
  then obtain st where cs: "clean_segs (hd p = CHR ''/'') st"
    and C: "Clean p = (if hd p = CHR ''/'' then CHR ''/'' # Join (rev st) ''/''
       else if Join (rev st) ''/'' = [] then ''.'' else Join (rev st) ''/'')"
    by (rule Clean_form)
  have "last (Join (rev st) ''/'') \<noteq> CHR ''/''" if "st \<noteq> []"
  proof -
    from that obtain x xs where x: "st = x # xs" by (cases st) auto
    with cs have "x \<noteq> []" "CHR ''/'' \<notin> set x" by (auto simp: clean_segs_def)
    moreover from this have "last x \<noteq> CHR ''/''" by (metis last_in_set)
    ultimately show ?thesis using x last_Join [of "rev st" "''/''"] by auto
  qed
  with C assms show ?thesis by (cases "st = []") (auto split: if_splits)
qed (simp add: Clean_def)

lemma Clean_idem: "Clean (Clean p) = Clean p"
proof (cases "p = []")
  case True
  then show ?thesis by (simp add: Clean_def clean_step_def)
next
  case False
  let ?r = "hd p = CHR ''/''"
  from False obtain st where cs: "clean_segs ?r st"
    and C: "Clean p = (if ?r then CHR ''/'' # Join (rev st) ''/''
     else if Join (rev st) ''/'' = [] then ''.'' else Join (rev st) ''/'')"
    by (rule Clean_form)
  have split: "splitOn (CHR ''/'') (Join (rev st) ''/'') = rev st" if "st \<noteq> []"
    using that cs by (intro splitOn_Join) (auto simp: clean_segs_def)
  have one: "foldl (clean_step ?r) [] (splitOn (CHR ''/'') (Join (rev st) ''/'')) = st"
  proof (cases "st = []")
    case True
    then show ?thesis by (simp add: clean_step_def)
  next
    case False
    then show ?thesis using split clean_reproduce [OF cs] by simp
  qed
  have lead: "hd (Join (rev st) ''/'') \<noteq> CHR ''/''" if "Join (rev st) ''/'' \<noteq> []"
  proof -
    from that obtain x xs where x: "rev st = x # xs" by (cases "rev st") auto
    then have "x \<in> set st" by (metis list.set_intros(1) set_rev)
    with cs have "x \<noteq> []" "CHR ''/'' \<notin> set x" by (auto simp: clean_segs_def)
    with x show ?thesis by (cases x; cases xs) auto
  qed
  show ?thesis
  proof (cases ?r)
    case True
    with one show ?thesis unfolding C
      by (simp add: Clean_def Let_def clean_step_def [of True "[]" "[]"])
  next
    case False
    with one lead show ?thesis unfolding C
      by (auto simp: Clean_def Let_def clean_step_def)
  qed
qed

section \<open>Stripping the croot\<close>

lemma cleanPath_Clean [simp]: "cleanPath p = Clean p"
  by (simp add: cleanPath_def)

lemma pathSeparator_slash [simp]: "pathSeparator p = ''/''"
  by (simp add: pathSeparator_def osSeparator_def)

lemma prefix_to_strip_root:
  "croot \<noteq> [] \<Longrightarrow> prefix_to_strip ns croot = (if HasSuffix (Clean croot) ''/'' then Clean croot else Clean croot @ ''/'')"
  by (simp add: prefix_to_strip_def Let_def)

text \<open>C16: compiling under a root makes the stored paths relative to it: a file below the root
  gets exactly its path relative to the root, however the root was spelt (the spelling only
  counts after \<open>Clean\<close>), a file elsewhere keeps its path, and nothing but the path changes.\<close>

theorem compressPrefix_relative:
  assumes "croot \<noteq> []" "roots \<noteq> []" "Clean croot \<noteq> ''/''"
  shows "compressPrefix roots croot = compressPrefix roots (Clean croot)
    \<and> flat_data (compressPrefix roots croot)
        = map (\<lambda>n. n\<lparr>SourceFile := TrimPrefix (SourceFile n) (Clean croot @ ''/'')\<rparr>) (flat_data roots)
    \<and> (\<forall>n \<in> set (flat_data roots). \<forall>rel. SourceFile n = Clean croot @ ''/'' @ rel \<longrightarrow>
          n\<lparr>SourceFile := rel\<rparr> \<in> set (flat_data (compressPrefix roots croot)))"
proof -
  have ne: "Clean croot \<noteq> []" by (auto simp: Clean_def Let_def)
  have ns: "\<not> HasSuffix (Clean croot) ''/''" using assms(3) by (rule Clean_no_trailing_slash)
  have strip: "prefix_to_strip ms croot = Clean croot @ ''/''" "prefix_to_strip ms (Clean croot) = Clean croot @ ''/''" for ms
    using assms(1) ne ns by (simp_all add: prefix_to_strip_root Clean_idem)
  have flat: "flat_data (compressPrefix roots croot)
      = map (\<lambda>n. n\<lparr>SourceFile := TrimPrefix (SourceFile n) (Clean croot @ ''/'')\<rparr>) (flat_data roots)"
    using assms(2) by (simp add: compressPrefix_def strip Let_def flat_data_map_nodes)
  moreover have "compressPrefix roots croot = compressPrefix roots (Clean croot)"
    by (simp add: compressPrefix_def strip)
  moreover have "n\<lparr>SourceFile := rel\<rparr> \<in> set (flat_data (compressPrefix roots croot))"
    if "n \<in> set (flat_data roots)" "SourceFile n = Clean croot @ ''/'' @ rel" for n rel
  proof -
    have "TrimPrefix (SourceFile n) (Clean croot @ ''/'') = rel"
      using that(2) HasPrefix_append [of "Clean croot @ ''/''" rel] by (simp add: TrimPrefix_def)
    with that(1) show ?thesis unfolding flat by (auto simp: image_iff)
  qed
  ultimately show ?thesis by blast
qed

theorem compressPrefix_relative_witness:
  "compressPrefix [CNode (zero_data\<lparr>SourceFile := ''/v/a.md''\<rparr>) []] ''/v/''
     = [CNode (zero_data\<lparr>SourceFile := ''a.md''\<rparr>) []]"
proof -
  have c: "Clean ''/v/'' = ''/v''" by code_simp
  let ?n = "zero_data\<lparr>SourceFile := ''/v/a.md''\<rparr>"
  have "flat_data (compressPrefix [CNode ?n []] ''/v/'')
      = map (\<lambda>n. n\<lparr>SourceFile := TrimPrefix (SourceFile n) (Clean ''/v/'' @ ''/'')\<rparr>) (flat_data [CNode ?n []])"
    using compressPrefix_relative [of "''/v/''" "[CNode ?n []]"] unfolding c by blast
  then have "flat_data (compressPrefix [CNode ?n []] ''/v/'') = [zero_data\<lparr>SourceFile := ''a.md''\<rparr>]"
    by (simp add: c TrimPrefix_def HasPrefix_def)
  moreover have "length (compressPrefix [CNode ?n []] ''/v/'') = 1"
    by (simp add: compressPrefix_def Let_def)
  ultimately show ?thesis
    by (cases "compressPrefix [CNode ?n []] ''/v/''" rule: forest_size.cases) auto
qed

end
