(* ===== verification/Identity.thy ===== *)
theory Identity
  imports Compress Labels Paths
begin

text \<open>
  The package \<open>pkg/transformer\<close>: \<open>anchor.go\<close>, \<open>tokenest.go\<close> and
  \<open>transformer.go\<close>. A node's identifier is the hash of its file, its parent's identifier and
  its position among its siblings, so it stays the same when contents are edited. The uniqueness
  argument is done once for any identifier scheme (the locale \<open>id_scheme\<close>) and used for
  \<open>IdentifyNode\<close>.
\<close>

definition setContentHash :: "(string \<Rightarrow> 64 word) \<Rightarrow> node_data \<Rightarrow> node_data" where
  "setContentHash h n = n\<lparr>Hash := ContentHash h (Content n)\<rparr>"

definition setTokenCount :: "node_data \<Rightarrow> node_data" where
  "setTokenCount n = n\<lparr>TokenCount := Estimate (Content n)\<rparr>"

definition setIdentity :: "(string \<Rightarrow> string \<Rightarrow> int \<Rightarrow> string) \<Rightarrow> node_data \<Rightarrow> string \<Rightarrow> int \<Rightarrow> node_data" where
  "setIdentity ident n parentID siblingIndex =
     n\<lparr>ID := ident (SourceFile n) parentID siblingIndex, ParentID := parentID\<rparr>"

text \<open>The two loops of \<open>wireIdentity\<close>: the top level counts siblings per file, a nested level
  counts all of them. \<open>perFile\<close> and \<open>i\<close> are the loop variables.\<close>

fun wireIdentity :: "(string \<Rightarrow> string \<Rightarrow> int \<Rightarrow> string) \<Rightarrow> string \<Rightarrow> (string \<Rightarrow> int) \<Rightarrow> int
    \<Rightarrow> ContextNode list \<Rightarrow> ContextNode list" where
  "wireIdentity ident parentID perFile i [] = []"
| "wireIdentity ident parentID perFile i (CNode n cs # ns) =
     (if parentID = [] then
        (let k = perFile (SourceFile n); n' = setIdentity ident n [] k
         in CNode n' (wireIdentity ident (ID n') (\<lambda>_. 0) 0 cs)
            # wireIdentity ident parentID (perFile(SourceFile n := k + 1)) i ns)
      else
        (let n' = setIdentity ident n parentID i
         in CNode n' (wireIdentity ident (ID n') (\<lambda>_. 0) 0 cs)
            # wireIdentity ident parentID perFile (i + 1) ns))"

definition enrich :: "(string \<Rightarrow> 64 word) \<Rightarrow> node_data \<Rightarrow> node_data" where
  \<comment> \<open>the body of the per-node goroutine; the goroutines touch one node each\<close>
  "enrich h n = setTokenCount (setLabel (setContentHash h n))"

definition Transform :: "(string \<Rightarrow> 64 word) \<Rightarrow> ContextNode list \<Rightarrow> string \<Rightarrow> ContextNode list" where
  "Transform h roots compileRoot =
     (if Flatten roots = [] then roots
      else let roots = map_nodes compress roots;
               roots = compressPrefix roots compileRoot;
               roots = map_nodes (enrich h) roots
           in wireIdentity (IdentifyNode h) [] (\<lambda>_. 0) 0 roots)"

section \<open>Chains: what an identifier is built from\<close>

text \<open>The chain of a node lists file and sibling index of the node and of its ancestors, the node
  first.\<close>

type_synonym chain = "(string \<times> int) list"

primrec idof :: "(string \<Rightarrow> string \<Rightarrow> int \<Rightarrow> string) \<Rightarrow> chain \<Rightarrow> string" where
  "idof ident [] = []"
| "idof ident (x # c) = ident (fst x) (idof ident c) (snd x)"

fun chains :: "chain \<Rightarrow> (string \<Rightarrow> int) \<Rightarrow> int \<Rightarrow> ContextNode list \<Rightarrow> chain list" where
  "chains c perFile i [] = []"
| "chains c perFile i (CNode n cs # ns) =
     (let k = if c = [] then perFile (SourceFile n) else i; c' = (SourceFile n, k) # c
      in c' # chains c' (\<lambda>_. 0) 0 cs
         @ (if c = [] then chains c (perFile(SourceFile n := k + 1)) i ns
            else chains c perFile (i + 1) ns))"

definition sib :: "chain \<Rightarrow> (string \<Rightarrow> int) \<Rightarrow> int \<Rightarrow> string \<Rightarrow> int" where
  "sib c perFile i s = (if c = [] then perFile s else i)"

abbreviation node_chain :: "chain \<Rightarrow> (string \<Rightarrow> int) \<Rightarrow> int \<Rightarrow> node_data \<Rightarrow> chain" where
  "node_chain c perFile i n \<equiv> (SourceFile n, sib c perFile i (SourceFile n)) # c"

lemma chains_Cons:
  obtains perFile' i' where
    "chains c perFile i (CNode n cs # ns) =
       node_chain c perFile i n # chains (node_chain c perFile i n) (\<lambda>_. 0) 0 cs @ chains c perFile' i' ns"
    "sib c perFile' i' (SourceFile n) = sib c perFile i (SourceFile n) + 1"
    "\<And>t. sib c perFile i t \<le> sib c perFile' i' t"
proof (cases "c = []")
  case True
  show ?thesis by (rule that [of "perFile(SourceFile n := perFile (SourceFile n) + 1)" i]) (auto simp: True sib_def Let_def)
next
  case False
  show ?thesis by (rule that [of perFile "i + 1"]) (auto simp: False sib_def Let_def)
qed

declare chains.simps(2) [simp del]

lemma chains_form:
  "x \<in> set (chains c perFile i ns) \<Longrightarrow> \<exists>ys s k. x = ys @ (s, k) # c \<and> sib c perFile i s \<le> k"
proof (induction ns arbitrary: c perFile i rule: forest_induct)
  case (Node n cs ns)
  let ?c' = "node_chain c perFile i n"
  obtain pf j where ch: "chains c perFile i (CNode n cs # ns) = ?c' # chains ?c' (\<lambda>_. 0) 0 cs @ chains c pf j ns"
    and le: "\<And>t. sib c perFile i t \<le> sib c pf j t" by (rule chains_Cons) blast
  from Node.prems ch consider "x = ?c'" | "x \<in> set (chains ?c' (\<lambda>_. 0) 0 cs)" | "x \<in> set (chains c pf j ns)"
    by auto
  then show ?case
  proof cases
    case 1
    then show ?thesis by (intro exI [of _ "[]"] exI conjI) auto
  next
    case 2
    then obtain ys s j where "x = ys @ (s, j) # ?c'" using Node.IH(1) by blast
    then have "x = (ys @ [(s, j)]) @ ?c'" by simp
    then show ?thesis by blast
  next
    case 3
    then obtain ys s k where "x = ys @ (s, k) # c" "sib c pf j s \<le> k" using Node.IH(2) by blast
    then show ?thesis using le order_trans by blast
  qed
qed simp

lemma chains_suffix_unique: "ys @ a # c = zs @ b # c \<Longrightarrow> a = b"
proof -
  assume "ys @ a # c = zs @ b # c"
  then have "(ys @ [a]) @ c = (zs @ [b]) @ c" by simp
  then show ?thesis by (simp only: append_same_eq append1_eq_conv)
qed

lemma distinct_chains: "distinct (chains c perFile i ns)"
proof (induction ns arbitrary: c perFile i rule: forest_induct)
  case (Node n cs ns)
  let ?c' = "node_chain c perFile i n"
  obtain pf j where ch: "chains c perFile i (CNode n cs # ns) = ?c' # chains ?c' (\<lambda>_. 0) 0 cs @ chains c pf j ns"
    and s1: "sib c pf j (SourceFile n) = sib c perFile i (SourceFile n) + 1" by (rule chains_Cons)
  have r: "\<exists>ys a. x = ys @ a # c \<and> a \<noteq> hd ?c'" if x: "x \<in> set (chains c pf j ns)" for x
  proof -
    from chains_form [OF x] obtain ys s k where "x = ys @ (s, k) # c" "sib c pf j s \<le> k" by blast
    then show ?thesis using s1 by (intro exI [of _ ys] exI [of _ "(s, k)"]) auto
  qed
  have sub: "\<exists>ys a. x = ys @ a # ?c'" if x: "x \<in> set (chains ?c' (\<lambda>_. 0) 0 cs)" for x
    using chains_form [OF x] by (elim exE conjE) (intro exI, assumption)
  have sub': "\<exists>ys. x = ys @ hd ?c' # c" if x: "x \<in> set (chains ?c' (\<lambda>_. 0) 0 cs)" for x
  proof -
    from sub [OF x] obtain ys a where "x = ys @ a # ?c'" by (elim exE)
    then have "x = (ys @ [a]) @ hd ?c' # c" by (simp only: append_assoc append_Cons append_Nil list.sel)
    then show ?thesis by (rule exI)
  qed
  have "?c' \<notin> set (chains ?c' (\<lambda>_. 0) 0 cs)"
  proof
    assume "?c' \<in> set (chains ?c' (\<lambda>_. 0) 0 cs)"
    from sub [OF this] obtain ys a where "?c' = ys @ a # ?c'" by (elim exE)
    from arg_cong [OF this, of length] show False by simp
  qed
  moreover have "?c' \<notin> set (chains c pf j ns)"
  proof
    assume "?c' \<in> set (chains c pf j ns)"
    from r [OF this] obtain ys a where *: "?c' = ys @ a # c" "a \<noteq> hd ?c'" by blast
    have "[] @ hd ?c' # c = ?c'" by simp
    also note *(1)
    finally have "[] @ hd ?c' # c = ys @ a # c" .
    from chains_suffix_unique [OF this] *(2) show False by simp
  qed
  moreover have "set (chains ?c' (\<lambda>_. 0) 0 cs) \<inter> set (chains c pf j ns) = {}"
  proof (rule ccontr)
    assume "\<not> ?thesis"
    then obtain x where x: "x \<in> set (chains ?c' (\<lambda>_. 0) 0 cs)" "x \<in> set (chains c pf j ns)" by blast
    from r [OF x(2)] obtain ys a where 1: "x = ys @ a # c" "a \<noteq> hd ?c'" by (elim exE conjE)
    from sub' [OF x(1)] obtain zs where "x = zs @ hd ?c' # c" by (elim exE)
    with 1(1) have "ys @ a # c = zs @ hd ?c' # c" by (rule subst)
    from chains_suffix_unique [OF this] 1(2) show False by simp
  qed
  moreover have "distinct (chains ?c' (\<lambda>_. 0) 0 cs)" "distinct (chains c pf j ns)"
    by (rule Node.IH)+
  ultimately show ?case unfolding ch distinct.simps distinct_append set_append by blast
qed simp

lemma chains_elem:
  "x \<in> set (chains c perFile i ns) \<Longrightarrow> (s, k) \<in> set x \<Longrightarrow> (s, k) \<notin> set c \<Longrightarrow> (\<And>s. 0 \<le> sib c perFile i s) \<Longrightarrow>
    0 \<le> k \<and> s \<in> SourceFile ` set (flat_data ns)"
proof (induction ns arbitrary: c perFile i rule: forest_induct)
  case (Node n cs ns)
  let ?c' = "node_chain c perFile i n"
  obtain pf j where ch: "chains c perFile i (CNode n cs # ns) = ?c' # chains ?c' (\<lambda>_. 0) 0 cs @ chains c pf j ns"
    and le: "\<And>t. sib c perFile i t \<le> sib c pf j t" by (rule chains_Cons) blast
  show ?case
  proof (cases "(s, k) = hd ?c'")
    case True
    with Node.prems(4) show ?thesis by simp
  next
    case False
    with Node.prems(3) have nc: "(s, k) \<notin> set ?c'" by auto
    from Node.prems(1) ch consider "x = ?c'" | "x \<in> set (chains ?c' (\<lambda>_. 0) 0 cs)" | "x \<in> set (chains c pf j ns)"
      by auto
    then show ?thesis
    proof cases
      case 1
      with nc Node.prems(2) show ?thesis by simp
    next
      case 2
      have "0 \<le> k \<and> s \<in> SourceFile ` set (flat_data cs)"
        by (rule Node.IH(1) [OF 2 Node.prems(2) nc]) (simp add: sib_def)
      then show ?thesis by auto
    next
      case 3
      have "0 \<le> k \<and> s \<in> SourceFile ` set (flat_data ns)"
        by (rule Node.IH(2) [OF 3 Node.prems(2,3)]) (rule order_trans [OF Node.prems(4) le])
      then show ?thesis by auto
    qed
  qed
qed simp

lemma chains_tails:
  "x \<in> set (chains c perFile i ns) \<Longrightarrow> tl x = c \<or> tl x \<in> set (chains c perFile i ns)"
proof (induction ns arbitrary: c perFile i rule: forest_induct)
  case (Node n cs ns)
  let ?c' = "node_chain c perFile i n"
  obtain pf j where ch: "chains c perFile i (CNode n cs # ns) = ?c' # chains ?c' (\<lambda>_. 0) 0 cs @ chains c pf j ns"
    by (rule chains_Cons)
  with Node.prems consider "x = ?c'" | "x \<in> set (chains ?c' (\<lambda>_. 0) 0 cs)" | "x \<in> set (chains c pf j ns)"
    by auto
  then show ?case
  proof cases
    case 2
    then show ?thesis using Node.IH(1) [OF 2] by (auto simp: ch)
  next
    case 3
    then show ?thesis using Node.IH(2) [OF 3] by (auto simp: ch)
  qed simp
qed simp

section \<open>Identifier schemes\<close>

text \<open>What the walk relies on: an identifier is never empty, because the empty string marks a
  root.\<close>

locale id_scheme =
  fixes ident :: "string \<Rightarrow> string \<Rightarrow> int \<Rightarrow> string"
  assumes ident_nonempty: "ident s p i \<noteq> []"
begin

lemma idof_Nil_iff [simp]: "idof ident c = [] \<longleftrightarrow> c = []" "[] = idof ident c \<longleftrightarrow> c = []"
  by (cases c; simp add: ident_nonempty ident_nonempty [symmetric])+

lemma wire_ids:
  "map ID (flat_data (wireIdentity ident (idof ident c) pf i ns)) = map (idof ident) (chains c pf i ns)"
proof (induction ns arbitrary: c pf i rule: forest_induct)
  case (Node n cs ns)
  show ?case
    using Node.IH(1) [of "node_chain c pf i n" "\<lambda>_. 0" 0] Node.IH(2)
      Node.IH(2) [of "[]" "pf(SourceFile n := pf (SourceFile n) + 1)" i]
    by (cases "c = []") (simp_all add: chains.simps(2) Let_def setIdentity_def sib_def del: fun_upd_apply)
qed simp

lemma wire_parents:
  "map ParentID (flat_data (wireIdentity ident (idof ident c) pf i ns)) = map (\<lambda>x. idof ident (tl x)) (chains c pf i ns)"
proof (induction ns arbitrary: c pf i rule: forest_induct)
  case (Node n cs ns)
  show ?case
    using Node.IH(1) [of "node_chain c pf i n" "\<lambda>_. 0" 0] Node.IH(2)
      Node.IH(2) [of "[]" "pf(SourceFile n := pf (SourceFile n) + 1)" i]
    by (cases "c = []") (simp_all add: chains.simps(2) Let_def setIdentity_def sib_def del: fun_upd_apply)
qed simp

text \<open>Equal identifiers have equal inputs, step by step up to the root.\<close>

definition inputs :: "chain list \<Rightarrow> (string \<times> string \<times> int) set" where
  "inputs xs = (\<lambda>x. (fst (hd x), idof ident (tl x), snd (hd x))) ` (set xs - {[]})"

lemma idof_inject:
  assumes "inj_on (\<lambda>(s, p, k). ident s p k) (inputs xs)"
    and closed: "\<And>x. x \<in> set xs \<Longrightarrow> tl x = [] \<or> tl x \<in> set xs"
  shows "x \<in> set xs \<Longrightarrow> y \<in> set xs \<Longrightarrow> idof ident x = idof ident y \<Longrightarrow> x = y"
proof (induction x arbitrary: y)
  case Nil
  then show ?case using idof_Nil_iff(1) [of y] by simp
next
  case (Cons a x)
  then obtain b y' where y: "y = b # y'" using idof_Nil_iff(1) [of y] by (cases y) (auto simp: ident_nonempty)
  have "(fst a, idof ident x, snd a) \<in> inputs xs" "(fst b, idof ident y', snd b) \<in> inputs xs"
    using Cons.prems(1,2) unfolding y inputs_def by (force intro: image_eqI)+
  with assms(1) Cons.prems(3) have "(fst a, idof ident x, snd a) = (fst b, idof ident y', snd b)"
    by (auto simp: inj_on_def y)
  then have ab: "a = b" and i: "idof ident x = idof ident y'" by (auto simp: prod_eq_iff)
  have "x = y'"
  proof (cases "x = [] \<or> y' = []")
    case True
    then show ?thesis using i by (metis idof_Nil_iff)
  next
    case False
    then have "x \<in> set xs" "y' \<in> set xs" using closed Cons.prems(1,2) unfolding y by fastforce+
    then show ?thesis using Cons.IH i by blast
  qed
  with ab show ?case by (simp add: y)
qed

lemma wire_distinct:
  assumes "inj_on (\<lambda>(s, p, k). ident s p k) (inputs (chains [] pf i ns))"
  shows "distinct (map ID (flat_data (wireIdentity ident [] pf i ns)))"
proof -
  have "inj_on (idof ident) (set (chains [] pf i ns))"
    using idof_inject [OF assms] chains_tails [of _ "[]" pf i ns] by (auto intro: inj_onI)
  then show ?thesis
    using wire_ids [of "[]" pf i ns] distinct_chains [of "[]" pf i ns] by (simp add: distinct_map)
qed

end

text \<open>Every node comes after its parent in the flat list, and a root has no parent.\<close>

fun parents_first :: "string set \<Rightarrow> node_data list \<Rightarrow> bool" where
  "parents_first known [] = True"
| "parents_first known (d # ds) =
     ((ParentID d = [] \<or> ParentID d \<in> known) \<and> parents_first (insert (ID d) known) ds)"

lemma parents_first_mono: "parents_first K ds \<Longrightarrow> K \<subseteq> L \<Longrightarrow> parents_first L ds"
proof (induction ds arbitrary: K L)
  case (Cons d ds)
  then have "parents_first (insert (ID d) L) ds" by (auto intro: Cons.IH [of "insert (ID d) K"])
  with Cons.prems show ?case by auto
qed simp

lemma parents_first_append:
  "parents_first K (xs @ ys) \<longleftrightarrow> parents_first K xs \<and> parents_first (K \<union> ID ` set xs) ys"
  by (induction xs arbitrary: K) auto

lemma wire_parents_first:
  "p = [] \<or> p \<in> K \<Longrightarrow> parents_first K (flat_data (wireIdentity ident p pf i ns))"
proof (induction ns arbitrary: K p pf i rule: forest_induct)
  case (Node n cs ns)
  show ?case
    using Node.IH(1) Node.IH(2) Node.prems
    by (auto simp: Let_def parents_first_append setIdentity_def)
qed simp

fun wired :: "string \<Rightarrow> ContextNode list \<Rightarrow> bool" where
  \<comment> \<open>the tree and the parent identifiers agree\<close>
  "wired p [] = True"
| "wired p (CNode n cs # ns) = (ParentID n = p \<and> wired (ID n) cs \<and> wired p ns)"

lemma wired_wireIdentity: "wired p (wireIdentity ident p pf i ns)"
  by (induction ns arbitrary: p pf i rule: forest_induct) (auto simp: Let_def setIdentity_def)

section \<open>The identifiers of a transformed forest\<close>

interpretation node_id: id_scheme "IdentifyNode h" for h
  by unfold_locales simp

definition skeleton :: "ContextNode list \<Rightarrow> ContextNode list" where
  "skeleton ns = map_nodes (\<lambda>n. zero_data\<lparr>SourceFile := SourceFile n\<rparr>) ns"

lemma skeleton_simps [simp]:
  "skeleton [] = []"
  "skeleton (CNode n cs # ns) = CNode (zero_data\<lparr>SourceFile := SourceFile n\<rparr>) (skeleton cs) # skeleton ns"
  by (simp_all add: skeleton_def)

lemma chains_skeleton: "chains c pf i (skeleton ns) = chains c pf i ns"
  by (induction ns arbitrary: c pf i rule: forest_induct) (simp_all add: chains.simps(2) Let_def)

lemma skeleton_map_nodes: "(\<And>n. SourceFile (f n) = g (SourceFile n)) \<Longrightarrow>
    skeleton (map_nodes f ns) = map_nodes (\<lambda>n. n\<lparr>SourceFile := g (SourceFile n)\<rparr>) (skeleton ns)"
  by (induction ns rule: forest_induct) auto

lemma skeleton_same: "(\<And>n. SourceFile (f n) = SourceFile n) \<Longrightarrow> skeleton (map_nodes f ns) = skeleton ns"
  by (induction ns rule: forest_induct) auto

text \<open>The inputs the identifiers of a forest are hashed from, in flat order.\<close>

definition hash_inputs :: "(string \<Rightarrow> 64 word) \<Rightarrow> ContextNode list \<Rightarrow> string list" where
  "hash_inputs h ns = map (\<lambda>x. id_input (fst (hd x)) (idof (IdentifyNode h) (tl x)) (snd (hd x))) (chains [] (\<lambda>_. 0) 0 ns)"

lemma chains_not_Nil: "[] \<notin> set (chains c pf i ns)"
  using chains_form [of "[]" c pf i ns] by auto

lemma no_NUL_idof: "CHR 0x00 \<notin> set (idof (IdentifyNode h) c)"
  by (cases c) (simp_all add: no_sep_IdentifyNode)

lemma inj_hash_inputs:
  assumes "inj_on h (set (hash_inputs h ns))"
    and "\<And>n. n \<in> set (flat_data ns) \<Longrightarrow> CHR 0x00 \<notin> set (SourceFile n)"
  shows "inj_on (\<lambda>(s, p, k). IdentifyNode h s p k) (node_id.inputs h (chains [] (\<lambda>_. 0) 0 ns))"
proof (rule inj_onI)
  fix t u assume t: "t \<in> node_id.inputs h (chains [] (\<lambda>_. 0) 0 ns)" and u: "u \<in> node_id.inputs h (chains [] (\<lambda>_. 0) 0 ns)"
    and eq: "(case t of (s, p, k) \<Rightarrow> IdentifyNode h s p k) = (case u of (s, p, k) \<Rightarrow> IdentifyNode h s p k)"
  have ok: "\<exists>s c k. t = (s, idof (IdentifyNode h) c, k) \<and> id_input s (idof (IdentifyNode h) c) k \<in> set (hash_inputs h ns)
      \<and> 0 \<le> k \<and> CHR 0x00 \<notin> set s" if "t \<in> node_id.inputs h (chains [] (\<lambda>_. 0) 0 ns)" for t
  proof -
    from that obtain x where x: "x \<in> set (chains [] (\<lambda>_. 0) 0 ns)" "x \<noteq> []"
      and t: "t = (fst (hd x), idof (IdentifyNode h) (tl x), snd (hd x))"
      by (auto simp: node_id.inputs_def)
    have "(fst (hd x), snd (hd x)) \<in> set x" using x(2) by simp
    then have "0 \<le> snd (hd x) \<and> fst (hd x) \<in> SourceFile ` set (flat_data ns)"
      by (rule chains_elem [OF x(1)]) (simp_all add: sib_def)
    moreover have "id_input (fst (hd x)) (idof (IdentifyNode h) (tl x)) (snd (hd x)) \<in> set (hash_inputs h ns)"
      using x(1) by (auto simp: hash_inputs_def)
    ultimately show ?thesis using assms(2) t by auto
  qed
  from ok [OF t] ok [OF u] obtain s c k s' c' k'
    where t: "t = (s, idof (IdentifyNode h) c, k)" "id_input s (idof (IdentifyNode h) c) k \<in> set (hash_inputs h ns)" "0 \<le> k" "CHR 0x00 \<notin> set s"
      and u: "u = (s', idof (IdentifyNode h) c', k')" "id_input s' (idof (IdentifyNode h) c') k' \<in> set (hash_inputs h ns)" "0 \<le> k'" "CHR 0x00 \<notin> set s'"
    by blast
  from eq have "h (id_input s (idof (IdentifyNode h) c) k) = h (id_input s' (idof (IdentifyNode h) c') k')"
    unfolding t(1) u(1) by (simp add: IdentifyNode_input encodeBase62_inject)
  then have "id_input s (idof (IdentifyNode h) c) k = id_input s' (idof (IdentifyNode h) c') k'"
    using assms(1) t(2) u(2) by (auto dest: inj_onD)
  from id_input_inject [OF this t(4) u(4) no_NUL_idof no_NUL_idof t(3) u(3)]
  show "t = u" by (simp add: t(1) u(1))
qed

section \<open>Transform\<close>

lemma Transform_eq:
  "Transform h roots r = wireIdentity (IdentifyNode h) [] (\<lambda>_. 0) 0
     (map_nodes (enrich h) (compressPrefix (map_nodes compress roots) r))"
  by (cases "roots = []") (simp_all add: Transform_def Let_def compressPrefix_def)

lemma enrich_source [simp]: "SourceFile (enrich h n) = SourceFile n" "SourceFile (compress n) = SourceFile n"
  by (simp_all add: enrich_def setTokenCount_def setLabel_def setContentHash_def compress_def)

lemma map_nodes_Nil_iff [simp]: "map_nodes f ns = [] \<longleftrightarrow> ns = []"
  by (cases ns rule: forest_size.cases) auto

lemma flat_sources_skeleton: "map SourceFile (flat_data (skeleton ns)) = map SourceFile (flat_data ns)"
  by (induction ns rule: forest_induct) auto

lemma splits_loop_sources:
  "map SourceFile ns = map SourceFile ms \<Longrightarrow> commonDirPrefix_loop s p ns = commonDirPrefix_loop s p ms"
proof (induction ns arbitrary: ms p)
  case (Cons n ns)
  then obtain m ms' where "ms = m # ms'" "SourceFile n = SourceFile m" "map SourceFile ns = map SourceFile ms'"
    by auto
  with Cons.IH [of ms'] show ?case by (simp add: Let_def)
qed simp

lemma prefix_to_strip_sources:
  assumes "map SourceFile ns = map SourceFile ms"
  shows "prefix_to_strip ns r = prefix_to_strip ms r"
proof (cases "ns = []")
  case False
  with assms have "SourceFile (hd ns) = SourceFile (hd ms)" "map SourceFile (tl ns) = map SourceFile (tl ms)"
    by (cases ns; cases ms; simp)+
  from this(1) splits_loop_sources [OF this(2)] show ?thesis
    by (simp add: prefix_to_strip_def commonDirPrefix_def)
qed (use assms in simp)

lemma skeleton_compressPrefix: "skeleton (compressPrefix ns r) = skeleton (compressPrefix (skeleton ns) r)"
proof (cases "ns = []")
  case False
  have "prefix_to_strip (flat_data (skeleton ns)) r = prefix_to_strip (flat_data ns) r"
    by (rule prefix_to_strip_sources [OF flat_sources_skeleton])
  moreover have "skeleton (skeleton ns) = skeleton ns" by (simp add: skeleton_def map_nodes_comp comp_def)
  ultimately show ?thesis
    using False by (simp add: compressPrefix_def skeleton_def map_nodes_comp comp_def Let_def)
qed (simp add: compressPrefix_def)

lemma skeleton_pipeline:
  "skeleton (map_nodes (enrich h) (compressPrefix (map_nodes compress roots) r)) = skeleton (compressPrefix (skeleton roots) r)"
proof -
  have "skeleton (map_nodes (enrich h) (compressPrefix (map_nodes compress roots) r))
      = skeleton (compressPrefix (map_nodes compress roots) r)" by (rule skeleton_same) simp
  also have "\<dots> = skeleton (compressPrefix (skeleton (map_nodes compress roots)) r)" by (rule skeleton_compressPrefix)
  also have "skeleton (map_nodes compress roots) = skeleton roots" by (rule skeleton_same) simp
  finally show ?thesis .
qed

lemma chains_pipeline:
  "chains c pf i (map_nodes (enrich h) (compressPrefix (map_nodes compress roots) r)) = chains c pf i (compressPrefix (skeleton roots) r)"
  by (subst (1 2) chains_skeleton [symmetric]) (simp add: skeleton_pipeline)

lemma Transform_ids:
  "map ID (flat_data (Transform h roots r))
     = map (idof (IdentifyNode h)) (chains [] (\<lambda>_. 0) 0 (compressPrefix (skeleton roots) r))"
  using node_id.wire_ids [of h "[]"] by (simp add: Transform_eq chains_pipeline)

lemma flat_sources_wire: "map SourceFile (flat_data (wireIdentity ident p pf i ns)) = map SourceFile (flat_data ns)"
  by (induction ns arbitrary: p pf i rule: forest_induct) (auto simp: Let_def setIdentity_def)

definition identity_inputs :: "(string \<Rightarrow> 64 word) \<Rightarrow> ContextNode list \<Rightarrow> string \<Rightarrow> string list" where
  \<comment> \<open>what is hashed for identifiers when the forest is transformed\<close>
  "identity_inputs h roots r = hash_inputs h (compressPrefix (skeleton roots) r)"

lemma TrimPrefix_subset: "set (TrimPrefix s p) \<subseteq> set s"
  by (auto simp: TrimPrefix_def dest: in_set_dropD)

lemma sources_compressPrefix: "n \<in> set (flat_data (compressPrefix ns r)) \<Longrightarrow> \<exists>m \<in> set (flat_data ns). set (SourceFile n) \<subseteq> set (SourceFile m)"
  using TrimPrefix_subset
  by (auto simp: compressPrefix_def Let_def flat_data_map_nodes split: if_splits) (metis TrimPrefix_subset subsetD)

lemma Transform_distinct:
  assumes "\<forall>n \<in> set (flat_data roots). CHR 0x00 \<notin> set (SourceFile n)"
    and "inj_on h (set (identity_inputs h roots r))"
  shows "distinct (map ID (flat_data (Transform h roots r)))"
proof -
  let ?ns = "compressPrefix (skeleton roots) r"
  have src: "CHR 0x00 \<notin> set (SourceFile n)" if n: "n \<in> set (flat_data ?ns)" for n
  proof -
    from sources_compressPrefix [OF n] obtain m where "m \<in> set (flat_data (skeleton roots))"
      "set (SourceFile n) \<subseteq> set (SourceFile m)" by blast
    moreover have "SourceFile ` set (flat_data (skeleton roots)) = SourceFile ` set (flat_data roots)"
      by (metis flat_sources_skeleton set_map)
    ultimately show ?thesis using assms(1) by (metis (no_types, lifting) imageE image_eqI subsetD)
  qed
  have "distinct (map ID (flat_data (wireIdentity (IdentifyNode h) [] (\<lambda>_. 0) 0 ?ns)))"
    by (rule node_id.wire_distinct, rule inj_hash_inputs) (use assms(2) src in \<open>auto simp: identity_inputs_def\<close>)
  then show ?thesis
    using Transform_ids [of h roots r] node_id.wire_ids [of h "[]" "\<lambda>_. 0" 0 ?ns] by simp
qed

lemma Transform_parents_first: "parents_first {} (flat_data (Transform h roots r))"
  unfolding Transform_eq by (rule wire_parents_first) simp

lemma Transform_wired: "wired [] (Transform h roots r)"
  unfolding Transform_eq by (rule wired_wireIdentity)

text \<open>C7: the identifiers a compilation assigns are pairwise distinct, and they wire the tree: a
  root has no parent, every other node names its parent in the tree, and a parent comes before its
  children in the flat list, the order the store inserts in. The hypotheses are that file names
  hold no NUL byte and that the hash does not collide on the inputs of this one forest.\<close>

theorem Transform_identity:
  assumes "\<forall>n \<in> set (flat_data roots). CHR 0x00 \<notin> set (SourceFile n)"
    and "inj_on h (set (identity_inputs h roots compileRoot))"
  shows "distinct (map ID (flat_data (Transform h roots compileRoot)))
    \<and> wired [] (Transform h roots compileRoot)
    \<and> parents_first {} (flat_data (Transform h roots compileRoot))"
  using Transform_distinct [OF assms] Transform_wired Transform_parents_first by blast

definition len_hash :: "string \<Rightarrow> 64 word" where
  \<comment> \<open>a concrete hash for the witnesses\<close>
  "len_hash s = of_nat (length s)"

definition two_files :: "ContextNode list" where
  "two_files = [CNode (zero_data\<lparr>SourceFile := ''/v/a''\<rparr>) [CNode (zero_data\<lparr>SourceFile := ''/v/a'', Content := ''x''\<rparr>) []],
     CNode (zero_data\<lparr>SourceFile := ''/v/bb''\<rparr>) []]"

theorem Transform_identity_witness:
  "distinct (map ID (flat_data (Transform len_hash two_files ''/v'')))"
proof -
  have "distinct (map len_hash (identity_inputs len_hash two_files ''/v''))" by code_simp
  then have "inj_on len_hash (set (identity_inputs len_hash two_files ''/v''))" by (simp add: distinct_map)
  moreover have "\<forall>n \<in> set (flat_data two_files). CHR 0x00 \<notin> set (SourceFile n)"
    by (simp add: two_files_def)
  ultimately show ?thesis using Transform_identity by blast
qed

text \<open>Identifiers are stable: they depend on the shape of the forest and the file names only,
  so editing contents, formats or labels in place changes no identifier.\<close>

theorem Transform_ids_stable:
  assumes "skeleton roots = skeleton roots'"
  shows "map ID (flat_data (Transform h roots r)) = map ID (flat_data (Transform h roots' r))
    \<and> map ParentID (flat_data (Transform h roots r)) = map ParentID (flat_data (Transform h roots' r))"
proof -
  have "map ParentID (flat_data (Transform h ns r))
      = map (\<lambda>x. idof (IdentifyNode h) (tl x)) (chains [] (\<lambda>_. 0) 0 (compressPrefix (skeleton ns) r))" for ns
    using node_id.wire_parents [of h "[]"] by (simp add: Transform_eq chains_pipeline)
  with assms show ?thesis by (simp add: Transform_ids)
qed

theorem Transform_ids_stable_witness:
  "map ID (flat_data (Transform len_hash [CNode (zero_data\<lparr>SourceFile := ''a'', Content := ''old''\<rparr>) []] []))
    = map ID (flat_data (Transform len_hash [CNode (zero_data\<lparr>SourceFile := ''a'', Content := ''new''\<rparr>) []] []))"
proof -
  have "skeleton [CNode (zero_data\<lparr>SourceFile := ''a'', Content := ''old''\<rparr>) []]
      = skeleton [CNode (zero_data\<lparr>SourceFile := ''a'', Content := ''new''\<rparr>) []]" by simp
  then show ?thesis using Transform_ids_stable by blast
qed

text \<open>Identifiers do not depend on where the corpus sits: the same files below another
  compile root give the same forest, identifiers and hashes included.\<close>

theorem Transform_relocatable:
  assumes "r1 \<noteq> []" "Clean r1 \<noteq> ''/''" "r2 \<noteq> []" "Clean r2 \<noteq> ''/''"
  shows "Transform h (map_nodes (\<lambda>n. n\<lparr>SourceFile := Clean r1 @ ''/'' @ SourceFile n\<rparr>) roots) r1
    = Transform h (map_nodes (\<lambda>n. n\<lparr>SourceFile := Clean r2 @ ''/'' @ SourceFile n\<rparr>) roots) r2"
proof -
  have strip: "compressPrefix (map_nodes compress (map_nodes (\<lambda>n. n\<lparr>SourceFile := Clean r @ ''/'' @ SourceFile n\<rparr>) roots)) r
      = map_nodes compress roots" if "r \<noteq> []" "Clean r \<noteq> ''/''" for r
  proof -
    have p: "prefix_to_strip ns r = Clean r @ ''/''" for ns
      using that Clean_no_trailing_slash [of r] by (simp add: prefix_to_strip_root)
    have "TrimPrefix (Clean r @ ''/'' @ s) (Clean r @ ''/'') = s" for s
      using HasPrefix_append [of "Clean r @ ''/''" s] by (simp add: TrimPrefix_def)
    then show ?thesis
      by (cases "roots = []") (simp_all add: compressPrefix_def p Let_def map_nodes_comp comp_def compress_def [abs_def])
  qed
  show ?thesis unfolding Transform_eq strip [OF assms(1,2)] strip [OF assms(3,4)] ..
qed

theorem Transform_relocatable_witness:
  "Transform len_hash (map_nodes (\<lambda>n. n\<lparr>SourceFile := Clean ''/v'' @ ''/'' @ SourceFile n\<rparr>) two_files) ''/v''
    = Transform len_hash (map_nodes (\<lambda>n. n\<lparr>SourceFile := Clean ''/w/x'' @ ''/'' @ SourceFile n\<rparr>) two_files) ''/w/x''"
proof -
  have "Clean ''/v'' \<noteq> ''/''" "Clean ''/w/x'' \<noteq> ''/''" by code_simp+
  then show ?thesis by (intro Transform_relocatable) simp_all
qed

end
