(* ===== verification/Emitter.thy ===== *)
theory Emitter
  imports Tx Identity
begin

text \<open>
  The package \<open>pkg/emitter\<close>: applying the deltas of a diff to the store in one transaction,
  with the snapshot, its diff records and the cursor. The central fact is a refinement: seen as a
  map from identifiers to hash and content, the nodes table does what the diff says.
\<close>

definition nodeFromContext :: "node_data \<Rightarrow> Node" where
  "nodeFromContext cn =
     \<lparr>nID = ID cn, nParentID = ParentID cn, nSourceFile = SourceFile cn, nNodeType = Kind cn,
      nDepth = Depth cn, nLabel = Label cn, nContent = Content cn, nFormat = Format cn,
      nTokenCount = TokenCount cn, nContentHash = Hash cn, nTemperature = 0, nAccessCount = 0,
      nLastAccessed = None, nCreatedAt = 0, nUpdatedAt = 0, nSeedTemp = Temperature cn\<rparr>"

definition buildNodeMap :: "ContextNode list \<Rightarrow> (string \<rightharpoonup> ContextNode)" where
  "buildNodeMap roots = FlattenMap roots"

fun apply_deltas :: "int \<Rightarrow> (string \<rightharpoonup> ContextNode) \<Rightarrow> Delta list \<Rightarrow> db \<Rightarrow> error + db" where
  "apply_deltas now nodeMap [] d = Inr d"
| "apply_deltas now nodeMap (dl # ds) d =
     (if Op dl = OpAdd \<or> Op dl = OpMod then
        (case nodeMap (NodeID dl) of
           None \<Rightarrow> Inl (NodeNotFound (NodeID dl))
         | Some cn \<Rightarrow>
             bindR (wrap_error (''failed to upsert: node '' @ NodeID dl)
                      (UpsertNodeTx now (nodeFromContext (nd cn)) d))
               (apply_deltas now nodeMap ds))
      else if Op dl = OpRem then apply_deltas now nodeMap ds (DeleteNodeTx (NodeID dl) d)
      else apply_deltas now nodeMap ds d)"

definition diff_record :: "int \<Rightarrow> Delta \<Rightarrow> DiffRecord" where
  "diff_record snapID dl =
     \<lparr>SnapshotID = snapID, drNodeID = NodeID dl, drOp = Op dl, drOldHash = OldHash dl,
      drNewHash = NewHash dl, drOldContent = OldContent dl, drNewContent = NewContent dl\<rparr>"

fun insert_diffs :: "int \<Rightarrow> Delta list \<Rightarrow> db \<Rightarrow> error + db" where
  "insert_diffs snapID [] d = Inr d"
| "insert_diffs snapID (dl # ds) d =
     bindR (wrap_error (''failed to insert: diff '' @ NodeID dl) (InsertDiffTx (diff_record snapID dl) d))
       (insert_diffs snapID ds)"

definition emit_body :: "int \<Rightarrow> ContextNode list \<Rightarrow> Delta list \<Rightarrow> string \<Rightarrow> string \<Rightarrow> string \<Rightarrow> db \<Rightarrow> error + db" where
  "emit_body now roots deltas cursorHash message compileRoot d =
     bindR (apply_deltas now (buildNodeMap roots) deltas d) (\<lambda>d.
     bindR (wrap_error ''failed to create: snapshot'' (CreateSnapshotTx now cursorHash message compileRoot d)) (\<lambda>(snapID, d).
     bindR (insert_diffs snapID deltas d) (\<lambda>d.
     wrap_error ''failed to advance: cursor'' (AdvanceCursorTx snapID d))))"

definition Emit :: "(nat \<Rightarrow> attempt_env) \<Rightarrow> error \<Rightarrow> int \<Rightarrow> ContextNode list \<Rightarrow> Delta list
    \<Rightarrow> string \<Rightarrow> string \<Rightarrow> string \<Rightarrow> db \<Rightarrow> error option \<times> db" where
  "Emit env ctxErr now roots deltas cursorHash message compileRoot d =
     (if length deltas = 0 then (None, d)
      else case Tx env ctxErr (emit_body now roots deltas cursorHash message compileRoot) d of
             (r, d', _) \<Rightarrow> (r, d'))"

section \<open>The invariant\<close>

lemma apply_deltas_ok: "db_ok d \<Longrightarrow> apply_deltas now m ds d = Inr d' \<Longrightarrow> db_ok d'"
proof (induction ds arbitrary: d)
  case (Cons dl ds)
  then show ?case
    by (auto simp: bindR_Inr_iff dest: db_ok_upsert db_ok_delete(1) split: if_splits option.splits)
qed simp

lemma apply_deltas_history: "apply_deltas now m ds d = Inr d' \<Longrightarrow> d' = d\<lparr>t_nodes := t_nodes d'\<rparr>"
proof (induction ds arbitrary: d)
  case (Cons dl ds)
  have up: "d1 = d\<lparr>t_nodes := t_nodes d1\<rparr>" if "UpsertNodeTx now n d = Inr d1" for n d1
    using that by (auto simp: UpsertNodeTx_Inr)
  have "d' = d\<lparr>t_nodes := t_nodes d'\<rparr>" if "apply_deltas now m ds d1 = Inr d'" "d1 = d\<lparr>t_nodes := t_nodes d1\<rparr>" for d1
    using Cons.IH [OF that(1)] that(2) by (metis db.surjective db.update_convs(1))
  with Cons.prems up show ?case
    by (auto simp: bindR_Inr_iff DeleteNodeTx_def split: if_splits option.splits)
qed simp

lemma insert_diffs_ok:
  "history_ok d \<Longrightarrow> insert_diffs i ds d = Inr d' \<Longrightarrow>
     history_ok d' \<and> t_nodes d' = t_nodes d \<and> t_snapshots d' = t_snapshots d \<and> t_head d' = t_head d"
proof (induction ds arbitrary: d)
  case (Cons dl ds)
  then obtain d1 where "InsertDiffTx (diff_record i dl) d = Inr d1" "insert_diffs i ds d1 = Inr d'"
    by (auto simp: bindR_Inr_iff)
  with Cons history_ok_diff nodes_same(2) show ?case by metis
qed simp

lemma emit_body_ok: "db_ok d \<Longrightarrow> emit_body now roots ds h m r d = Inr d' \<Longrightarrow> db_ok d'"
proof -
  assume ok: "db_ok d" and "emit_body now roots ds h m r d = Inr d'"
  then obtain d1 i d2 d3 where e: "apply_deltas now (buildNodeMap roots) ds d = Inr d1"
    "CreateSnapshotTx now h m r d1 = Inr (i, d2)" "insert_diffs i ds d2 = Inr d3" "AdvanceCursorTx i d3 = Inr d'"
    by (auto simp: emit_body_def bindR_Inr_iff)
  have ok1: "db_ok d1" by (rule apply_deltas_ok [OF ok e(1)])
  then have "history_ok d2" using history_ok_snapshot e(2) by (simp add: db_ok_def) blast
  then have h3: "history_ok d3" and n3: "t_nodes d3 = t_nodes d2" using insert_diffs_ok [OF _ e(3)] by blast+
  with e(4) have "history_ok d'" using history_ok_cursor by blast
  moreover have "t_nodes d' = t_nodes d1" using n3 nodes_same(1) [OF e(2)] nodes_same(3) [OF e(4)] by simp
  ultimately show ?thesis using ok1 by (simp add: db_ok_def)
qed

interpretation emit: tx_body "emit_body now roots ds h m r" for now roots ds h m r
  by unfold_locales (rule emit_body_ok)

section \<open>The additions and modifications\<close>

definition row_state :: "row \<Rightarrow> NodeState" where
  "row_state r = \<lparr>StHash = c_content_hash r, StContent = c_content r\<rparr>"

definition view :: "row list \<Rightarrow> string \<rightharpoonup> NodeState" where
  "view rows i = map_option row_state (get_row rows i)"

text \<open>What a row has to do with the node it was written from.\<close>

definition row_of :: "node_data \<Rightarrow> row \<Rightarrow> bool" where
  "row_of n r \<longleftrightarrow> row_state r = state_of n \<and> c_parent_id r = parentIDParam (ParentID n)"

lemma row_of_upsert:
  "\<exists>r. get_row (upsert_rows now (nodeFromContext n) rows) (ID n) = Some r \<and> row_of n r"
  by (auto simp: get_row_upsert nodeFromContext_def row_of_def row_state_def state_of_def
      insert_row_def update_row_def split: option.splits)

lemma nID_nodeFromContext [simp]: "nID (nodeFromContext n) = ID n" "nParentID (nodeFromContext n) = ParentID n"
  by (simp_all add: nodeFromContext_def)

lemma apply_deltas_append:
  "apply_deltas now m (xs @ ys) d = bindR (apply_deltas now m xs d) (apply_deltas now m ys)"
proof (induction xs arbitrary: d)
  case (Cons dl xs)
  have "apply_deltas now m (xs @ ys) = (\<lambda>d. bindR (apply_deltas now m xs d) (apply_deltas now m ys))"
    using Cons by (intro ext)
  then show ?case by (cases "m (NodeID dl)") (simp_all add: bindR_assoc)
qed simp

lemma upsert_step:
  assumes "Op dl = OpAdd \<or> Op dl = OpMod" "NodeID dl = ID n" "m (ID n) = Some (CNode n cs)"
    and "ParentID n = [] \<or> ParentID n \<in> set (ids (t_nodes d))"
  shows "apply_deltas now m [dl] d = Inr (d\<lparr>t_nodes := upsert_rows now (nodeFromContext n) (t_nodes d)\<rparr>)"
  using assms by (auto simp: UpsertNodeTx_def ids_upsert_rows)

definition tree_map :: "(string \<rightharpoonup> ContextNode) \<Rightarrow> node_data list \<Rightarrow> bool" where
  "tree_map m ns \<longleftrightarrow> (\<forall>n \<in> set ns. \<exists>cs. m (ID n) = Some (CNode n cs))"

lemma buildNodeMap_tree:
  assumes "distinct (map ID (flat_data roots))"
  shows "tree_map (buildNodeMap roots) (flat_data roots)"
  unfolding tree_map_def buildNodeMap_def
proof
  fix n assume "n \<in> set (flat_data roots)"
  then obtain cn where cn: "cn \<in> set (Flatten roots)" "n = nd cn" by (auto simp: flat_data_def)
  with FlattenMap_Some [OF assms cn(1)] show "\<exists>cs. FlattenMap roots (ID n) = Some (CNode n cs)"
    by (intro exI [of _ "Children cn"]) simp
qed

definition applied :: "snapshot_map \<Rightarrow> node_data list \<Rightarrow> row list \<Rightarrow> row list \<Rightarrow> bool" where
  \<comment> \<open>\<open>rows'\<close> is \<open>rows\<close> with the nodes \<open>ns\<close> brought up to date\<close>
  "applied prev ns rows rows' \<longleftrightarrow>
     (\<forall>n \<in> set ns. DiffFlat_step prev n \<noteq> [] \<longrightarrow> (\<exists>r. get_row rows' (ID n) = Some r \<and> row_of n r))
     \<and> (\<forall>i. i \<notin> ID ` {n \<in> set ns. DiffFlat_step prev n \<noteq> []} \<longrightarrow> get_row rows' i = get_row rows i)"

lemma DiffFlat_step_cases:
  obtains "DiffFlat_step prev n = []" "map_of prev (ID n) \<noteq> None"
    | dl where "DiffFlat_step prev n = [dl]" "Op dl = OpAdd \<or> Op dl = OpMod" "NodeID dl = ID n"
proof (cases "map_of prev (ID n)")
  case None
  then show ?thesis using that(2) by (simp add: DiffFlat_step_def)
next
  case (Some old)
  then show ?thesis using that by (cases "StHash old \<noteq> Hash n") (simp_all add: DiffFlat_step_def)
qed

lemma apply_steps:
  assumes "nodes_ok (t_nodes d)" "distinct (map ID ns)" "tree_map m ns" "parents_first K ns"
    and "K \<subseteq> set (ids (t_nodes d))"
    and "\<forall>n \<in> set ns. map_of prev (ID n) \<noteq> None \<longrightarrow> ID n \<in> set (ids (t_nodes d))"
  shows "\<exists>rows'. apply_deltas now m (concat (map (DiffFlat_step prev) ns)) d = Inr (d\<lparr>t_nodes := rows'\<rparr>)
    \<and> nodes_ok rows' \<and> applied prev ns (t_nodes d) rows'
    \<and> set (ids rows') = set (ids (t_nodes d)) \<union> ID ` set ns"
  using assms
proof (induction ns arbitrary: d K)
  case Nil
  then show ?case by (intro exI [of _ "t_nodes d"]) (simp add: applied_def)
next
  case (Cons n ns)
  let ?rows = "t_nodes d"
  from Cons.prems(3) obtain cs where m: "m (ID n) = Some (CNode n cs)" by (auto simp: tree_map_def)
  have par: "ParentID n = [] \<or> ParentID n \<in> set (ids ?rows)" using Cons.prems(4,5) by auto
  have rest: "distinct (map ID ns)" "tree_map m ns" "parents_first (insert (ID n) K) ns" "ID n \<notin> ID ` set ns"
    using Cons.prems(2-4) by (auto simp: tree_map_def)
  show ?case
  proof (cases prev n rule: DiffFlat_step_cases)
    case 1
    then have "ID n \<in> set (ids ?rows)" using Cons.prems(6) by simp
    then obtain rows' where r: "apply_deltas now m (concat (map (DiffFlat_step prev) ns)) d = Inr (d\<lparr>t_nodes := rows'\<rparr>)"
      "nodes_ok rows'" "applied prev ns ?rows rows'" "set (ids rows') = set (ids ?rows) \<union> ID ` set ns"
      using Cons.IH [OF Cons.prems(1) rest(1-3)] Cons.prems(5,6) by auto
    have "{k \<in> set (n # ns). DiffFlat_step prev k \<noteq> []} = {k \<in> set ns. DiffFlat_step prev k \<noteq> []}"
      using 1(1) by auto
    then have "applied prev (n # ns) ?rows rows'" using r(3) 1(1) by (simp add: applied_def)
    then show ?thesis using r 1(1) \<open>ID n \<in> set (ids ?rows)\<close> by (intro exI [of _ rows']) auto
  next
    case (2 dl)
    let ?rows1 = "upsert_rows now (nodeFromContext n) ?rows"
    let ?d1 = "d\<lparr>t_nodes := ?rows1\<rparr>"
    have s1: "apply_deltas now m [dl] d = Inr ?d1" by (rule upsert_step) (use 2(2,3) m par in auto)
    have ids1: "set (ids ?rows1) = insert (ID n) (set (ids ?rows))" by (auto simp: ids_upsert_rows)
    have ok1: "nodes_ok ?rows1"
      by (rule nodes_ok_upsert [OF Cons.prems(1)]) (use par in \<open>auto simp: ids1\<close>)
    from Cons.IH [OF _ rest(1-3), of ?d1] ok1 ids1 Cons.prems(5,6)
    obtain rows' where r: "apply_deltas now m (concat (map (DiffFlat_step prev) ns)) ?d1 = Inr (?d1\<lparr>t_nodes := rows'\<rparr>)"
      "nodes_ok rows'" "applied prev ns ?rows1 rows'" "set (ids rows') = set (ids ?rows1) \<union> ID ` set ns" by auto
    have "applied prev (n # ns) ?rows rows'"
      unfolding applied_def
    proof (intro conjI ballI allI impI)
      fix k assume k: "k \<in> set (n # ns)" "DiffFlat_step prev k \<noteq> []"
      show "\<exists>r. get_row rows' (ID k) = Some r \<and> row_of k r"
      proof (cases "k = n")
        case True
        have "get_row rows' (ID n) = get_row ?rows1 (ID n)"
          using r(3) rest(4) unfolding applied_def by blast
        then show ?thesis using True row_of_upsert by simp
      next
        case False
        with k r(3) show ?thesis by (auto simp: applied_def)
      qed
    next
      fix i assume i: "i \<notin> ID ` {k \<in> set (n # ns). DiffFlat_step prev k \<noteq> []}"
      with 2(1) have "i \<noteq> ID n" by auto
      with i r(3) show "get_row rows' i = get_row ?rows i"
        by (auto simp: applied_def get_row_upsert)
    qed
    moreover have "apply_deltas now m (concat (map (DiffFlat_step prev) (n # ns))) d = Inr (d\<lparr>t_nodes := rows'\<rparr>)"
      using apply_deltas_append [of now m "[dl]" "concat (map (DiffFlat_step prev) ns)" d] s1 r(1) 2(1) by simp
    ultimately show ?thesis using r(2,4) ids1 by auto
  qed
qed

section \<open>The removals\<close>

lemma delete_list:
  "nodes_ok rows \<Longrightarrow> nodes_ok (foldl (\<lambda>rows i. delete_cascade [i] rows) rows is)
     \<and> set (foldl (\<lambda>rows i. delete_cascade [i] rows) rows is) \<subseteq> set rows
     \<and> (\<forall>j. j \<in> set is \<longrightarrow> get_row (foldl (\<lambda>rows i. delete_cascade [i] rows) rows is) j = None)
     \<and> (\<forall>j. \<not> below rows (set is) j \<longrightarrow> get_row (foldl (\<lambda>rows i. delete_cascade [i] rows) rows is) j = get_row rows j)"
proof (induction "is" arbitrary: rows)
  case (Cons i "is")
  let ?rows1 = "delete_cascade [i] rows"
  let ?rows2 = "foldl (\<lambda>rows i. delete_cascade [i] rows) ?rows1 is"
  have ok1: "nodes_ok ?rows1" using Cons.prems by (rule nodes_ok_delete)
  note IH = Cons.IH [OF ok1]
  have sub1: "set ?rows1 \<subseteq> set rows" by (rule delete_cascade_subset)
  have gone: "get_row ?rows2 i = None"
  proof -
    have "i \<notin> set (ids ?rows1)" by (rule delete_cascade_gone) simp
    with IH show ?thesis by (auto simp: get_row_None ids_def)
  qed
  have keep: "get_row ?rows2 j = get_row rows j" if j: "\<not> below rows (set (i # is)) j" for j
  proof -
    have "\<not> below ?rows1 (set is) j"
      using j below_mono [OF _ sub1, of "set is" j "set (i # is)"] by (auto intro: below_base)
    moreover have "\<not> below rows {i} j"
      using j below_mono [of rows "{i}" j rows "set (i # is)"] by (auto intro: below_base)
    ultimately show ?thesis using IH delete_one [OF Cons.prems, of i j] by simp
  qed
  from IH sub1 gone keep show ?case by auto
qed simp

lemma apply_removals:
  "\<forall>dl \<in> set ds. Op dl = OpRem \<Longrightarrow>
    apply_deltas now m ds d = Inr (d\<lparr>t_nodes := foldl (\<lambda>rows i. delete_cascade [i] rows) (t_nodes d) (map NodeID ds)\<rparr>)"
  by (induction ds arbitrary: d) (auto simp: op_defs DeleteNodeTx_def)

section \<open>The emitter implements the diff\<close>

definition Removed :: "node_data list \<Rightarrow> snapshot_map \<Rightarrow> string list" where
  "Removed flat prev = sort (filter (\<lambda>i. i \<notin> ID ` set flat) (map fst prev))"

lemma DiffFlat_split:
  "\<exists>rems. DiffFlat flat prev = concat (map (DiffFlat_step prev) flat) @ rems
     \<and> (\<forall>dl \<in> set rems. Op dl = OpRem) \<and> map NodeID rems = Removed flat prev"
  unfolding DiffFlat_def Let_def Removed_def
  by (intro exI conjI, rule refl) (simp_all add: comp_def)

text \<open>What the emitter relies on: the previous state is what the table holds, and a known node has
  not changed its parent (its identifier is a hash of the parent's).\<close>

definition prev_of_table :: "snapshot_map \<Rightarrow> row list \<Rightarrow> bool" where
  "prev_of_table prev rows \<longleftrightarrow> (\<forall>(i, st) \<in> set prev. view rows i = Some st)"

definition parents_stable :: "node_data list \<Rightarrow> snapshot_map \<Rightarrow> row list \<Rightarrow> bool" where
  "parents_stable flat prev rows \<longleftrightarrow>
     (\<forall>n \<in> set flat. ID n \<in> fst ` set prev \<longrightarrow>
        map_option c_parent_id (get_row rows (ID n)) = Some (parentIDParam (ParentID n)))"

lemma prev_of_tableD: "prev_of_table prev rows \<Longrightarrow> map_of prev i = Some st \<Longrightarrow> view rows i = Some st"
  by (auto simp: prev_of_table_def dest: map_of_SomeD)

lemma parents_first_in_flat:
  "parents_first K ns \<Longrightarrow> n \<in> set ns \<Longrightarrow> ParentID n = [] \<or> ParentID n \<in> K \<union> ID ` set ns"
  by (induction ns arbitrary: K) auto

lemma not_below_removed:
  assumes rows: "\<And>r. r \<in> set rows \<Longrightarrow> c_id r \<in> D \<Longrightarrow> (case c_parent_id r of None \<Rightarrow> True | Some p \<Rightarrow> p \<in> D)"
    and "S \<inter> D = {}"
  shows "below rows S i \<Longrightarrow> i \<notin> D"
proof (induction rule: below.induct)
  case (below_base i)
  with assms(2) show ?case by blast
next
  case (below_step r p)
  with rows show ?case by fastforce
qed

lemma applied_up:
  assumes "distinct (map ID flat)" "prev_of_table prev rows" "parents_stable flat prev rows" "hash_faithful flat prev"
    and "applied prev flat rows rows1" "n \<in> set flat"
  shows "\<exists>r. get_row rows1 (ID n) = Some r \<and> row_of n r"
proof (cases prev n rule: DiffFlat_step_cases)
  case 1
  then obtain old where old: "map_of prev (ID n) = Some old" by blast
  with 1(1) have "StHash old = Hash n" by (simp add: DiffFlat_step_def split: if_splits)
  with hash_faithfulD [OF assms(4,6) old] have "old = state_of n" by simp
  with prev_of_tableD [OF assms(2) old] obtain r where r: "get_row rows (ID n) = Some r" "row_state r = state_of n"
    by (auto simp: view_def)
  have "ID n \<in> fst ` set prev" using old by (metis domI dom_map_of_conv_image_fst)
  with assms(3,6) r(1) have "c_parent_id r = parentIDParam (ParentID n)" by (auto simp: parents_stable_def)
  moreover have "ID n \<notin> ID ` {k \<in> set flat. DiffFlat_step prev k \<noteq> []}"
    using 1(1) assms(1,6) by (auto simp: distinct_map dest: inj_onD)
  then have "get_row rows1 (ID n) = get_row rows (ID n)" using assms(5) by (simp add: applied_def)
  ultimately show ?thesis using r by (simp add: row_of_def)
next
  case (2 dl)
  with assms(5,6) show ?thesis by (simp add: applied_def)
qed

lemma flat_closed:
  assumes "nodes_ok rows1" "parents_first {} flat"
    and up: "\<And>n. n \<in> set flat \<Longrightarrow> \<exists>r. get_row rows1 (ID n) = Some r \<and> row_of n r"
    and r: "r \<in> set rows1" "c_id r \<in> ID ` set flat"
  shows "case c_parent_id r of None \<Rightarrow> True | Some p \<Rightarrow> p \<in> ID ` set flat"
proof -
  from r(2) obtain k where k: "k \<in> set flat" "c_id r = ID k" by auto
  have "get_row rows1 (c_id r) = Some r" using assms(1) r(1) by (simp add: nodes_ok_def get_row_member)
  with up [OF k(1)] k(2) have "c_parent_id r = parentIDParam (ParentID k)" by (auto simp: row_of_def)
  with parents_first_in_flat [OF assms(2) k(1)] show ?thesis
    by (cases "ParentID k = []") simp_all
qed

lemma below_applied:
  assumes "nodes_ok rows1" "applied prev flat rows rows1"
    and safe: "\<And>i. i \<in> ID ` set flat \<Longrightarrow> \<not> below rows1 S i"
  shows "below rows1 S j \<Longrightarrow> below rows S j"
proof (induction rule: below.induct)
  case (below_step r p)
  have "c_id r \<notin> ID ` set flat" using safe below.below_step [OF below_step.hyps] by blast
  then have "get_row rows1 (c_id r) = get_row rows (c_id r)"
    using assms(2) by (auto simp: applied_def)
  moreover have "get_row rows1 (c_id r) = Some r"
    using assms(1) below_step.hyps(1) by (simp add: nodes_ok_def get_row_member)
  ultimately have "r \<in> set rows" using get_row_Some [of rows "c_id r" r] by simp
  then show ?case using below_step.hyps(2) below_step.IH by (rule below.below_step)
qed (rule below_base)

lemma apply_diff:
  assumes "nodes_ok (t_nodes d)" "distinct (map ID flat)" "tree_map m flat" "parents_first {} flat"
    and "prev_of_table prev (t_nodes d)" "parents_stable flat prev (t_nodes d)" "hash_faithful flat prev"
  shows "\<exists>rows'. apply_deltas now m (DiffFlat flat prev) d = Inr (d\<lparr>t_nodes := rows'\<rparr>) \<and> nodes_ok rows'
    \<and> (\<forall>n \<in> set flat. \<exists>r. get_row rows' (ID n) = Some r \<and> row_of n r)
    \<and> (\<forall>i \<in> fst ` set prev - ID ` set flat. get_row rows' i = None)
    \<and> (\<forall>i. i \<notin> ID ` set flat \<longrightarrow> \<not> below (t_nodes d) (fst ` set prev - ID ` set flat) i \<longrightarrow> get_row rows' i = get_row (t_nodes d) i)"
proof -
  let ?rows = "t_nodes d" and ?D = "ID ` set flat" and ?R = "Removed flat prev"
  have R: "set ?R = fst ` set prev - ?D" by (auto simp: Removed_def)
  have known: "\<forall>n \<in> set flat. map_of prev (ID n) \<noteq> None \<longrightarrow> ID n \<in> set (ids ?rows)"
  proof (intro ballI impI)
    fix n assume "map_of prev (ID n) \<noteq> None"
    with prev_of_tableD [OF assms(5)] have "get_row ?rows (ID n) \<noteq> None" by (auto simp: view_def)
    then show "ID n \<in> set (ids ?rows)" unfolding get_row_None by simp
  qed
  obtain rows1 where r1: "apply_deltas now m (concat (map (DiffFlat_step prev) flat)) d = Inr (d\<lparr>t_nodes := rows1\<rparr>)"
    "nodes_ok rows1" "applied prev flat ?rows rows1" "set (ids rows1) = set (ids ?rows) \<union> ?D"
    using apply_steps [OF assms(1-4) empty_subsetI known, of now] by (elim exE conjE) (rule that)
  note up = applied_up [OF assms(2,5,6,7) r1(3)]
  let ?rows2 = "foldl (\<lambda>rows i. delete_cascade [i] rows) rows1 ?R"
  note del = delete_list [OF r1(2), of ?R]
  have safe: "\<not> below rows1 (set ?R) i" if "i \<in> ?D" for i
  proof
    assume b: "below rows1 (set ?R) i"
    have "i \<notin> ?D"
      by (rule not_below_removed [OF flat_closed [OF r1(2) assms(4) up] _ b]) (auto simp: R)
    with that show False by simp
  qed
  obtain rems where rems: "DiffFlat flat prev = concat (map (DiffFlat_step prev) flat) @ rems"
    "\<forall>dl \<in> set rems. Op dl = OpRem" "map NodeID rems = ?R"
    using DiffFlat_split [of flat prev] by (elim exE conjE) (rule that)
  have 1: "apply_deltas now m (DiffFlat flat prev) d = Inr (d\<lparr>t_nodes := ?rows2\<rparr>)"
    unfolding rems(1) apply_deltas_append r1(1) using apply_removals [OF rems(2)] rems(3) by simp
  have 3: "\<exists>r. get_row ?rows2 (ID n) = Some r \<and> row_of n r" if n: "n \<in> set flat" for n
  proof -
    have "get_row ?rows2 (ID n) = get_row rows1 (ID n)" using del safe [of "ID n"] n by simp
    with up [OF n] show ?thesis by simp
  qed
  have 4: "get_row ?rows2 i = None" if "i \<in> fst ` set prev - ?D" for i
    using del that unfolding R [symmetric] by simp
  have 5: "get_row ?rows2 i = get_row ?rows i" if i: "i \<notin> ?D" "\<not> below ?rows (fst ` set prev - ?D) i" for i
  proof -
    have "\<not> below rows1 (set ?R) i" using i(2) below_applied [OF r1(2,3) safe] R by metis
    with del have "get_row ?rows2 i = get_row rows1 i" by simp
    also have "\<dots> = get_row ?rows i" using r1(3) i(1) by (auto simp: applied_def)
    finally show ?thesis .
  qed
  have 2: "nodes_ok ?rows2" using del by simp
  show ?thesis
    by (rule exI [of _ ?rows2]) (intro conjI ballI allI impI 1 2 3 4 5)
qed

section \<open>The whole transaction\<close>

definition delta_of :: "diff_row \<Rightarrow> Delta" where
  "delta_of r = \<lparr>NodeID = d_node_id r, OldHash = d_old_hash r, NewHash = d_new_hash r,
     OldContent = d_old_content r, NewContent = d_new_content r, Op = d_op r\<rparr>"

lemma insert_diffs_total:
  "i \<in> s_id ` set (t_snapshots d) \<Longrightarrow>
    \<exists>d' rs. insert_diffs i ds d = Inr d' \<and> t_diffs d' = t_diffs d @ rs \<and> map delta_of rs = ds
      \<and> (\<forall>r \<in> set rs. d_snapshot_id r = i) \<and> t_nodes d' = t_nodes d \<and> t_snapshots d' = t_snapshots d
      \<and> t_head d' = t_head d"
proof (induction ds arbitrary: d)
  case Nil
  then show ?case by simp
next
  case (Cons dl ds)
  let ?r = "\<lparr>d_id = seq_diffs d + 1, d_snapshot_id = i, d_node_id = NodeID dl, d_op = Op dl,
    d_old_hash = OldHash dl, d_new_hash = NewHash dl, d_old_content = OldContent dl, d_new_content = NewContent dl\<rparr>"
  let ?d1 = "d\<lparr>t_diffs := t_diffs d @ [?r], seq_diffs := seq_diffs d + 1\<rparr>"
  have ins: "InsertDiffTx (diff_record i dl) d = Inr ?d1"
    using Cons.prems by (simp add: InsertDiffTx_def diff_record_def Let_def)
  from Cons.IH [of ?d1] Cons.prems obtain d' rs where
    "insert_diffs i ds ?d1 = Inr d'" "t_diffs d' = t_diffs ?d1 @ rs" "map delta_of rs = ds"
    "\<forall>r \<in> set rs. d_snapshot_id r = i" "t_nodes d' = t_nodes d" "t_snapshots d' = t_snapshots d" "t_head d' = t_head d"
    by auto
  moreover have "delta_of ?r = dl" by (simp add: delta_of_def)
  ultimately show ?case using ins by (intro exI [of _ d'] exI [of _ "?r # rs"]) simp
qed

lemma record_transaction:
  assumes "h \<notin> s_cursor_hash ` set (t_snapshots d)" "apply_deltas now (buildNodeMap roots) ds d = Inr (d\<lparr>t_nodes := rows'\<rparr>)"
  shows "\<exists>d' s rs. emit_body now roots ds h m r d = Inr d' \<and> t_nodes d' = rows'
    \<and> t_snapshots d' = t_snapshots d @ [s] \<and> s_cursor_hash s = h \<and> s_parent_id s = t_head d
    \<and> s_message s = m \<and> s_compile_root s = r \<and> t_head d' = Some (s_id s) \<and> t_diffs d' = t_diffs d @ rs \<and> map delta_of rs = ds
    \<and> (\<forall>x \<in> set rs. d_snapshot_id x = s_id s)"
proof -
  let ?i = "seq_snapshots d + 1"
  let ?s = "\<lparr>s_id = ?i, s_cursor_hash = h, s_parent_id = t_head d, s_message = m, s_compile_root = r, s_created_at = now\<rparr>"
  let ?d2 = "d\<lparr>t_nodes := rows', t_snapshots := t_snapshots d @ [?s], seq_snapshots := ?i\<rparr>"
  have c: "CreateSnapshotTx now h m r (d\<lparr>t_nodes := rows'\<rparr>) = Inr (?i, ?d2)"
    using assms(1) by (simp add: CreateSnapshotTx_def Let_def)
  obtain d3 rs where i: "insert_diffs ?i ds ?d2 = Inr d3" "t_diffs d3 = t_diffs d @ rs" "map delta_of rs = ds"
    "\<forall>x \<in> set rs. d_snapshot_id x = ?i" "t_nodes d3 = rows'" "t_snapshots d3 = t_snapshots d @ [?s]"
    using insert_diffs_total [of ?i ?d2 ds] by auto
  have a: "AdvanceCursorTx ?i d3 = Inr (d3\<lparr>t_head := Some ?i\<rparr>)"
    using i(6) by (simp add: AdvanceCursorTx_def)
  have "emit_body now roots ds h m r d = Inr (d3\<lparr>t_head := Some ?i\<rparr>)"
    by (simp add: emit_body_def assms(2) c i(1) a)
  then show ?thesis
    by (rule_tac exI [of _ "d3\<lparr>t_head := Some ?i\<rparr>"], rule_tac exI [of _ ?s], rule_tac exI [of _ rs]) (simp add: i)
qed

definition emit_ready :: "ContextNode list \<Rightarrow> snapshot_map \<Rightarrow> string \<Rightarrow> db \<Rightarrow> bool" where
  \<comment> \<open>what a compilation establishes before it emits\<close>
  "emit_ready roots prev cursorHash d \<longleftrightarrow>
     db_ok d \<and> distinct (map ID (flat_data roots)) \<and> parents_first {} (flat_data roots)
     \<and> prev_of_table prev (t_nodes d) \<and> parents_stable (flat_data roots) prev (t_nodes d)
     \<and> hash_faithful (flat_data roots) prev
     \<and> cursorHash \<notin> s_cursor_hash ` set (t_snapshots d)"

lemma emit_effect:
  assumes "emit_ready roots prev h d"
  shows "\<exists>d'. emit_body now roots (Diff roots prev) h m r d = Inr d' \<and> db_ok d'
    \<and> (\<forall>n \<in> set (flat_data roots). \<exists>x. get_row (t_nodes d') (ID n) = Some x \<and> row_of n x)
    \<and> (\<forall>n \<in> set (flat_data roots). view (t_nodes d') (ID n) = Some (state_of n))
    \<and> (\<forall>i \<in> fst ` set prev - ID ` set (flat_data roots). view (t_nodes d') i = None)
    \<and> (\<forall>i. i \<notin> ID ` set (flat_data roots) \<longrightarrow>
          \<not> below (t_nodes d) (fst ` set prev - ID ` set (flat_data roots)) i \<longrightarrow>
          view (t_nodes d') i = view (t_nodes d) i)
    \<and> (\<exists>s rs. t_snapshots d' = t_snapshots d @ [s] \<and> s_cursor_hash s = h \<and> s_parent_id s = t_head d
          \<and> s_message s = m \<and> s_compile_root s = r
          \<and> t_head d' = Some (s_id s) \<and> t_diffs d' = t_diffs d @ rs \<and> map delta_of rs = Diff roots prev
          \<and> (\<forall>x \<in> set rs. d_snapshot_id x = s_id s))"
proof -
  note ready = assms [unfolded emit_ready_def]
  have ok: "nodes_ok (t_nodes d)" using ready by (simp add: db_ok_def)
  have tree: "tree_map (buildNodeMap roots) (flat_data roots)" using ready by (simp add: buildNodeMap_tree)
  obtain rows' where rows: "apply_deltas now (buildNodeMap roots) (Diff roots prev) d = Inr (d\<lparr>t_nodes := rows'\<rparr>)"
    "\<forall>n \<in> set (flat_data roots). \<exists>r. get_row rows' (ID n) = Some r \<and> row_of n r"
    "\<forall>i \<in> fst ` set prev - ID ` set (flat_data roots). get_row rows' i = None"
    "\<forall>i. i \<notin> ID ` set (flat_data roots) \<longrightarrow> \<not> below (t_nodes d) (fst ` set prev - ID ` set (flat_data roots)) i \<longrightarrow> get_row rows' i = get_row (t_nodes d) i"
    using apply_diff [OF ok _ tree, of prev now] ready unfolding Diff_def by (elim conjE) (auto simp del: apply_deltas.simps)
  obtain d' s rs where d': "emit_body now roots (Diff roots prev) h m r d = Inr d'" "t_nodes d' = rows'"
    and rec: "t_snapshots d' = t_snapshots d @ [s] \<and> s_cursor_hash s = h \<and> s_parent_id s = t_head d
      \<and> s_message s = m \<and> s_compile_root s = r
      \<and> t_head d' = Some (s_id s) \<and> t_diffs d' = t_diffs d @ rs \<and> map delta_of rs = Diff roots prev
      \<and> (\<forall>x \<in> set rs. d_snapshot_id x = s_id s)"
    using record_transaction [OF _ rows(1), of h m r] ready by (elim conjE) auto
  have "db_ok d'" using emit_body_ok [OF _ d'(1)] ready by simp
  moreover have "\<forall>n \<in> set (flat_data roots). view (t_nodes d') (ID n) = Some (state_of n)"
    using rows(2) d'(2) by (fastforce simp: view_def row_of_def)
  moreover have "\<forall>i \<in> fst ` set prev - ID ` set (flat_data roots). view (t_nodes d') i = None"
    using rows(3) d'(2) by (simp add: view_def)
  moreover have "\<forall>i. i \<notin> ID ` set (flat_data roots) \<longrightarrow>
          \<not> below (t_nodes d) (fst ` set prev - ID ` set (flat_data roots)) i \<longrightarrow>
          view (t_nodes d') i = view (t_nodes d) i"
    using rows(4) d'(2) by (simp add: view_def)
  moreover have "\<forall>n \<in> set (flat_data roots). \<exists>x. get_row (t_nodes d') (ID n) = Some x \<and> row_of n x"
    using rows(2) d'(2) by simp
  ultimately show ?thesis using d'(1) rec by (intro exI [of _ d'] conjI exI [of _ s] exI [of _ rs]) simp_all
qed

lemma Emit_fair: "emit_body now roots ds h m r d = Inr d' \<Longrightarrow> ds \<noteq> [] \<Longrightarrow> Emit fair_env e now roots ds h m r d = (None, d')"
  by (simp add: Emit_def Tx_fair)

text \<open>C3: the emitter brings the nodes table to the new forest. On an engine that does not refuse,
  emitting a diff succeeds; afterwards every node of the forest is stored with its hash and content,
  every node the diff removed is gone, a row that neither is touched by the diff nor sits below a
  removed node is as before, the database invariant holds, and one snapshot was appended that hangs off
  the old head, holds exactly the deltas and is the new head.\<close>

theorem Emit_implements_diff:
  assumes "emit_ready roots prev cursorHash d" "Diff roots prev \<noteq> []"
  shows "\<exists>d'. Emit fair_env ctxErr now roots (Diff roots prev) cursorHash message compileRoot d = (None, d')
    \<and> db_ok d'
    \<and> (\<forall>n \<in> set (flat_data roots). view (t_nodes d') (ID n) = Some (state_of n))
    \<and> (\<forall>i \<in> fst ` set prev - ID ` set (flat_data roots). view (t_nodes d') i = None)
    \<and> (\<forall>i. i \<notin> ID ` set (flat_data roots) \<longrightarrow>
          \<not> below (t_nodes d) (fst ` set prev - ID ` set (flat_data roots)) i \<longrightarrow>
          view (t_nodes d') i = view (t_nodes d) i)
    \<and> (\<exists>s rs. t_snapshots d' = t_snapshots d @ [s] \<and> s_cursor_hash s = cursorHash
          \<and> s_parent_id s = t_head d \<and> s_message s = message \<and> s_compile_root s = compileRoot
          \<and> t_head d' = Some (s_id s)
          \<and> t_diffs d' = t_diffs d @ rs \<and> map delta_of rs = Diff roots prev
          \<and> (\<forall>x \<in> set rs. d_snapshot_id x = s_id s))"
  using emit_effect [OF assms(1), of now message compileRoot]
  by (elim exE conjE, rule_tac x = d' in exI, intro conjI)
     (rule Emit_fair [OF _ assms(2)], assumption+, (rule_tac x = s in exI, rule_tac x = rs in exI, intro conjI; assumption))

definition one_node :: "string \<Rightarrow> ContextNode list" where
  "one_node txt = [CNode (zero_data\<lparr>ID := ''a'', Hash := txt, Content := txt\<rparr>) []]"

lemma emit_ready_fresh: "emit_ready (one_node txt) [] ''c1'' empty_db"
  by (simp add: emit_ready_def db_ok_empty one_node_def zero_data_def prev_of_table_def parents_stable_def hash_faithful_def)
     (simp add: empty_db_def)

theorem Emit_implements_diff_witness:
  "\<exists>d'. Emit fair_env NoRows 0 (one_node ''t'') (Diff (one_node ''t'') []) ''c1'' [] [] empty_db = (None, d')
     \<and> view (t_nodes d') ''a'' = Some \<lparr>StHash = ''t'', StContent = ''t''\<rparr>"
proof -
  have "Diff (one_node ''t'') [] \<noteq> []" by (simp add: Diff_def DiffFlat_def DiffFlat_step_def one_node_def)
  from Emit_implements_diff [OF emit_ready_fresh this] show ?thesis
    by (fastforce simp: one_node_def state_of_def)
qed

lemma emit_all_or_nothing:
  assumes "Emit env ctxErr now roots deltas h m r d = (res, d')"
  shows "(res \<noteq> None \<longrightarrow> d' = d)
    \<and> (res = None \<longrightarrow> deltas \<noteq> [] \<longrightarrow> emit_body now roots deltas h m r d = Inr d')
    \<and> (deltas = [] \<longrightarrow> res = None \<and> d' = d)"
proof (cases "deltas = []")
  case True
  with assms show ?thesis by (simp add: Emit_def)
next
  case False
  obtain n where t: "Tx env ctxErr (emit_body now roots deltas h m r) d = (res, d', n)"
    using assms False by (auto simp: Emit_def split: prod.splits)
  from Tx_atomic [OF t] False show ?thesis by auto
qed

text \<open>Emitting is atomic: whatever the engine does, either the emitter reports an error and the
  database is what it was, or it reports none and the whole transaction was applied; either way the
  invariant of the database is kept, and an empty diff touches nothing.\<close>

theorem Emit_atomic:
  assumes "db_ok d" "Emit env ctxErr now roots deltas h m r d = (res, d')"
  shows "db_ok d' \<and> (res \<noteq> None \<longrightarrow> d' = d)
    \<and> (res = None \<longrightarrow> deltas \<noteq> [] \<longrightarrow> emit_body now roots deltas h m r d = Inr d')
    \<and> (deltas = [] \<longrightarrow> res = None \<and> d' = d)"
proof (cases "deltas = []")
  case True
  with assms show ?thesis by (simp add: Emit_def)
next
  case False
  obtain n where t: "Tx env ctxErr (emit_body now roots deltas h m r) d = (res, d', n)"
    using assms(2) False by (auto simp: Emit_def split: prod.splits)
  have "db_ok d'" using emit.Tx_ok [OF assms(1), of env ctxErr now roots deltas h m r] t by simp
  with Tx_atomic [OF t] False show ?thesis by auto
qed

theorem Emit_atomic_witness:
  "db_ok (snd (Emit fair_env NoRows 0 [] [\<lparr>NodeID = ''x'', OldHash = [], NewHash = [], OldContent = [], NewContent = [], Op = OpAdd\<rparr>] [] [] [] empty_db))"
  using Emit_atomic [OF db_ok_empty] by (metis prod.collapse)

lemma repeated_state_fails:
  assumes "cursorHash \<in> s_cursor_hash ` set (t_snapshots d)" "deltas \<noteq> []"
  shows "\<exists>err. Emit env ctxErr now roots deltas cursorHash m r d = (Some err, d)"
proof -
  have "\<exists>err. emit_body now roots deltas cursorHash m r d = Inl err"
  proof (cases "apply_deltas now (buildNodeMap roots) deltas d")
    case (Inr d1)
    with apply_deltas_history have "t_snapshots d1 = t_snapshots d" by (metis db.select_convs(2) db.surjective db.update_convs(1))
    with assms(1) Inr show ?thesis by (simp add: emit_body_def CreateSnapshotTx_def)
  qed (simp add: emit_body_def)
  then obtain err where e: "emit_body now roots deltas cursorHash m r d = Inl err" ..
  obtain res d' n where t: "Tx env ctxErr (emit_body now roots deltas cursorHash m r) d = (res, d', n)"
    by (cases "Tx env ctxErr (emit_body now roots deltas cursorHash m r) d") auto
  with Tx_atomic [OF t] e assms(2) show ?thesis by (auto simp: Emit_def)
qed

text \<open>A state cannot be recorded twice: when some snapshot already carries the cursor hash and
  there is anything to emit, the emitter fails and changes nothing, whatever the engine does, because
  the schema declares the cursor hash unique. Returning to an earlier state is such a case.\<close>

theorem Emit_repeated_state_fails:
  assumes "cursorHash \<in> s_cursor_hash ` set (t_snapshots d)" "deltas \<noteq> []"
  shows "\<exists>err. Emit env ctxErr now roots deltas cursorHash m r d = (Some err, d)"
  using repeated_state_fails [OF assms] .

theorem Emit_repeated_state_fails_witness:
  "\<exists>err. Emit fair_env NoRows 0 (one_node ''t'') (Diff (one_node ''t'') []) ''c1'' [] []
     (empty_db\<lparr>t_snapshots := [\<lparr>s_id = 1, s_cursor_hash = ''c1'', s_parent_id = None, s_message = [], s_compile_root = [], s_created_at = 0\<rparr>]\<rparr>)
   = (Some err, empty_db\<lparr>t_snapshots := [\<lparr>s_id = 1, s_cursor_hash = ''c1'', s_parent_id = None, s_message = [], s_compile_root = [], s_created_at = 0\<rparr>]\<rparr>)"
  by (rule Emit_repeated_state_fails)
     (simp_all add: Diff_def DiffFlat_def DiffFlat_step_def one_node_def)

lemma emit_body_nodes:
  assumes "db_ok d" "emit_body now roots ds h m r d = Inr d'"
  shows "\<exists>d1. apply_deltas now (buildNodeMap roots) ds d = Inr d1 \<and> t_nodes d' = t_nodes d1"
proof -
  from assms(2) obtain d1 i d2 d3 where e: "apply_deltas now (buildNodeMap roots) ds d = Inr d1"
    "CreateSnapshotTx now h m r d1 = Inr (i, d2)" "insert_diffs i ds d2 = Inr d3" "AdvanceCursorTx i d3 = Inr d'"
    by (auto simp: emit_body_def bindR_Inr_iff)
  have "db_ok d1" by (rule apply_deltas_ok [OF assms(1) e(1)])
  then have "history_ok d2" using history_ok_snapshot e(2) by (simp add: db_ok_def) blast
  then have "t_nodes d3 = t_nodes d2" using insert_diffs_ok [OF _ e(3)] by blast
  then have "t_nodes d' = t_nodes d1" using nodes_same(1) [OF e(2)] nodes_same(3) [OF e(4)] by simp
  with e(1) show ?thesis by blast
qed

lemma apply_deltas_rows:
  assumes "apply_deltas now m ds d = Inr d'"
    and "\<forall>dl \<in> set ds. \<forall>cn rows. m (NodeID dl) = Some cn \<longrightarrow> (\<forall>r \<in> set rows. P r) \<longrightarrow>
      (\<forall>r \<in> set (upsert_rows now (nodeFromContext (nd cn)) rows). P r)"
    and "\<forall>r \<in> set (t_nodes d). P r"
  shows "\<forall>r \<in> set (t_nodes d'). P r"
  using assms
proof (induction now m ds d rule: apply_deltas.induct)
  case (2 now m dl ds d)
  note keep = "2.prems"(2)
  then have keep': "\<forall>dl \<in> set ds. \<forall>cn rows. m (NodeID dl) = Some cn \<longrightarrow> (\<forall>r \<in> set rows. P r) \<longrightarrow>
      (\<forall>r \<in> set (upsert_rows now (nodeFromContext (nd cn)) rows). P r)" by simp
  show ?case
  proof (cases "Op dl = OpAdd \<or> Op dl = OpMod")
    case True
    with "2.prems"(1) obtain cn d1 where cn: "m (NodeID dl) = Some cn"
      and up: "UpsertNodeTx now (nodeFromContext (nd cn)) d = Inr d1" "apply_deltas now m ds d1 = Inr d'"
      by (cases "m (NodeID dl)") (auto simp: bindR_Inr_iff)
    have "\<forall>r \<in> set (t_nodes d1). P r"
      using up(1) keep cn "2.prems"(3) by (simp add: UpsertNodeTx_Inr)
    from "2.IH"(1) [OF True cn up(2) keep' this] show ?thesis by blast
  next
    case False
    have "\<forall>r \<in> set (t_nodes (DeleteNodeTx (NodeID dl) d)). P r"
      using "2.prems"(3) delete_cascade_subset by (auto simp: DeleteNodeTx_def)
    then have del: "\<forall>r \<in> set (t_nodes (DeleteNodeTx (NodeID dl) d)). P r" .
    show ?thesis
    proof (cases "Op dl = OpRem")
      case True
      from "2.prems"(1) [unfolded apply_deltas.simps if_not_P [OF False] if_P [OF True]]
      have "apply_deltas now m ds (DeleteNodeTx (NodeID dl) d) = Inr d'" .
      from "2.IH"(2) [OF False True this keep' del] show ?thesis .
    next
      case other: False
      with False "2.prems"(1) have "apply_deltas now m ds d = Inr d'" by simp
      from "2.IH"(3) [OF False other this keep' "2.prems"(3)] show ?thesis .
    qed
  qed
qed simp

lemma buildNodeMap_Some: "buildNodeMap ns i = Some cn \<Longrightarrow> nd cn \<in> set (flat_data ns) \<and> ID (nd cn) = i"
proof -
  assume "buildNodeMap ns i = Some cn"
  then have i: "FlattenMap ns i = Some cn" by (simp add: buildNodeMap_def)
  have "foldl (\<lambda>m n. m(ID (nd n) \<mapsto> n)) m xs j = Some y \<Longrightarrow> m j = Some y \<or> y \<in> set xs \<and> ID (nd y) = j" for m xs j y
  proof (induction xs arbitrary: m)
    case (Cons a xs)
    from Cons.IH [of "m(ID (nd a) \<mapsto> a)"] Cons.prems show ?case by (auto split: if_splits)
  qed simp
  from this [of Map.empty "Flatten ns" i cn] i show ?thesis
    by (simp add: FlattenMap_def flat_data_def)
qed

lemma emit_body_rows:
  assumes "db_ok d" "emit_body now roots ds h m r d = Inr d'"
    and "\<And>n rows x. n \<in> set (flat_data roots) \<Longrightarrow> ID n \<in> NodeID ` set ds \<Longrightarrow> \<forall>x \<in> set rows. P x \<Longrightarrow>
      x \<in> set (upsert_rows now (nodeFromContext n) rows) \<Longrightarrow> P x"
    and "\<forall>x \<in> set (t_nodes d). P x"
  shows "\<forall>x \<in> set (t_nodes d'). P x"
proof -
  from emit_body_nodes [OF assms(1,2)] obtain d1 where a: "apply_deltas now (buildNodeMap roots) ds d = Inr d1"
    "t_nodes d' = t_nodes d1" by blast
  have "\<forall>x \<in> set (t_nodes d1). P x"
  proof (rule apply_deltas_rows [OF a(1) _ assms(4)])
    show "\<forall>dl \<in> set ds. \<forall>cn rows. buildNodeMap roots (NodeID dl) = Some cn \<longrightarrow> (\<forall>x \<in> set rows. P x) \<longrightarrow>
        (\<forall>x \<in> set (upsert_rows now (nodeFromContext (nd cn)) rows). P x)"
    proof (intro ballI allI impI)
      fix dl cn rows x
      assume "dl \<in> set ds" "buildNodeMap roots (NodeID dl) = Some cn" "\<forall>x \<in> set rows. P x"
        "x \<in> set (upsert_rows now (nodeFromContext (nd cn)) rows)"
      moreover from this(2) have "nd cn \<in> set (flat_data roots)" "ID (nd cn) = NodeID dl" by (auto dest: buildNodeMap_Some)
      ultimately show "P x" by (intro assms(3) [of "nd cn" rows x]) auto
    qed
  qed
  with a(2) show ?thesis by simp
qed

lemma emit_body_records:
  assumes "db_ok d" "emit_body now roots ds h m r d = Inr d'"
  shows "\<exists>s rs. t_snapshots d' = t_snapshots d @ [s] \<and> s_compile_root s = r
    \<and> (\<forall>s' \<in> set (t_snapshots d). s_id s' < s_id s)
    \<and> t_diffs d' = t_diffs d @ rs \<and> map delta_of rs = ds \<and> (\<forall>x \<in> set rs. d_snapshot_id x = s_id s)"
proof -
  from assms(2) obtain d1 i d2 where a: "apply_deltas now (buildNodeMap roots) ds d = Inr d1" "CreateSnapshotTx now h m r d1 = Inr (i, d2)"
    by (auto simp: emit_body_def bindR_Inr_iff)
  have h1: "d1 = d\<lparr>t_nodes := t_nodes d1\<rparr>" by (rule apply_deltas_history [OF a(1)])
  then have "t_snapshots d1 = t_snapshots d" by (metis db.select_convs(2) db.surjective db.update_convs(1))
  with a(2) have "h \<notin> s_cursor_hash ` set (t_snapshots d)" by (simp add: CreateSnapshotTx_Inr)
  from record_transaction [OF this, of now roots ds "t_nodes d1" m r] a(1) h1 assms(2)
  obtain s rs where s: "t_snapshots d' = t_snapshots d @ [s]" "s_compile_root s = r"
    "t_diffs d' = t_diffs d @ rs" "map delta_of rs = ds" "\<forall>x \<in> set rs. d_snapshot_id x = s_id s" by auto
  have "\<forall>s' \<in> set (t_snapshots d). s_id s' < s_id s"
    using emit_body_ok [OF assms] s(1) by (auto simp: db_ok_def history_ok_def chain_ok_append)
  with s show ?thesis by blast
qed

end
