(* ===== verification/StoreOps.thy ===== *)
theory StoreOps
  imports Tx "HOL-Library.Product_Lexorder"
begin

text \<open>
  The package \<open>pkg/store\<close>: the queries of \<open>node.go\<close>, \<open>snapshot.go\<close>, \<open>stats.go\<close> and the
  updates of \<open>temperature.go\<close>. Where a query has no \<open>ORDER BY\<close> its rows come in rowid order, and
  so do ties of one that has it; text compares bytewise.
\<close>

section \<open>Reading nodes\<close>

definition GetNode :: "db \<Rightarrow> string \<Rightarrow> error + Node" where
  "GetNode d i = (case get_row (t_nodes d) i of None \<Rightarrow> Inl NoRows | Some r \<Rightarrow> Inr (scanNode r))"

definition select_nodes :: "(row \<Rightarrow> bool) \<Rightarrow> db \<Rightarrow> Node list" where
  "select_nodes P d = map scanNode (filter P (t_nodes d))"

definition GetNodesByFile :: "db \<Rightarrow> string \<Rightarrow> Node list" where
  "GetNodesByFile d path = select_nodes (\<lambda>r. c_source_file r = path) d"

definition GetNodesByFiles :: "db \<Rightarrow> string list \<Rightarrow> Node list" where
  "GetNodesByFiles d paths =
     (if paths = [] then [] else select_nodes (\<lambda>r. c_source_file r \<in> set paths) d)"

definition GetChildren :: "db \<Rightarrow> string \<Rightarrow> Node list" where
  "GetChildren d parentID = select_nodes (\<lambda>r. c_parent_id r = Some parentID) d"

definition GetSiblings :: "db \<Rightarrow> string \<Rightarrow> Node list" where
  \<comment> \<open>comparing with the null parent of a root selects nothing\<close>
  "GetSiblings d i =
     (case get_row (t_nodes d) i of
        None \<Rightarrow> []
      | Some me \<Rightarrow>
          (case c_parent_id me of
             None \<Rightarrow> []
           | Some p \<Rightarrow> select_nodes (\<lambda>r. c_parent_id r = Some p \<and> c_id r \<noteq> i) d))"

definition GetRootNodes :: "db \<Rightarrow> Node list" where
  "GetRootNodes d =
     map scanNode (sort_key (\<lambda>r. (c_source_file r, c_depth r)) (filter (\<lambda>r. c_parent_id r = None) (t_nodes d)))"

definition GetAllNodes :: "db \<Rightarrow> Node list" where
  "GetAllNodes d = map scanNode (sort_key (\<lambda>r. (c_source_file r, c_depth r)) (t_nodes d))"

text \<open>The recursive query for ancestors follows the parents until one is null or missing; on a
  cycle it does not end.\<close>

partial_function (option) ancestors :: "row list \<Rightarrow> string \<Rightarrow> row list option" where
  "ancestors rows i =
     (case get_row rows i of
        None \<Rightarrow> Some []
      | Some r \<Rightarrow>
          (case c_parent_id r of
             None \<Rightarrow> Some [r]
           | Some p \<Rightarrow>
               Option.bind (ancestors rows p) (\<lambda>rs. Some (r # rs))))"

definition GetAncestors :: "db \<Rightarrow> string \<Rightarrow> Node list option" where
  "GetAncestors d i = map_option (map scanNode) (ancestors (t_nodes d) i)"

text \<open>The recursive query for descendants starts with the children at level 1, whatever the bound,
  and adds the children of a level below the bound.\<close>

fun desc_levels :: "row list \<Rightarrow> string list \<Rightarrow> nat \<Rightarrow> string list" where
  "desc_levels rows nids 0 = nids"
| "desc_levels rows nids (Suc k) =
     nids @ desc_levels rows (ids (filter (\<lambda>r. \<exists>p \<in> set nids. c_parent_id r = Some p) rows)) k"

definition GetDescendants :: "db \<Rightarrow> string \<Rightarrow> int \<Rightarrow> Node list" where
  "GetDescendants d i maxDepth =
     (let rows = t_nodes d;
          nids = desc_levels rows (ids (filter (\<lambda>r. c_parent_id r = Some i) rows)) (nat (maxDepth - 1))
      in select_nodes (\<lambda>r. c_id r \<in> set nids) d)"

section \<open>Compile roots\<close>

definition latest_snapshot :: "db \<Rightarrow> string \<Rightarrow> int option" where
  \<comment> \<open>\<open>MAX(snapshot_id)\<close> over the diffs of a node\<close>
  "latest_snapshot d i =
     (case map d_snapshot_id (filter (\<lambda>r. d_node_id r = i) (t_diffs d)) of
        [] \<Rightarrow> None
      | s # ss \<Rightarrow> Some (foldl max s ss))"

definition snapshot_root :: "db \<Rightarrow> int \<Rightarrow> string option" where
  "snapshot_root d i = map_option s_compile_root (find (\<lambda>s. s_id s = i) (t_snapshots d))"

definition node_root :: "db \<Rightarrow> string \<Rightarrow> string option" where
  "node_root d i = (case latest_snapshot d i of None \<Rightarrow> None | Some s \<Rightarrow> snapshot_root d s)"

definition GetNodesByCompileRoot :: "db \<Rightarrow> string \<Rightarrow> Node list" where
  "GetNodesByCompileRoot d croot = select_nodes (\<lambda>r. node_root d (c_id r) = Some croot) d"

section \<open>Reading the history\<close>

definition GetLatestCompileRoot :: "db \<Rightarrow> string" where
  "GetLatestCompileRoot d =
     (case find (\<lambda>s. s_compile_root s \<noteq> []) (rev (t_snapshots d)) of
        None \<Rightarrow> [] | Some s \<Rightarrow> s_compile_root s)"

definition GetHeadCursorHash :: "db \<Rightarrow> string" where
  "GetHeadCursorHash d =
     (case t_head d of
        None \<Rightarrow> []
      | Some i \<Rightarrow> (case find (\<lambda>s. s_id s = i) (t_snapshots d) of None \<Rightarrow> [] | Some s \<Rightarrow> s_cursor_hash s))"

definition GetSnapshot :: "db \<Rightarrow> int \<Rightarrow> error + snapshot_row" where
  "GetSnapshot d i = (case find (\<lambda>s. s_id s = i) (t_snapshots d) of None \<Rightarrow> Inl NoRows | Some s \<Rightarrow> Inr s)"

definition ListSnapshots :: "db \<Rightarrow> int \<Rightarrow> snapshot_row list" where
  \<comment> \<open>a negative \<open>LIMIT\<close> is no limit\<close>
  "ListSnapshots d limit =
     (let ss = rev (t_snapshots d) in if limit < 0 then ss else take (nat limit) ss)"

definition scan_diff :: "diff_row \<Rightarrow> DiffRecord" where
  "scan_diff r =
     \<lparr>SnapshotID = d_snapshot_id r, drNodeID = d_node_id r, drOp = d_op r,
      drOldHash = d_old_hash r, drNewHash = d_new_hash r,
      drOldContent = d_old_content r, drNewContent = d_new_content r\<rparr>"

definition GetDiffsBySnapshot :: "db \<Rightarrow> int \<Rightarrow> DiffRecord list" where
  "GetDiffsBySnapshot d i = map scan_diff (filter (\<lambda>r. d_snapshot_id r = i) (t_diffs d))"

definition GetDiffsSince :: "db \<Rightarrow> int \<Rightarrow> DiffRecord list" where
  "GetDiffsSince d i =
     map scan_diff (sort_key (\<lambda>r. (d_snapshot_id r, d_id r)) (filter (\<lambda>r. i < d_snapshot_id r) (t_diffs d)))"

definition GetDiffsForNode :: "db \<Rightarrow> string \<Rightarrow> DiffRecord list" where
  "GetDiffsForNode d i =
     map scan_diff (sort_key d_snapshot_id (filter (\<lambda>r. d_node_id r = i) (t_diffs d)))"

section \<open>Trees and figures\<close>

definition BuildTree :: "Node list \<Rightarrow> Node list \<times> (string \<Rightarrow> Node list)" where
  \<comment> \<open>a missing key of the Go map reads as the empty slice\<close>
  "BuildTree nodes =
     foldl (\<lambda>(roots, children) n.
              if nParentID n = [] then (roots @ [n], children)
              else (roots, children(nParentID n := children (nParentID n) @ [n])))
       ([], \<lambda>_. []) nodes"

definition hotThreshold :: real where "hotThreshold = 0.5"
definition coldThreshold :: real where "coldThreshold = 0.1"

record Stats =
  NodeCount :: nat
  SnapshotCount :: nat
  AvgTemp :: real
  HotCount :: nat
  ColdCount :: nat

definition GetStats :: "db \<Rightarrow> Stats" where
  "GetStats d =
     (let temps = map c_temperature (t_nodes d)
      in \<lparr>NodeCount = length temps, SnapshotCount = length (t_snapshots d),
          AvgTemp = (if temps = [] then 0 else sum_list temps / real (length temps)),
          HotCount = length (filter (\<lambda>t. hotThreshold \<le> t) temps),
          ColdCount = length (filter (\<lambda>t. t < coldThreshold) temps)\<rparr>)"

section \<open>Temperatures\<close>

definition clamp01 :: "real \<Rightarrow> real" where
  "clamp01 x = max 0 (min 1 x)"

definition update_where :: "(row \<Rightarrow> bool) \<Rightarrow> (row \<Rightarrow> row) \<Rightarrow> db \<Rightarrow> db" where
  "update_where P f d = d\<lparr>t_nodes := map (\<lambda>r. if P r then f r else r) (t_nodes d)\<rparr>"

definition UpdateTemperature :: "int \<Rightarrow> string \<Rightarrow> real \<Rightarrow> db \<Rightarrow> db" where
  "UpdateTemperature now i temp =
     update_where (\<lambda>r. c_id r = i) (\<lambda>r. r\<lparr>c_temperature := temp, c_updated_at := now\<rparr>)"

definition IncrementAccess :: "int \<Rightarrow> string \<Rightarrow> db \<Rightarrow> db" where
  "IncrementAccess now i =
     update_where (\<lambda>r. c_id r = i)
       (\<lambda>r. r\<lparr>c_access_count := c_access_count r + 1, c_last_accessed_at := Some now, c_updated_at := now\<rparr>)"

definition boost_row :: "int \<Rightarrow> real \<Rightarrow> row \<Rightarrow> row" where
  "boost_row now boost r =
     r\<lparr>c_temperature := clamp01 (c_temperature r + boost), c_access_count := c_access_count r + 1,
       c_last_accessed_at := Some now, c_updated_at := now\<rparr>"

definition BoostTemperature :: "int \<Rightarrow> string \<Rightarrow> real \<Rightarrow> db \<Rightarrow> db" where
  "BoostTemperature now i boost = update_where (\<lambda>r. c_id r = i) (boost_row now boost)"

definition BoostTemperatureBatch :: "int \<Rightarrow> string list \<Rightarrow> real \<Rightarrow> db \<Rightarrow> db" where
  "BoostTemperatureBatch now is boost d =
     (if is = [] then d else update_where (\<lambda>r. c_id r \<in> set is) (boost_row now boost) d)"

definition DecayTemperatures :: "int \<Rightarrow> real \<Rightarrow> db \<Rightarrow> nat \<times> db" where
  \<comment> \<open>the number of rows affected and the database\<close>
  "DecayTemperatures now factor d =
     (length (filter (\<lambda>r. 0 < c_temperature r) (t_nodes d)),
      update_where (\<lambda>r. 0 < c_temperature r)
        (\<lambda>r. r\<lparr>c_temperature := clamp01 (c_temperature r * factor), c_updated_at := now\<rparr>) d)"

definition ResetTemperaturesByFiles :: "int \<Rightarrow> string list \<Rightarrow> real \<Rightarrow> db \<Rightarrow> db" where
  "ResetTemperaturesByFiles now paths temp d =
     (if paths = [] then d
      else update_where (\<lambda>r. c_source_file r \<in> set paths) (\<lambda>r. r\<lparr>c_temperature := temp, c_updated_at := now\<rparr>) d)"

definition GetColdNodes :: "db \<Rightarrow> real \<Rightarrow> int \<Rightarrow> Node list" where
  "GetColdNodes d threshold limit =
     (let rows = sort_key c_temperature (filter (\<lambda>r. c_temperature r < threshold) (t_nodes d))
      in map scanNode (if limit < 0 then rows else take (nat limit) rows))"

section \<open>Ancestors\<close>

text \<open>Parents rank below their children: what a table filled parents first has.\<close>

definition ranked :: "row list \<Rightarrow> (string \<Rightarrow> nat) \<Rightarrow> bool" where
  "ranked rows rank \<longleftrightarrow> (\<forall>r \<in> set rows. \<forall>p. c_parent_id r = Some p \<longrightarrow> rank p < rank (c_id r))"

fun linked :: "string \<Rightarrow> row list \<Rightarrow> bool" where
  \<comment> \<open>each row is the parent of the one before it and the last has none\<close>
  "linked i [] = False"
| "linked i [r] = (c_id r = i \<and> c_parent_id r = None)"
| "linked i (r # s # rs) = (c_id r = i \<and> (\<exists>p. c_parent_id r = Some p \<and> linked p (s # rs)))"

lemma ancestors_linked:
  assumes "nodes_ok rows" "ranked rows rank"
  shows "i \<in> set (ids rows) \<Longrightarrow> \<exists>rs. ancestors rows i = Some rs \<and> linked i rs \<and> set rs \<subseteq> set rows \<and> distinct (ids rs)
    \<and> (\<forall>r \<in> set rs. rank (c_id r) \<le> rank i)"
proof (induction "rank i" arbitrary: i rule: less_induct)
  case less
  then obtain r where r: "get_row rows i = Some r" "r \<in> set rows" "c_id r = i"
    using get_row_None [of rows i] get_row_Some [of rows i] by (cases "get_row rows i") auto
  show ?case
  proof (cases "c_parent_id r")
    case None
    with r show ?thesis by (subst ancestors.simps) simp
  next
    case (Some p)
    with r assms have lt: "rank p < rank i" and p: "p \<in> set (ids rows)"
      by (auto simp: ranked_def nodes_ok_def fk_ok_def)
    from less(1) [OF lt p] obtain rs where rs: "ancestors rows p = Some rs" "linked p rs" "set rs \<subseteq> set rows"
      "distinct (ids rs)" "\<forall>r \<in> set rs. rank (c_id r) \<le> rank p" by blast
    have "ancestors rows i = Some (r # rs)" using r Some rs(1) by (subst ancestors.simps) simp
    moreover have "linked i (r # rs)" using rs(2) r(3) Some by (cases rs) auto
    moreover have "i \<notin> set (ids rs)" using rs(5) lt by (auto simp: ids_def)
    ultimately show ?thesis using r rs lt by (intro exI [of _ "r # rs"]) auto
  qed
qed



section \<open>Descendants\<close>

inductive below_by :: "row list \<Rightarrow> string \<Rightarrow> nat \<Rightarrow> string \<Rightarrow> bool" for rows i where
  child: "r \<in> set rows \<Longrightarrow> c_parent_id r = Some i \<Longrightarrow> below_by rows i 1 (c_id r)"
| deeper: "r \<in> set rows \<Longrightarrow> c_parent_id r = Some p \<Longrightarrow> below_by rows i k p \<Longrightarrow> below_by rows i (Suc k) (c_id r)"

lemma below_by_pos: "below_by rows i k j \<Longrightarrow> 0 < k"
  by (induction rule: below_by.induct) auto

lemma below_by_1: "below_by rows i (Suc 0) j \<longleftrightarrow> (\<exists>r \<in> set rows. c_parent_id r = Some i \<and> c_id r = j)"
  by (auto elim!: below_by.cases dest: below_by_pos intro: child [simplified])

inductive_cases below_by_SucE: "below_by rows i (Suc k) j"

lemma below_by_Suc: "0 < k \<Longrightarrow> below_by rows i (Suc k) j \<longleftrightarrow> (\<exists>r \<in> set rows. \<exists>p. c_parent_id r = Some p \<and> c_id r = j \<and> below_by rows i k p)"
  by (auto elim!: below_by_SucE intro: deeper)

lemma bound_step: "(\<exists>l. m \<le> l \<and> l \<le> m + Suc k \<and> P l) \<longleftrightarrow> P m \<or> (\<exists>l. Suc m \<le> l \<and> l \<le> Suc m + k \<and> P l)"
proof
  assume "\<exists>l. m \<le> l \<and> l \<le> m + Suc k \<and> P l"
  then obtain l where l: "m \<le> l" "l \<le> m + Suc k" "P l" by blast
  show "P m \<or> (\<exists>l. Suc m \<le> l \<and> l \<le> Suc m + k \<and> P l)"
  proof (cases "l = m")
    case False
    with l show ?thesis by (intro disjI2 exI [of _ l]) auto
  qed (use l in simp)
next
  assume "P m \<or> (\<exists>l. Suc m \<le> l \<and> l \<le> Suc m + k \<and> P l)"
  then show "\<exists>l. m \<le> l \<and> l \<le> m + Suc k \<and> P l"
  proof
    assume "P m"
    then show ?thesis by (intro exI [of _ m]) simp
  next
    assume "\<exists>l. Suc m \<le> l \<and> l \<le> Suc m + k \<and> P l"
    then obtain l where "Suc m \<le> l" "l \<le> Suc m + k" "P l" by blast
    then show ?thesis by (intro exI [of _ l]) simp
  qed
qed

lemma bound_zero: "(\<exists>l. m \<le> l \<and> l \<le> m + (0 :: nat) \<and> P l) \<longleftrightarrow> P m"
  by (auto dest: le_antisym)

lemma set_desc_levels:
  "(\<And>j. j \<in> set nids \<longleftrightarrow> below_by rows i (Suc m) j) \<Longrightarrow>
    j \<in> set (desc_levels rows nids k) \<longleftrightarrow> (\<exists>l. Suc m \<le> l \<and> l \<le> Suc m + k \<and> below_by rows i l j)"
proof (induction k arbitrary: nids m)
  case 0
  from 0 [of j] show ?case by (simp only: bound_zero desc_levels.simps)
next
  case (Suc k)
  let ?next = "ids (filter (\<lambda>r. \<exists>p \<in> set nids. c_parent_id r = Some p) rows)"
  have "j \<in> set ?next \<longleftrightarrow> below_by rows i (Suc (Suc m)) j" for j
  proof -
    have "j \<in> set ?next \<longleftrightarrow> (\<exists>r \<in> set rows. \<exists>p. c_parent_id r = Some p \<and> c_id r = j \<and> p \<in> set nids)"
      by (auto simp: ids_def)
    then show ?thesis by (simp only: Suc.prems below_by_Suc [OF zero_less_Suc])
  qed
  from Suc.IH [OF this] Suc.prems [of j] show ?case
    by (simp only: bound_step desc_levels.simps set_append Un_iff)
qed

text \<open>C23: the descendants query respects its depth bound exactly: it returns the rows between one
  and \<open>maxDepth\<close> steps below the node; the children are returned even for a bound below one.\<close>

theorem GetDescendants_depth:
  "GetDescendants d i maxDepth
    = map scanNode (filter (\<lambda>r. \<exists>k. 1 \<le> k \<and> int k \<le> max 1 maxDepth \<and> below_by (t_nodes d) i k (c_id r)) (t_nodes d))"
proof -
  let ?rows = "t_nodes d"
  have "j \<in> set (ids (filter (\<lambda>r. c_parent_id r = Some i) ?rows)) \<longleftrightarrow> below_by ?rows i (Suc 0) j" for j
    by (auto simp: ids_def below_by_1)
  from set_desc_levels [OF this, of _ "nat (maxDepth - 1)"]
  have "j \<in> set (desc_levels ?rows (ids (filter (\<lambda>r. c_parent_id r = Some i) ?rows)) (nat (maxDepth - 1)))
      \<longleftrightarrow> (\<exists>k. 1 \<le> k \<and> int k \<le> max 1 maxDepth \<and> below_by ?rows i k j)" for j
  proof -
    have "1 \<le> k \<and> int k \<le> max 1 maxDepth \<longleftrightarrow> Suc 0 \<le> k \<and> k \<le> Suc 0 + nat (maxDepth - 1)" for k
      by (cases "maxDepth \<le> 1") (auto simp: max_def)
    with \<open>\<And>j. (j \<in> set (desc_levels ?rows (ids (filter (\<lambda>r. c_parent_id r = Some i) ?rows)) (nat (maxDepth - 1))))
      = (\<exists>l. Suc 0 \<le> l \<and> l \<le> Suc 0 + nat (maxDepth - 1) \<and> below_by ?rows i l j)\<close> show ?thesis
      by (simp only: conj_assoc [symmetric])
  qed
  then show ?thesis by (simp add: GetDescendants_def select_nodes_def Let_def)
qed

section \<open>Updates that leave identity and content alone\<close>

text \<open>The contract every temperature statement keeps: identifier, parent, file, content and hash of
  a row stay.\<close>

locale row_update =
  fixes f :: "row \<Rightarrow> row"
  assumes keeps: "c_id (f r) = c_id r" "c_parent_id (f r) = c_parent_id r" "c_source_file (f r) = c_source_file r"
    "c_content (f r) = c_content r" "c_content_hash (f r) = c_content_hash r"
begin

lemma ids_update [simp]: "ids (t_nodes (update_where P f d)) = ids (t_nodes d)"
  by (simp add: update_where_def ids_map_same keeps)

lemma get_row_update:
  "get_row (t_nodes (update_where P f d)) i = map_option (\<lambda>r. if P r then f r else r) (get_row (t_nodes d) i)"
  by (simp add: update_where_def get_row_map keeps)

lemma db_ok_update: "db_ok d \<Longrightarrow> db_ok (update_where P f d)"
proof -
  assume ok: "db_ok d"
  have "fk_ok (t_nodes (update_where P f d)) r" if "r \<in> set (t_nodes (update_where P f d))" for r
  proof -
    from that obtain r0 where "r0 \<in> set (t_nodes d)" "r = (if P r0 then f r0 else r0)"
      by (auto simp: update_where_def)
    with ok show ?thesis by (auto simp: db_ok_def nodes_ok_def fk_ok_def keeps split: option.splits)
  qed
  with ok show ?thesis by (simp add: db_ok_def nodes_ok_def) (simp add: update_where_def)
qed

lemma same_content:
  "map_option (\<lambda>r. (c_parent_id r, c_source_file r, c_content r, c_content_hash r)) (get_row (t_nodes (update_where P f d)) i)
    = map_option (\<lambda>r. (c_parent_id r, c_source_file r, c_content r, c_content_hash r)) (get_row (t_nodes d) i)"
  by (cases "get_row (t_nodes d) i") (auto simp: get_row_update keeps)

end

interpretation temp_set: row_update "\<lambda>r. r\<lparr>c_temperature := temp, c_updated_at := now\<rparr>" for temp now
  by unfold_locales simp_all

interpretation temp_access: row_update
  "\<lambda>r. r\<lparr>c_access_count := c_access_count r + 1, c_last_accessed_at := Some now, c_updated_at := now\<rparr>" for now
  by unfold_locales simp_all

interpretation temp_boost: row_update "boost_row now boost" for now boost
  by unfold_locales (simp_all add: boost_row_def)

interpretation temp_decay: row_update
  "\<lambda>r. r\<lparr>c_temperature := clamp01 (c_temperature r * factor), c_updated_at := now\<rparr>" for factor now
  by unfold_locales simp_all

lemmas temperature_statements = UpdateTemperature_def IncrementAccess_def BoostTemperature_def
  BoostTemperatureBatch_def DecayTemperatures_def ResetTemperaturesByFiles_def

definition temps_ok :: "db \<Rightarrow> bool" where
  "temps_ok d \<longleftrightarrow> (\<forall>r \<in> set (t_nodes d). 0 \<le> c_temperature r \<and> c_temperature r \<le> 1)"

lemma clamp01_range: "0 \<le> clamp01 x \<and> clamp01 x \<le> 1"
  by (simp add: clamp01_def)

lemma clamp01_id: "0 \<le> x \<Longrightarrow> x \<le> 1 \<Longrightarrow> clamp01 x = x"
  by (simp add: clamp01_def)

lemma temps_ok_update:
  "temps_ok d \<Longrightarrow> (\<And>r. 0 \<le> c_temperature (f r) \<and> c_temperature (f r) \<le> 1) \<Longrightarrow> temps_ok (update_where P f d)"
  by (auto simp: temps_ok_def update_where_def)

text \<open>Temperature statements are safe: each keeps the database invariant, leaves the parent,
  file, content and hash of every node as they were, and keeps every temperature between 0 and 1, for
  any boost and any decay factor.\<close>

theorem temperature_statements_safe:
  assumes "db_ok d" "temps_ok d"
    and "d' \<in> {BoostTemperature now i boost d, BoostTemperatureBatch now is boost d, snd (DecayTemperatures now factor d), IncrementAccess now i d}"
  shows "db_ok d' \<and> temps_ok d'
    \<and> (\<forall>j. map_option (\<lambda>r. (c_parent_id r, c_source_file r, c_content r, c_content_hash r)) (get_row (t_nodes d') j)
         = map_option (\<lambda>r. (c_parent_id r, c_source_file r, c_content r, c_content_hash r)) (get_row (t_nodes d) j))"
proof -
  have "temps_ok (update_where P (boost_row now boost) d)" for P
    by (rule temps_ok_update [OF assms(2)]) (simp add: boost_row_def clamp01_range)
  moreover have "temps_ok (update_where P (\<lambda>r. r\<lparr>c_temperature := clamp01 (c_temperature r * factor), c_updated_at := now\<rparr>) d)" for P
    by (rule temps_ok_update [OF assms(2)]) (simp add: clamp01_range)
  moreover have "temps_ok (update_where P (\<lambda>r. r\<lparr>c_access_count := c_access_count r + 1, c_last_accessed_at := Some now, c_updated_at := now\<rparr>) d)" for P
    using assms(2) by (auto simp: temps_ok_def update_where_def)
  ultimately show ?thesis
    using assms temp_boost.db_ok_update temp_decay.db_ok_update temp_access.db_ok_update
      temp_boost.same_content temp_decay.same_content temp_access.same_content
    by (auto simp: temperature_statements)
qed

theorem temperature_statements_safe_witness:
  "temps_ok (snd (DecayTemperatures 0 2 (empty_db\<lparr>t_nodes := [sample_row ''a'' None]\<rparr>)))"
proof -
  let ?d = "empty_db\<lparr>t_nodes := [sample_row ''a'' None]\<rparr>"
  have "db_ok ?d" "temps_ok ?d"
    using db_ok_empty by (simp_all add: db_ok_def nodes_ok_def fk_ok_def temps_ok_def sample_row_def empty_db_def history_ok_def)
  then show ?thesis using temperature_statements_safe [of ?d "snd (DecayTemperatures 0 2 ?d)" 0 _ _ _ 2] by blast
qed

text \<open>Decay cools: a factor between 0 and 1 multiplies every temperature, none rises, repeated
  decay multiplies the factors, and the count returned is the number of rows that were above zero.\<close>

theorem DecayTemperatures_multiplies:
  assumes "temps_ok d" "0 \<le> f" "f \<le> 1" "0 \<le> g" "g \<le> 1"
  shows "map c_temperature (t_nodes (snd (DecayTemperatures now f d))) = map (\<lambda>r. c_temperature r * f) (t_nodes d)
    \<and> fst (DecayTemperatures now f d) = length (filter (\<lambda>r. 0 < c_temperature r) (t_nodes d))
    \<and> map c_temperature (t_nodes (snd (DecayTemperatures now' g (snd (DecayTemperatures now f d)))))
        = map (\<lambda>r. c_temperature r * (f * g)) (t_nodes d)"
proof -
  have one: "map c_temperature (t_nodes (snd (DecayTemperatures now f d))) = map (\<lambda>r. c_temperature r * f) (t_nodes d)"
    if "temps_ok d" "0 \<le> f" "f \<le> 1" for d now f
  proof -
    have "c_temperature (if 0 < c_temperature r then r\<lparr>c_temperature := clamp01 (c_temperature r * f), c_updated_at := now\<rparr> else r)
        = c_temperature r * f" if r: "r \<in> set (t_nodes d)" for r
    proof -
      have t: "0 \<le> c_temperature r" "c_temperature r \<le> 1" using r \<open>temps_ok d\<close> by (auto simp: temps_ok_def)
      have "0 \<le> c_temperature r * f" "c_temperature r * f \<le> 1" using t \<open>0 \<le> f\<close> \<open>f \<le> 1\<close> by (simp_all add: mult_le_one)
      with t show ?thesis by (auto simp: clamp01_id)
    qed
    then show ?thesis by (simp add: DecayTemperatures_def update_where_def)
  qed
  have ok: "temps_ok (snd (DecayTemperatures now f d))"
    by (simp add: DecayTemperatures_def, rule temps_ok_update [OF assms(1)]) (simp add: clamp01_range)
  have "map c_temperature (t_nodes (snd (DecayTemperatures now' g (snd (DecayTemperatures now f d)))))
      = map (\<lambda>t. t * g) (map c_temperature (t_nodes (snd (DecayTemperatures now f d))))"
    by (simp add: one [OF ok assms(4,5)])
  also have "\<dots> = map (\<lambda>r. c_temperature r * (f * g)) (t_nodes d)"
    by (simp add: one [OF assms(1-3)] mult.assoc)
  finally show ?thesis using one [OF assms(1-3)] by (simp add: DecayTemperatures_def)
qed

theorem DecayTemperatures_multiplies_witness:
  "map c_temperature (t_nodes (snd (DecayTemperatures 0 (1/2) (empty_db\<lparr>t_nodes := [sample_row ''a'' None]\<rparr>)))) = [1/4]"
  using DecayTemperatures_multiplies [of "empty_db\<lparr>t_nodes := [sample_row ''a'' None]\<rparr>" "1/2" "1/2"]
  by (simp add: temps_ok_def sample_row_def)

section \<open>Trees\<close>

lemma BuildTree_fold:
  "foldl (\<lambda>(roots, children) n.
            if nParentID n = [] then (roots @ [n], children)
            else (roots, children(nParentID n := children (nParentID n) @ [n]))) (rs, ch) ns
    = (rs @ filter (\<lambda>n. nParentID n = []) ns,
       \<lambda>p. ch p @ filter (\<lambda>n. nParentID n \<noteq> [] \<and> nParentID n = p) ns)"
  by (induction ns arbitrary: rs ch) (auto simp: fun_eq_iff)

text \<open>Building the tree loses and repeats no node: the roots are the nodes without a parent and
  the children of an identifier are the nodes that name it, both in the order of the list.\<close>

theorem BuildTree_partition:
  "fst (BuildTree nodes) = filter (\<lambda>n. nParentID n = []) nodes
    \<and> snd (BuildTree nodes) p = (if p = [] then [] else filter (\<lambda>n. nParentID n = p) nodes)"
proof -
  have "filter (\<lambda>n. nParentID n \<noteq> [] \<and> nParentID n = p) nodes = (if p = [] then [] else filter (\<lambda>n. nParentID n = p) nodes)"
    by (induction nodes) auto
  then show ?thesis by (simp add: BuildTree_def BuildTree_fold)
qed

end
