(* ===== verification/Roots.thy ===== *)
theory Roots
  imports Emitter StoreOps
begin

text \<open>
  Which compile root a node belongs to: the root of the last snapshot that has a diff of it, as
  \<open>GetNodesByCompileRoot\<close> reads it, and how a transaction of the emitter changes it.
\<close>

section \<open>Which root a node belongs to\<close>

lemma foldl_max: "foldl max (x :: int) xs = Max (set (x # xs))"
proof (induction xs arbitrary: x)
  case (Cons y xs)
  from Cons.IH [of "max x y"] show ?case by (cases "xs = []") (simp_all add: max.assoc)
qed simp

lemma latest_snapshot_Max:
  "latest_snapshot d i =
     (let S = d_snapshot_id ` {r \<in> set (t_diffs d). d_node_id r = i} in if S = {} then None else Some (Max S))"
proof -
  have "set (map d_snapshot_id (filter (\<lambda>r. d_node_id r = i) (t_diffs d))) = d_snapshot_id ` {r \<in> set (t_diffs d). d_node_id r = i}" (is "?L = ?S")
    by auto
  then show ?thesis unfolding Let_def
    by (cases "map d_snapshot_id (filter (\<lambda>r. d_node_id r = i) (t_diffs d))")
       (auto simp: latest_snapshot_def foldl_max simp del: foldl_Cons)
qed

lemma node_root_nodes [simp]: "node_root (d\<lparr>t_nodes := rows\<rparr>) i = node_root d i"
  by (simp add: node_root_def latest_snapshot_def snapshot_root_def split: option.split)

lemma find_append: "find P (xs @ ys) = (case find P xs of None \<Rightarrow> find P ys | Some x \<Rightarrow> Some x)"
  by (induction xs) auto

lemma emit_body_roots:
  assumes ok: "db_ok d" and body: "emit_body now roots ds h m r d = Inr d'"
  shows "node_root d' i = (if i \<in> NodeID ` set ds then Some r else node_root d i)"
proof -
  obtain s rs where s: "t_snapshots d' = t_snapshots d @ [s]" "s_compile_root s = r"
    "\<forall>s' \<in> set (t_snapshots d). s_id s' < s_id s"
    "t_diffs d' = t_diffs d @ rs" "map delta_of rs = ds" "\<forall>x \<in> set rs. d_snapshot_id x = s_id s"
    using emit_body_records [OF ok body] by blast
  let ?S = "\<lambda>D. d_snapshot_id ` {x \<in> D. d_node_id x = i}"
  have known: "?S (set (t_diffs d)) \<subseteq> s_id ` set (t_snapshots d)" using ok by (auto simp: db_ok_def history_ok_def)
  have touched: "i \<in> NodeID ` set ds \<longleftrightarrow> (\<exists>x \<in> set rs. d_node_id x = i)"
    unfolding s(5) [symmetric] by (simp add: delta_of_def image_image) (blast dest: sym)
  have split: "?S (set (t_diffs d')) = ?S (set (t_diffs d)) \<union> ?S (set rs)" by (auto simp: s(4))
  show ?thesis
  proof (cases "i \<in> NodeID ` set ds")
    case True
    then have new: "?S (set rs) = {s_id s}" using touched s(6) by auto
    have "Max (?S (set (t_diffs d'))) = s_id s"
      unfolding split new by (rule Max_eqI) (use known s(3) in force)+
    then have "latest_snapshot d' i = Some (s_id s)" unfolding latest_snapshot_Max Let_def split new by simp
    moreover have "find (\<lambda>x. s_id x = s_id s) (t_snapshots d) = None" using s(3) by (auto simp: find_None_set)
    ultimately show ?thesis using True s(1,2) by (simp add: node_root_def snapshot_root_def find_append)
  next
    case False
    then have none: "?S (set rs) = {}" using touched by auto
    have same: "latest_snapshot d' i = latest_snapshot d i" unfolding latest_snapshot_Max split none by simp
    have "snapshot_root d' j = snapshot_root d j" if "latest_snapshot d i = Some j" for j
    proof -
      have "?S (set (t_diffs d)) \<noteq> {}" "j = Max (?S (set (t_diffs d)))"
        using that by (simp_all add: latest_snapshot_Max Let_def split: if_splits)
      then have "j \<in> ?S (set (t_diffs d))" using Max_in [of "?S (set (t_diffs d))"] by simp
      with known have "j \<in> s_id ` set (t_snapshots d)" by blast
      then have "find (\<lambda>s. s_id s = j) (t_snapshots d) \<noteq> None" by (auto simp: find_None_set)
      then show ?thesis by (auto simp: snapshot_root_def s(1) find_append split: option.splits)
    qed
    with False same show ?thesis by (simp add: node_root_def split: option.splits)
  qed
qed

end
