(* ===== verification/Compiler.thy ===== *)
theory Compiler
  imports Roots
begin

text \<open>
  The package \<open>pkg/compiler\<close>: parse, transform, diff, emit. The file system and the parser
  are arguments (\<open>readFile\<close>, \<open>parseBytes\<close>), as is the hash. The files are parsed
  concurrently; the model goes through them in order, so when several fail it reports the first,
  where the code reports whichever goroutine fails first. The central result is that
  compiling a directory leaves in the database exactly the snapshot of what was compiled, run after
  run.
\<close>

record Result =
  Added :: nat
  Modified :: nat
  Removed' :: nat
  Total :: nat

record compile_options =
  oPaths :: "string list"
  oMessage :: string
  oCompileRoot :: string
  oTemps :: "string \<rightharpoonup> real"
  oFullRescan :: bool

definition seedTemp :: "ContextNode list \<Rightarrow> real \<Rightarrow> ContextNode list" where
  "seedTemp nodes t = map_nodes (\<lambda>n. n\<lparr>Temperature := Some t\<rparr>) nodes"

fun is_unsupported :: "error \<Rightarrow> bool" where
  \<comment> \<open>\<open>errors.Is(err, parser.ErrUnsupportedExt)\<close>\<close>
  "is_unsupported (UnsupportedExt _) = True"
| "is_unsupported (Errorf _ e) = is_unsupported e"
| "is_unsupported _ = False"

definition compile_file :: "(string \<Rightarrow> error + string) \<Rightarrow> (string \<Rightarrow> string \<Rightarrow> error + ContextNode list)
    \<Rightarrow> (string \<rightharpoonup> real) \<Rightarrow> string \<Rightarrow> error + ContextNode list" where
  "compile_file readFile parseBytes temps p =
     bindR (wrap_error ''failed to read'' (readFile p)) (\<lambda>data.
       case parseBytes p data of
         Inl e \<Rightarrow> if is_unsupported e then Inr [] else Inl (Errorf (''failed to parse: '' @ p) e)
       | Inr nodes \<Rightarrow> Inr (case temps p of None \<Rightarrow> nodes | Some t \<Rightarrow> seedTemp nodes t))"

fun compile_files :: "(string \<Rightarrow> error + ContextNode list) \<Rightarrow> string list \<Rightarrow> error + ContextNode list" where
  "compile_files f [] = Inr []"
| "compile_files f (p # ps) = bindR (f p) (\<lambda>nodes. bindR (compile_files f ps) (\<lambda>rest. Inr (nodes @ rest)))"

fun uniqueFilesFlat_loop :: "string list \<Rightarrow> node_data list \<Rightarrow> string list" where
  \<comment> \<open>the files seen so far, in order\<close>
  "uniqueFilesFlat_loop out [] = out"
| "uniqueFilesFlat_loop out (n # ns) =
     uniqueFilesFlat_loop (if SourceFile n \<in> set out then out else out @ [SourceFile n]) ns"

definition uniqueFilesFlat :: "node_data list \<Rightarrow> string list" where
  "uniqueFilesFlat flat = uniqueFilesFlat_loop [] flat"

definition loadPrevNodes :: "db \<Rightarrow> node_data list \<Rightarrow> bool \<Rightarrow> string \<Rightarrow> Node list" where
  "loadPrevNodes d flat fullRescan compileRoot =
     (if fullRescan \<and> compileRoot \<noteq> [] then GetNodesByCompileRoot d compileRoot
      else GetNodesByFiles d (uniqueFilesFlat flat))"

definition buildPrevState :: "db \<Rightarrow> node_data list \<Rightarrow> bool \<Rightarrow> string \<Rightarrow> snapshot_map" where
  "buildPrevState d flat fullRescan compileRoot =
     foldl (\<lambda>m n. AList.update (nID n) \<lparr>StHash = nContentHash n, StContent = nContent n\<rparr> m) []
       (loadPrevNodes d flat fullRescan compileRoot)"

definition countResult :: "Delta list \<Rightarrow> Result" where
  "countResult deltas =
     (let r = foldl (\<lambda>r d.
                if Op d = OpAdd then r\<lparr>Added := Added r + 1\<rparr>
                else if Op d = OpMod then r\<lparr>Modified := Modified r + 1\<rparr>
                else if Op d = OpRem then r\<lparr>Removed' := Removed' r + 1\<rparr> else r)
              \<lparr>Added = 0, Modified = 0, Removed' = 0, Total = 0\<rparr> deltas
      in r\<lparr>Total := Added r + Modified r + Removed' r\<rparr>)"

text \<open>\<open>Compile\<close> after the files were read: transform, diff against the store, emit.\<close>

definition compile_roots :: "(string \<Rightarrow> 64 word) \<Rightarrow> (nat \<Rightarrow> attempt_env) \<Rightarrow> error \<Rightarrow> int
    \<Rightarrow> compile_options \<Rightarrow> ContextNode list \<Rightarrow> db \<Rightarrow> (error + Result) \<times> db" where
  "compile_roots h env ctxErr now opts roots d =
     (let roots = Transform h roots (oCompileRoot opts);
          flat = flat_data roots;
          prev = buildPrevState d flat (oFullRescan opts) (oCompileRoot opts);
          deltas = DiffFlat flat prev;
          cursorHash = CursorHashFlat h flat
      in case Emit env ctxErr now roots deltas cursorHash (oMessage opts) (oCompileRoot opts) d of
           (Some e, d') \<Rightarrow> (Inl (Errorf ''failed to emit'' e), d')
         | (None, d') \<Rightarrow> (Inr (countResult deltas), d'))"

definition Compile :: "(string \<Rightarrow> 64 word) \<Rightarrow> (nat \<Rightarrow> attempt_env) \<Rightarrow> error \<Rightarrow> int
    \<Rightarrow> (string \<Rightarrow> error + string) \<Rightarrow> (string \<Rightarrow> string \<Rightarrow> error + ContextNode list)
    \<Rightarrow> compile_options \<Rightarrow> db \<Rightarrow> (error + Result) \<times> db" where
  "Compile h env ctxErr now readFile parseBytes opts d =
     (case compile_files (compile_file readFile parseBytes (oTemps opts)) (oPaths opts) of
        Inl e \<Rightarrow> (Inl e, d)
      | Inr roots \<Rightarrow> compile_roots h env ctxErr now opts roots d)"

section \<open>The previous state\<close>

lemma set_uniqueFilesFlat_loop: "set (uniqueFilesFlat_loop out ns) = set out \<union> SourceFile ` set ns"
  by (induction ns arbitrary: out) auto

lemma distinct_uniqueFilesFlat_loop: "distinct out \<Longrightarrow> distinct (uniqueFilesFlat_loop out ns)"
  by (induction ns arbitrary: out) auto

lemma uniqueFilesFlat: "set (uniqueFilesFlat flat) = SourceFile ` set flat" "distinct (uniqueFilesFlat flat)"
  by (simp_all add: uniqueFilesFlat_def set_uniqueFilesFlat_loop distinct_uniqueFilesFlat_loop)

definition prev_rows :: "db \<Rightarrow> node_data list \<Rightarrow> bool \<Rightarrow> string \<Rightarrow> row list" where
  "prev_rows d flat fullRescan croot =
     filter (\<lambda>r. if fullRescan \<and> croot \<noteq> [] then node_root d (c_id r) = Some croot
                 else c_source_file r \<in> SourceFile ` set flat) (t_nodes d)"

lemma loadPrevNodes_rows: "loadPrevNodes d flat full croot = map scanNode (prev_rows d flat full croot)"
proof -
  have "uniqueFilesFlat flat = [] \<Longrightarrow> flat = []" using uniqueFilesFlat(1) [of flat] by simp
  then show ?thesis
    by (auto simp: loadPrevNodes_def prev_rows_def GetNodesByCompileRoot_def GetNodesByFiles_def select_nodes_def uniqueFilesFlat)
qed

lemma scanNode_simps [simp]:
  "nID (scanNode r) = c_id r" "nContentHash (scanNode r) = c_content_hash r" "nContent (scanNode r) = c_content r"
  by (simp_all add: scanNode_def)

lemma distinct_buildPrevState: "distinct (map fst (buildPrevState d flat full croot))"
  by (simp add: buildPrevState_def distinct_foldl_update)

lemma buildPrevState_lookup:
  assumes "nodes_ok (t_nodes d)"
  shows "map_of (buildPrevState d flat full croot) i = view (prev_rows d flat full croot) i"
proof -
  let ?rows = "prev_rows d flat full croot"
  have dist: "distinct (ids ?rows)"
    using assms by (simp add: prev_rows_def nodes_ok_def ids_def distinct_map_filter)
  have "map_of (buildPrevState d flat full croot) = foldl (\<lambda>m n. m(nID n \<mapsto> \<lparr>StHash = nContentHash n, StContent = nContent n\<rparr>)) Map.empty (map scanNode ?rows)"
    by (simp add: buildPrevState_def loadPrevNodes_rows map_of_foldl_update)
  then have "map_of (buildPrevState d flat full croot) i
      = map_option (\<lambda>n. \<lparr>StHash = nContentHash n, StContent = nContent n\<rparr>) (find (\<lambda>n. nID n = i) (map scanNode ?rows))"
    using dist by (simp add: foldl_upd_lookup ids_def comp_def)
  also have "find (\<lambda>n. nID n = i) (map scanNode rows) = map_option scanNode (get_row rows i)" for rows
    by (induction rows) auto
  finally show ?thesis by (simp add: view_def row_state_def [abs_def] option.map_comp comp_def)
qed

lemma prev_of_table_build:
  assumes "nodes_ok (t_nodes d)"
  shows "prev_of_table (buildPrevState d flat full croot) (t_nodes d)"
  unfolding prev_of_table_def
proof (intro ballI, clarify)
  fix i st assume "(i, st) \<in> set (buildPrevState d flat full croot)"
  then have "map_of (buildPrevState d flat full croot) i = Some st"
    by (simp add: map_of_is_SomeI distinct_buildPrevState)
  with buildPrevState_lookup [OF assms] have "view (prev_rows d flat full croot) i = Some st" by simp
  then show "view (t_nodes d) i = Some st"
    using assms by (auto simp: view_def prev_rows_def get_row_filter nodes_ok_def split: option.splits if_splits)
qed

lemma dom_buildPrevState:
  assumes "nodes_ok (t_nodes d)"
  shows "fst ` set (buildPrevState d flat full croot) = set (ids (prev_rows d flat full croot))"
proof -
  have "fst ` set (buildPrevState d flat full croot) = dom (map_of (buildPrevState d flat full croot))"
    by (simp add: dom_map_of_conv_image_fst)
  also have "\<dots> = {i. get_row (prev_rows d flat full croot) i \<noteq> None}"
    using buildPrevState_lookup [OF assms] by (auto simp: dom_def view_def)
  finally show ?thesis by (auto simp: get_row_None)
qed

section \<open>What a transformed node carries\<close>

lemma flat_wire_content:
  "map (\<lambda>n. (Content n, Hash n)) (flat_data (wireIdentity ident p pf i ns)) = map (\<lambda>n. (Content n, Hash n)) (flat_data ns)"
  by (induction ns arbitrary: p pf i rule: forest_induct) (auto simp: Let_def setIdentity_def)

lemma enrich_hash: "Hash (enrich h n) = ContentHash h (Content (enrich h n))"
  by (simp add: enrich_def setTokenCount_def setLabel_def setContentHash_def)

lemma Transform_hash:
  assumes "n \<in> set (flat_data (Transform h roots r))"
  shows "Hash n = ContentHash h (Content n)"
proof -
  let ?ns = "map_nodes (enrich h) (compressPrefix (map_nodes compress roots) r)"
  have "(Content n, Hash n) \<in> set (map (\<lambda>n. (Content n, Hash n)) (flat_data (Transform h roots r)))"
    using assms by force
  then obtain m where "m \<in> set (flat_data ?ns)" "Content m = Content n" "Hash m = Hash n"
    unfolding Transform_eq flat_wire_content by auto
  moreover then obtain m' where "m = enrich h m'" by (auto simp: flat_data_map_nodes)
  ultimately show ?thesis using enrich_hash by metis
qed

definition forest_chains :: "ContextNode list \<Rightarrow> string \<Rightarrow> chain list" where
  "forest_chains roots r = chains [] (\<lambda>_. 0) 0 (compressPrefix (skeleton roots) r)"

lemma Transform_parents:
  "map ParentID (flat_data (Transform h roots r)) = map (\<lambda>x. idof (IdentifyNode h) (tl x)) (forest_chains roots r)"
  using node_id.wire_parents [of h "[]"] by (simp add: Transform_eq chains_pipeline forest_chains_def)

lemma chains_sources: "map (\<lambda>x. fst (hd x)) (chains c pf i ns) = map SourceFile (flat_data ns)"
proof (induction ns arbitrary: c pf i rule: forest_induct)
  case (Node n cs ns)
  then show ?case by (cases "c = []") (simp_all add: chains.simps(2) Let_def del: fun_upd_apply)
qed simp

lemma Transform_sources:
  "map SourceFile (flat_data (Transform h roots r)) = map (\<lambda>x. fst (hd x)) (forest_chains roots r)"
proof -
  let ?ns = "map_nodes (enrich h) (compressPrefix (map_nodes compress roots) r)"
  have "map SourceFile (flat_data (Transform h roots r)) = map (\<lambda>x. fst (hd x)) (chains [] (\<lambda>_. 0) 0 ?ns)"
    unfolding Transform_eq flat_sources_wire chains_sources ..
  then show ?thesis by (simp add: chains_pipeline forest_chains_def)
qed

lemma Transform_chain:
  assumes "n \<in> set (flat_data (Transform h roots r))"
  shows "\<exists>x \<in> set (forest_chains roots r). ID n = idof (IdentifyNode h) x \<and> ParentID n = idof (IdentifyNode h) (tl x)
    \<and> SourceFile n = fst (hd x)"
proof -
  let ?flat = "flat_data (Transform h roots r)" and ?cs = "forest_chains roots r"
  have ids: "map ID ?flat = map (idof (IdentifyNode h)) ?cs" by (simp add: Transform_ids forest_chains_def)
  then have len: "length ?flat = length ?cs" by (rule map_eq_imp_length_eq)
  from assms obtain j where j: "j < length ?flat" "n = ?flat ! j" by (auto simp: in_set_conv_nth)
  have "ID n = idof (IdentifyNode h) (?cs ! j)" using arg_cong [OF ids, of "\<lambda>l. l ! j"] j len by simp
  moreover have "ParentID n = idof (IdentifyNode h) (tl (?cs ! j))"
    using arg_cong [OF Transform_parents, of "\<lambda>l. l ! j" h roots r] j len by simp
  moreover have "SourceFile n = fst (hd (?cs ! j))"
    using arg_cong [OF Transform_sources, of "\<lambda>l. l ! j" h roots r] j len by simp
  moreover have "?cs ! j \<in> set ?cs" using j len by simp
  ultimately show ?thesis by blast
qed

section \<open>A database filled by compilations\<close>

text \<open>
  The hash is trusted on two finite sets: the chains \<open>X\<close> that identifiers are built from and the
  contents \<open>C\<close>. A table is \<open>tracked\<close> when each of its rows comes from one of them.
\<close>

definition collision_free :: "(string \<Rightarrow> 64 word) \<Rightarrow> chain set \<Rightarrow> string set \<Rightarrow> bool" where
  "collision_free h X C \<longleftrightarrow> inj_on (idof (IdentifyNode h)) X \<and> inj_on h C"

definition forest_in :: "(string \<Rightarrow> 64 word) \<Rightarrow> chain set \<Rightarrow> string set \<Rightarrow> string \<Rightarrow> ContextNode list \<Rightarrow> bool" where
  "forest_in h X C croot roots \<longleftrightarrow>
     set (forest_chains roots croot) \<subseteq> X \<and> Content ` set (flat_data (Transform h roots croot)) \<subseteq> C"

definition tracked :: "(string \<Rightarrow> 64 word) \<Rightarrow> chain set \<Rightarrow> string set \<Rightarrow> row list \<Rightarrow> bool" where
  "tracked h X C rows \<longleftrightarrow>
     (\<forall>r \<in> set rows.
        (\<exists>x \<in> X. c_id r = idof (IdentifyNode h) x \<and> c_parent_id r = parentIDParam (idof (IdentifyNode h) (tl x))
           \<and> c_source_file r = fst (hd x))
        \<and> c_content r \<in> C \<and> c_content_hash r = ContentHash h (c_content r))"

text \<open>Every row was last written by a compilation of one root.\<close>

definition rooted :: "string \<Rightarrow> db \<Rightarrow> bool" where
  "rooted croot d \<longleftrightarrow> (\<forall>i \<in> set (ids (t_nodes d)). node_root d i = Some croot)"

lemma prev_rows_all:
  assumes "rooted croot d" "croot \<noteq> []"
  shows "prev_rows d flat True croot = t_nodes d"
  using assms by (simp add: prev_rows_def rooted_def ids_def)

lemma compile_distinct:
  assumes "collision_free h X C" "forest_in h X C croot roots"
  shows "distinct (map ID (flat_data (Transform h roots croot)))"
proof -
  have "inj_on (idof (IdentifyNode h)) (set (forest_chains roots croot))"
    using assms by (auto simp: collision_free_def forest_in_def intro: inj_on_subset)
  then show ?thesis
    using distinct_chains [of "[]" "\<lambda>_. 0" 0 "compressPrefix (skeleton roots) croot"]
    by (simp add: Transform_ids distinct_map forest_chains_def)
qed

lemma tracked_parents_stable:
  assumes "collision_free h X C" "forest_in h X C croot roots" "tracked h X C rows"
    and "fst ` set prev \<subseteq> set (ids rows)"
  shows "parents_stable (flat_data (Transform h roots croot)) prev rows"
  unfolding parents_stable_def
proof (intro ballI impI)
  fix n assume n: "n \<in> set (flat_data (Transform h roots croot))" and "ID n \<in> fst ` set prev"
  with assms(4) obtain r where r: "get_row rows (ID n) = Some r" "r \<in> set rows" "c_id r = ID n"
    using get_row_None [of rows "ID n"] get_row_Some [of rows "ID n"] by (cases "get_row rows (ID n)") auto
  from Transform_chain [OF n] assms(2) obtain x where x: "x \<in> X" "ID n = idof (IdentifyNode h) x" "ParentID n = idof (IdentifyNode h) (tl x)"
    by (auto simp: forest_in_def)
  from assms(3) r(2) obtain y where y: "y \<in> X" "c_id r = idof (IdentifyNode h) y" "c_parent_id r = parentIDParam (idof (IdentifyNode h) (tl y))"
    by (auto simp: tracked_def)
  from x y r(3) assms(1) have "x = y" by (auto simp: collision_free_def dest: inj_onD)
  with x y r(1) show "map_option c_parent_id (get_row rows (ID n)) = Some (parentIDParam (ParentID n))" by simp
qed

lemma tracked_hash_faithful:
  assumes "collision_free h X C" "forest_in h X C croot roots" "tracked h X C rows"
    and "\<And>i st. map_of prev i = Some st \<Longrightarrow> view rows i = Some st"
  shows "hash_faithful (flat_data (Transform h roots croot)) prev"
  unfolding hash_faithful_def
proof (intro ballI)
  fix n assume n: "n \<in> set (flat_data (Transform h roots croot))"
  show "case map_of prev (ID n) of None \<Rightarrow> True | Some old \<Rightarrow> StHash old = Hash n \<longrightarrow> StContent old = Content n"
  proof (cases "map_of prev (ID n)")
    case (Some old)
    from assms(4) [OF Some] obtain r where r: "r \<in> set rows" "old = row_state r"
      by (auto simp: view_def dest: get_row_Some)
    with assms(3) have "c_content r \<in> C" "c_content_hash r = ContentHash h (c_content r)" by (auto simp: tracked_def)
    moreover have "Content n \<in> C" using assms(2) n by (auto simp: forest_in_def)
    ultimately show ?thesis
      using Some r assms(1) Transform_hash [OF n]
      by (auto simp: row_state_def collision_free_def ContentHash_eq_iff dest: inj_onD)
  qed simp
qed

section \<open>A full rescan\<close>

definition compile_inv :: "(string \<Rightarrow> 64 word) \<Rightarrow> chain set \<Rightarrow> string set \<Rightarrow> string \<Rightarrow> db \<Rightarrow> bool" where
  "compile_inv h X C croot d \<longleftrightarrow> db_ok d \<and> tracked h X C (t_nodes d) \<and> rooted croot d"

lemma full_prev:
  assumes "compile_inv h X C croot d" "croot \<noteq> []"
  shows "map_of (buildPrevState d flat True croot) = view (t_nodes d)"
    and "fst ` set (buildPrevState d flat True croot) = set (ids (t_nodes d))"
proof -
  have "prev_rows d flat True croot = t_nodes d"
    using assms by (intro prev_rows_all) (auto simp: compile_inv_def db_ok_def)
  moreover have "nodes_ok (t_nodes d)" using assms by (simp add: compile_inv_def db_ok_def)
  ultimately show "map_of (buildPrevState d flat True croot) = view (t_nodes d)"
    "fst ` set (buildPrevState d flat True croot) = set (ids (t_nodes d))"
    by (auto simp: buildPrevState_lookup dom_buildPrevState)
qed

lemma compile_ready:
  assumes inv: "compile_inv h X C croot d" and "croot \<noteq> []"
    and cf: "collision_free h X C" "forest_in h X C croot roots"
    and "hash \<notin> s_cursor_hash ` set (t_snapshots d)"
  shows "emit_ready (Transform h roots croot) (buildPrevState d (flat_data (Transform h roots croot)) True croot) hash d"
proof -
  let ?prev = "buildPrevState d (flat_data (Transform h roots croot)) True croot"
  have tr: "tracked h X C (t_nodes d)" and ok: "nodes_ok (t_nodes d)"
    using inv by (simp_all add: compile_inv_def db_ok_def)
  note prev = full_prev [OF inv assms(2), of "flat_data (Transform h roots croot)"]
  have "hash_faithful (flat_data (Transform h roots croot)) ?prev"
    by (rule tracked_hash_faithful [OF cf tr]) (simp add: prev)
  moreover have "parents_stable (flat_data (Transform h roots croot)) ?prev (t_nodes d)"
    by (rule tracked_parents_stable [OF cf tr]) (simp add: prev)
  ultimately show ?thesis
    using compile_distinct [OF cf] Transform_parents_first prev_of_table_build [OF ok] inv assms(5)
    by (simp add: emit_ready_def compile_inv_def)
qed

lemma emit_body_fresh: "emit_body now roots ds hash m r d = Inr d' \<Longrightarrow> hash \<notin> s_cursor_hash ` set (t_snapshots d)"
proof -
  assume "emit_body now roots ds hash m r d = Inr d'"
  then obtain d1 i d2 where a: "apply_deltas now (buildNodeMap roots) ds d = Inr d1" "CreateSnapshotTx now hash m r d1 = Inr (i, d2)"
    by (auto simp: emit_body_def bindR_Inr_iff)
  have "t_snapshots d1 = t_snapshots d"
    using apply_deltas_history [OF a(1)] by (metis db.select_convs(2) db.surjective db.update_convs(1))
  with a(2) show ?thesis by (simp add: CreateSnapshotTx_Inr)
qed

lemma emit_view:
  assumes "emit_ready ns prev hash d" "emit_body now ns (Diff ns prev) hash m r d = Inr d'"
  shows "n \<in> set (flat_data ns) \<Longrightarrow> view (t_nodes d') (ID n) = Some (state_of n)"
    and "i \<in> fst ` set prev \<Longrightarrow> i \<notin> ID ` set (flat_data ns) \<Longrightarrow> view (t_nodes d') i = None"
    and "i \<notin> ID ` set (flat_data ns) \<Longrightarrow> \<not> below (t_nodes d) (fst ` set prev - ID ` set (flat_data ns)) i \<Longrightarrow>
      view (t_nodes d') i = view (t_nodes d) i"
  using emit_effect [OF assms(1), of now m r] unfolding assms(2) by auto

lemma upsert_tracked:
  assumes "forest_in h X C croot roots" "n \<in> set (flat_data (Transform h roots croot))"
    and "tracked h X C rows"
  shows "tracked h X C (upsert_rows now (nodeFromContext n) rows)"
proof -
  from Transform_chain [OF assms(2)] assms(1) obtain y where
    "y \<in> X" "ID n = idof (IdentifyNode h) y" "ParentID n = idof (IdentifyNode h) (tl y)" "SourceFile n = fst (hd y)"
    by (auto simp: forest_in_def)
  moreover have "Content n \<in> C" "Hash n = ContentHash h (Content n)"
    using assms(1,2) Transform_hash by (auto simp: forest_in_def)
  ultimately show ?thesis
    using assms(3) by (auto simp: tracked_def upsert_rows_def nodeFromContext_def update_row_def insert_row_def)
qed

lemma emit_keeps_inv:
  assumes inv: "compile_inv h X C croot d" and "forest_in h X C croot roots"
    and body: "emit_body now (Transform h roots croot) ds hash m croot d = Inr d'"
  shows "compile_inv h X C croot d'"
proof -
  have ok: "db_ok d" using inv by (simp add: compile_inv_def)
  have "\<forall>x \<in> set (t_nodes d'). tracked h X C [x]"
  proof (rule emit_body_rows [OF ok body])
    show "\<forall>x \<in> set (t_nodes d). tracked h X C [x]" using inv by (simp add: compile_inv_def tracked_def)
    fix n rows x assume n: "n \<in> set (flat_data (Transform h roots croot))" "\<forall>x \<in> set rows. tracked h X C [x]"
      "x \<in> set (upsert_rows now (nodeFromContext n) rows)"
    then have "tracked h X C rows" by (simp add: tracked_def)
    from upsert_tracked [OF assms(2) n(1) this] n(3) show "tracked h X C [x]" by (simp add: tracked_def)
  qed
  then have "tracked h X C (t_nodes d')" by (simp add: tracked_def)
  moreover have "\<forall>x \<in> set (t_nodes d'). c_id x \<in> set (ids (t_nodes d)) \<union> NodeID ` set ds"
    by (rule emit_body_rows [OF ok body])
       (auto simp: ids_def upsert_rows_def nodeFromContext_def update_row_def insert_row_def split: if_splits)
  then have "rooted croot d'"
    using inv by (auto simp: compile_inv_def rooted_def ids_def emit_body_roots [OF ok body])
  ultimately show ?thesis using emit_body_ok [OF ok body] by (simp add: compile_inv_def)
qed

lemma emit_sync:
  fixes roots croot h
  defines "ns \<equiv> Transform h roots croot"
  assumes inv: "compile_inv h X C croot d" and root: "croot \<noteq> []"
    and cf: "collision_free h X C" "forest_in h X C croot roots"
    and body: "emit_body now ns (Diff ns (buildPrevState d (flat_data ns) True croot)) hash m croot d = Inr d'"
  shows "compile_inv h X C croot d' \<and> view (t_nodes d') = map_of (SnapshotFromNodes ns)"
proof -
  let ?flat = "flat_data ns" and ?prev = "buildPrevState d (flat_data ns) True croot"
  note prev = full_prev [OF inv root, of ?flat]
  have dist: "distinct (map ID ?flat)" unfolding ns_def by (rule compile_distinct [OF cf])
  have ready: "emit_ready ns ?prev hash d"
    unfolding ns_def by (rule compile_ready [OF inv root cf emit_body_fresh [OF body]])
  note e = emit_view [OF ready body]
  have "view (t_nodes d') i = states ?flat i" for i
  proof (cases "i \<in> ID ` set ?flat")
    case True
    with e(1) states_member [OF dist] show ?thesis by auto
  next
    case False
    have "view (t_nodes d') i = None"
    proof (cases "i \<in> set (ids (t_nodes d))")
      case True
      with False e(2) prev(2) show ?thesis by auto
    next
      case out: False
      have "\<not> below (t_nodes d) (fst ` set ?prev - ID ` set ?flat) i"
      proof
        assume "below (t_nodes d) (fst ` set ?prev - ID ` set ?flat) i"
        then show False by cases (use out prev(2) in \<open>auto simp: ids_def\<close>)
      qed
      with e(3) False have "view (t_nodes d') i = view (t_nodes d) i" by blast
      with out show ?thesis by (simp add: view_def get_row_None)
    qed
    with False show ?thesis by (simp add: states_None)
  qed
  then have view: "view (t_nodes d') = states ?flat" by (rule ext)
  then show ?thesis
    using emit_keeps_inv [OF inv cf(2) body [unfolded ns_def]] Snapshot_states [OF dist] by simp
qed

text \<open>The states a database can reach: compilations of the whole directory or of any part of it (which may
  fail for whatever reason), emissions that only remove nodes, as those of deleted files, and temperature
  statements, in any order.\<close>

inductive reachable :: "(string \<Rightarrow> 64 word) \<Rightarrow> chain set \<Rightarrow> string set \<Rightarrow> string \<Rightarrow> db \<Rightarrow> bool" for h X C croot where
  reach_empty: "reachable h X C croot empty_db"
| reach_compile: "reachable h X C croot d \<Longrightarrow> forest_in h X C croot roots \<Longrightarrow>
    oCompileRoot opts = croot \<Longrightarrow>
    reachable h X C croot (snd (compile_roots h env ctxErr now opts roots d))"
| reach_purge: "reachable h X C croot d \<Longrightarrow> \<forall>dl \<in> set ds. Op dl = OpRem \<Longrightarrow>
    reachable h X C croot (snd (Emit env ctxErr now [] ds hash m r d))"
| reach_temperature: "reachable h X C croot d \<Longrightarrow>
    d' \<in> {UpdateTemperature now i temp d, IncrementAccess now i d, BoostTemperature now i boost d,
          BoostTemperatureBatch now is boost d, snd (DecayTemperatures now factor d), ResetTemperaturesByFiles now paths temp d} \<Longrightarrow>
    reachable h X C croot d'"

lemma compile_roots_cases:
  assumes "compile_roots h env ctxErr now opts roots d = (res, d')"
  shows "(\<exists>e. res = Inl e \<and> d' = d)
    \<or> (\<exists>ds. ds = Diff (Transform h roots (oCompileRoot opts)) (buildPrevState d (flat_data (Transform h roots (oCompileRoot opts))) (oFullRescan opts) (oCompileRoot opts))
        \<and> res = Inr (countResult ds) \<and> (ds = [] \<and> d' = d \<or>
           (\<exists>hash m. emit_body now (Transform h roots (oCompileRoot opts)) ds hash m (oCompileRoot opts) d = Inr d')))"
proof -
  let ?ns = "Transform h roots (oCompileRoot opts)"
  let ?ds = "Diff ?ns (buildPrevState d (flat_data ?ns) (oFullRescan opts) (oCompileRoot opts))"
  let ?hash = "CursorHashFlat h (flat_data ?ns)"
  obtain r d1 where e: "Emit env ctxErr now ?ns ?ds ?hash (oMessage opts) (oCompileRoot opts) d = (r, d1)"
    by (cases "Emit env ctxErr now ?ns ?ds ?hash (oMessage opts) (oCompileRoot opts) d")
  have atomic: "(r \<noteq> None \<longrightarrow> d1 = d) \<and> (r = None \<longrightarrow> ?ds \<noteq> [] \<longrightarrow> emit_body now ?ns ?ds ?hash (oMessage opts) (oCompileRoot opts) d = Inr d1)
      \<and> (?ds = [] \<longrightarrow> r = None \<and> d1 = d)"
    by (rule emit_all_or_nothing [OF e])
  show ?thesis
  proof (cases r)
    case None
    with assms e have "res = Inr (countResult ?ds)" "d' = d1"
      by (simp_all add: compile_roots_def Let_def Diff_def)
    with None atomic show ?thesis by (cases "?ds = []") auto
  next
    case (Some x)
    with assms e have "res = Inl (Errorf ''failed to emit'' x)" "d' = d1"
      by (simp_all add: compile_roots_def Let_def Diff_def)
    with Some atomic show ?thesis by auto
  qed
qed

lemma compile_step_inv:
  assumes inv: "compile_inv h X C croot d" and "croot \<noteq> []" "collision_free h X C" "forest_in h X C croot roots"
    and "oCompileRoot opts = croot" "oFullRescan opts"
    and "compile_roots h env ctxErr now opts roots d = (res, d')"
  shows "compile_inv h X C croot d' \<and>
    (\<forall>r. res = Inr r \<longrightarrow> view (t_nodes d') = map_of (SnapshotFromNodes (Transform h roots croot)))"
proof -
  let ?ns = "Transform h roots croot"
  let ?prev = "buildPrevState d (flat_data ?ns) True croot"
  have dist: "distinct (map ID (flat_data ?ns))" by (rule compile_distinct [OF assms(3,4)])
  note prev = full_prev [OF inv assms(2), of "flat_data ?ns"]
  have same: "view (t_nodes d) = map_of (SnapshotFromNodes ?ns)" if "Diff ?ns ?prev = []"
  proof -
    have "hash_faithful (flat_data ?ns) ?prev"
      using inv by (intro tracked_hash_faithful [OF assms(3,4)]) (auto simp: prev compile_inv_def)
    from apply_DiffFlat [OF dist distinct_buildPrevState this] that show ?thesis
      by (simp add: prev(1) Diff_def Snapshot_states [OF dist])
  qed
  from compile_roots_cases [OF assms(7)] assms(5,6)
  consider e where "res = Inl e" "d' = d"
    | "Diff ?ns ?prev = []" "d' = d"
    | hash m where "emit_body now ?ns (Diff ?ns ?prev) hash m croot d = Inr d'"
    by auto
  then show ?thesis
  proof cases
    case 1
    with inv show ?thesis by simp
  next
    case 2
    with inv same show ?thesis by simp
  next
    case 3
    from emit_sync [OF inv assms(2-4) 3] show ?thesis by simp
  qed
qed

section \<open>Reachable databases\<close>

context row_update
begin

lemma compile_inv_update:
  assumes "compile_inv h X C croot d"
  shows "compile_inv h X C croot (update_where P f d)"
proof -
  have "tracked h X C (t_nodes (update_where P f d))"
    using assms by (auto simp: compile_inv_def tracked_def update_where_def keeps)
  moreover have "rooted croot (update_where P f d)"
    using assms ids_update [of P d] by (simp add: compile_inv_def rooted_def update_where_def)
  ultimately show ?thesis using assms db_ok_update by (simp add: compile_inv_def)
qed

end

lemma compile_inv_empty: "compile_inv h X C croot empty_db"
  by (simp add: compile_inv_def db_ok_empty) (simp add: tracked_def rooted_def empty_db_def)

lemma Emit_cases:
  assumes "Emit env ctxErr now roots ds h m r d = (res, d')"
  obtains "d' = d" | "emit_body now roots ds h m r d = Inr d'"
  using emit_all_or_nothing [OF assms] by (cases "ds = []"; cases res) auto

lemma removal_inv:
  assumes inv: "compile_inv h X C croot d" and rem: "\<forall>dl \<in> set ds. Op dl = OpRem"
    and body: "emit_body now [] ds hash m r d = Inr d'"
  shows "compile_inv h X C croot d'"
proof -
  have ok: "db_ok d" using inv by (simp add: compile_inv_def)
  have rows: "t_nodes d' = foldl (\<lambda>rows i. delete_cascade [i] rows) (t_nodes d) (map NodeID ds)"
    using emit_body_nodes [OF ok body] apply_removals [OF rem, of now "buildNodeMap []" d] by auto
  have nodes: "nodes_ok (t_nodes d)" using ok by (simp add: db_ok_def)
  note del = delete_list [OF nodes, of "map NodeID ds", folded rows]
  have "node_root d' i = Some croot" if i: "i \<in> set (ids (t_nodes d'))" for i
  proof -
    have "i \<notin> NodeID ` set ds" using i del by (auto simp: get_row_None)
    moreover have "i \<in> set (ids (t_nodes d))" using i del by (auto simp: ids_def)
    ultimately show ?thesis using inv by (simp add: emit_body_roots [OF ok body] compile_inv_def rooted_def)
  qed
  moreover have "tracked h X C (t_nodes d')" using inv del by (auto simp: compile_inv_def tracked_def)
  ultimately show ?thesis using emit_body_ok [OF ok body] by (simp add: compile_inv_def rooted_def)
qed

lemma compile_keeps_inv:
  assumes "compile_inv h X C croot d" "forest_in h X C croot roots" "oCompileRoot opts = croot"
    and "compile_roots h env ctxErr now opts roots d = (res, d')"
  shows "compile_inv h X C croot d'"
  using compile_roots_cases [OF assms(4)] assms(1) emit_keeps_inv [OF assms(1,2)] unfolding assms(3) by blast

lemma reachable_inv: "reachable h X C croot d \<Longrightarrow> compile_inv h X C croot d"
proof (induction rule: reachable.induct)
  case reach_empty
  show ?case by (rule compile_inv_empty)
next
  case (reach_compile d roots opts env ctxErr now)
  then show ?case using compile_keeps_inv by (metis prod.collapse)
next
  case (reach_purge d ds env ctxErr now hash m r)
  obtain res d' where e: "Emit env ctxErr now [] ds hash m r d = (res, d')" by fastforce
  from e have "compile_inv h X C croot d'"
    by (rule Emit_cases) (use reach_purge removal_inv in blast)+
  with e show ?case by simp
next
  case (reach_temperature d d')
  then show ?case
    by (auto simp: temperature_statements temp_set.compile_inv_update temp_access.compile_inv_update
        temp_boost.compile_inv_update temp_decay.compile_inv_update)
qed

text \<open>C1: compiling a directory synchronises the database with it. From any database that
  earlier compilations of that directory or of parts of it (failed ones included), removals of nodes and
  temperature updates can produce, a compilation that reports success leaves exactly the snapshot of the compiled forest:
  every node with its content and hash, and no other node; one that reports an error leaves the
  database as it was.\<close>

theorem Compile_synchronises:
  assumes "reachable h X C croot d" "croot \<noteq> []" "collision_free h X C" "forest_in h X C croot roots"
    and "oCompileRoot opts = croot" "oFullRescan opts"
    and "compile_roots h env ctxErr now opts roots d = (res, d')"
  shows "(\<forall>r. res = Inr r \<longrightarrow> view (t_nodes d') = map_of (SnapshotFromNodes (Transform h roots croot)))
    \<and> (\<forall>e. res = Inl e \<longrightarrow> d' = d) \<and> db_ok d'"
proof -
  note inv = reachable_inv [OF assms(1)]
  have "\<forall>e. res = Inl e \<longrightarrow> d' = d"
    using compile_roots_cases [OF assms(7)] assms(5) by auto
  with compile_step_inv [OF inv assms(2-7)] show ?thesis by (simp add: compile_inv_def)
qed

definition scan_options :: compile_options where
  "scan_options = \<lparr>oPaths = [], oMessage = ''m'', oCompileRoot = ''/v'', oTemps = Map.empty, oFullRescan = True\<rparr>"

lemma two_files_world:
  "collision_free len_hash (set (forest_chains two_files ''/v'')) {[], ''x''}"
  "forest_in len_hash (set (forest_chains two_files ''/v'')) {[], ''x''} ''/v'' two_files"
proof -
  have "distinct (map (idof (IdentifyNode len_hash)) (forest_chains two_files ''/v''))" by code_simp
  then have "inj_on (idof (IdentifyNode len_hash)) (set (forest_chains two_files ''/v''))" by (simp add: distinct_map)
  then show "collision_free len_hash (set (forest_chains two_files ''/v'')) {[], ''x''}"
    by (simp add: collision_free_def len_hash_def)
  have "list_all (\<lambda>n. Content n \<in> {[], ''x''}) (flat_data (Transform len_hash two_files ''/v''))" by code_simp
  then show "forest_in len_hash (set (forest_chains two_files ''/v'')) {[], ''x''} ''/v'' two_files"
    by (auto simp: forest_in_def list_all_iff)
qed

section \<open>When a compilation succeeds\<close>

lemma ready_succeeds:
  assumes "emit_ready (Transform h roots croot) (buildPrevState d (flat_data (Transform h roots croot)) full croot)
      (CursorHashFlat h (flat_data (Transform h roots croot))) d"
    and "oCompileRoot opts = croot" "oFullRescan opts = full"
  shows "\<exists>d'. compile_roots h fair_env ctxErr now opts roots d
    = (Inr (countResult (Diff (Transform h roots croot) (buildPrevState d (flat_data (Transform h roots croot)) full croot))), d')
    \<and> (Diff (Transform h roots croot) (buildPrevState d (flat_data (Transform h roots croot)) full croot) \<noteq> [] \<longrightarrow>
         s_cursor_hash ` set (t_snapshots d') = insert (CursorHashFlat h (flat_data (Transform h roots croot))) (s_cursor_hash ` set (t_snapshots d)))"
proof -
  let ?ns = "Transform h roots croot"
  let ?ds = "Diff ?ns (buildPrevState d (flat_data ?ns) full croot)"
  let ?hash = "CursorHashFlat h (flat_data ?ns)"
  show ?thesis
  proof (cases "?ds = []")
    case True
    then show ?thesis using assms(2,3) by (simp add: compile_roots_def Let_def Diff_def Emit_def countResult_def)
  next
    case False
    have "\<exists>d'. emit_body now ?ns ?ds ?hash (oMessage opts) croot d = Inr d' \<and> s_cursor_hash ` set (t_snapshots d') = insert ?hash (s_cursor_hash ` set (t_snapshots d))"
      using emit_effect [OF assms(1), of now "oMessage opts" croot]
      by (elim exE conjE) (rule exI, rule conjI, assumption, simp)
    then obtain d' where b: "emit_body now ?ns ?ds ?hash (oMessage opts) croot d = Inr d'"
      and h: "s_cursor_hash ` set (t_snapshots d') = insert ?hash (s_cursor_hash ` set (t_snapshots d))" by (elim exE conjE) (rule that)
    from Emit_fair [OF b False, of ctxErr] assms(2,3) h show ?thesis
      by (simp add: compile_roots_def Let_def Diff_def)
  qed
qed

lemma compile_succeeds:
  assumes inv: "compile_inv h X C croot d" and "croot \<noteq> []" "collision_free h X C" "forest_in h X C croot roots"
    and "oCompileRoot opts = croot" "oFullRescan opts"
    and "CursorHashFlat h (flat_data (Transform h roots croot)) \<notin> s_cursor_hash ` set (t_snapshots d)"
  shows "\<exists>d'. compile_roots h fair_env ctxErr now opts roots d
    = (Inr (countResult (Diff (Transform h roots croot) (buildPrevState d (flat_data (Transform h roots croot)) True croot))), d')
    \<and> (Diff (Transform h roots croot) (buildPrevState d (flat_data (Transform h roots croot)) True croot) \<noteq> [] \<longrightarrow>
         s_cursor_hash ` set (t_snapshots d') = insert (CursorHashFlat h (flat_data (Transform h roots croot))) (s_cursor_hash ` set (t_snapshots d)))"
  using ready_succeeds [OF compile_ready [OF assms(1-4,7)] assms(5), of ctxErr now] assms(6) by simp

lemma compile_again:
  assumes "compile_inv h X C croot d" "croot \<noteq> []" "collision_free h X C" "forest_in h X C croot roots"
    and "oCompileRoot opts = croot" "oFullRescan opts"
    and "view (t_nodes d) = map_of (SnapshotFromNodes (Transform h roots croot))"
  shows "compile_roots h env ctxErr now opts roots d = (Inr \<lparr>Added = 0, Modified = 0, Removed' = 0, Total = 0\<rparr>, d)"
proof -
  let ?ns = "Transform h roots croot"
  have dist: "distinct (map ID (flat_data ?ns))" by (rule compile_distinct [OF assms(3,4)])
  have "NodeID ` set (DiffFlat (flat_data ?ns) (buildPrevState d (flat_data ?ns) True croot)) = {}"
    by (simp add: DiffFlat_changed [OF dist] full_prev [OF assms(1,2)] assms(7) Snapshot_states [OF dist])
  then have "DiffFlat (flat_data ?ns) (buildPrevState d (flat_data ?ns) True croot) = []"
    by (simp only: image_is_empty set_empty)
  then show ?thesis
    using assms(5,6) by (simp add: compile_roots_def Let_def Emit_def countResult_def)
qed

text \<open>C6: compiling again changes nothing: once a compilation of a directory has succeeded,
  compiling the same forest again reports zero changes and leaves the database untouched, whatever
  the engine does and whatever temperature updates came in between.\<close>

theorem Compile_idempotent:
  assumes "reachable h X C croot d" "croot \<noteq> []" "collision_free h X C" "forest_in h X C croot roots"
    and "oCompileRoot opts = croot" "oFullRescan opts"
    and "compile_roots h env ctxErr now opts roots d = (Inr r, d1)"
    and "d2 \<in> {d1, snd (DecayTemperatures t1 factor d1), BoostTemperatureBatch t1 is boost d1}"
  shows "compile_roots h env' ctxErr now' opts roots d2 = (Inr \<lparr>Added = 0, Modified = 0, Removed' = 0, Total = 0\<rparr>, d2)"
proof -
  note inv = compile_step_inv [OF reachable_inv [OF assms(1)] assms(2-7)]
  have "view (t_nodes (update_where P f d1)) = view (t_nodes d1)" if "row_update f" for P f
  proof
    fix i
    show "view (t_nodes (update_where P f d1)) i = view (t_nodes d1) i"
      using row_update.get_row_update [OF that, of P d1 i] row_update.keeps [OF that]
      by (cases "get_row (t_nodes d1) i") (auto simp: view_def row_state_def)
  qed
  note same = this [OF temp_boost.row_update_axioms] this [OF temp_decay.row_update_axioms]
  from assms(8) inv have "compile_inv h X C croot d2" "view (t_nodes d2) = view (t_nodes d1)"
    by (auto simp: temperature_statements temp_boost.compile_inv_update temp_decay.compile_inv_update same)
  with inv show ?thesis by (intro compile_again [OF _ assms(2-6)]) simp_all
qed

theorem Compile_synchronises_witness:
  "\<exists>r d'. compile_roots len_hash fair_env NoRows 0 scan_options two_files empty_db = (Inr r, d')
     \<and> view (t_nodes d') = map_of (SnapshotFromNodes (Transform len_hash two_files ''/v''))"
proof -
  have o: "oCompileRoot scan_options = ''/v''" "oFullRescan scan_options" by (simp_all add: scan_options_def)
  have "CursorHashFlat len_hash (flat_data (Transform len_hash two_files ''/v'')) \<notin> s_cursor_hash ` set (t_snapshots empty_db)"
    by (simp add: empty_db_def)
  from compile_succeeds [OF compile_inv_empty list.distinct(2) two_files_world o this, of NoRows 0]
  obtain r d1 where c: "compile_roots len_hash fair_env NoRows 0 scan_options two_files empty_db = (Inr r, d1)"
    by blast
  from Compile_synchronises [OF reach_empty list.distinct(2) two_files_world o c] c show ?thesis by blast
qed

theorem Compile_idempotent_witness:
  "\<exists>r d1. compile_roots len_hash fair_env NoRows 0 scan_options two_files empty_db = (Inr r, d1)
     \<and> compile_roots len_hash fair_env NoRows 9 scan_options two_files d1
       = (Inr \<lparr>Added = 0, Modified = 0, Removed' = 0, Total = 0\<rparr>, d1)"
proof -
  have o: "oCompileRoot scan_options = ''/v''" "oFullRescan scan_options" by (simp_all add: scan_options_def)
  have "CursorHashFlat len_hash (flat_data (Transform len_hash two_files ''/v'')) \<notin> s_cursor_hash ` set (t_snapshots empty_db)"
    by (simp add: empty_db_def)
  from compile_succeeds [OF compile_inv_empty list.distinct(2) two_files_world o this, of NoRows 0]
  obtain r d1 where c: "compile_roots len_hash fair_env NoRows 0 scan_options two_files empty_db = (Inr r, d1)"
    by blast
  from Compile_idempotent [OF reach_empty list.distinct(2) two_files_world o c, of d1] c show ?thesis by blast
qed

section \<open>Returning to an earlier state\<close>

definition id_hashes :: "node_data list \<Rightarrow> (string \<times> string) list" where
  "id_hashes flat = map (\<lambda>n. (ID n, Hash n)) flat"

lemma set_id_hashes:
  "distinct (map ID flat) \<Longrightarrow> set (id_hashes flat) = {(i, x). map_option StHash (states flat i) = Some x}"
proof (intro equalityI subsetI)
  fix p assume d: "distinct (map ID flat)" and "p \<in> set (id_hashes flat)"
  then obtain n where "n \<in> set flat" "p = (ID n, Hash n)" by (auto simp: id_hashes_def)
  with states_member [OF d] show "p \<in> {(i, x). map_option StHash (states flat i) = Some x}"
    by (simp add: state_of_def)
next
  fix p assume d: "distinct (map ID flat)" and "p \<in> {(i, x). map_option StHash (states flat i) = Some x}"
  then obtain i st where p: "p = (i, StHash st)" "states flat i = Some st" by auto
  then have "i \<in> ID ` set flat" using dom_states [of flat] by blast
  then obtain n where "n \<in> set flat" "i = ID n" by blast
  with p states_member [OF d] show "p \<in> set (id_hashes flat)" by (auto simp: id_hashes_def state_of_def)
qed

lemma same_states_same_cursor:
  assumes "distinct (map ID flat)" "distinct (map ID flat')"
    and "\<And>i. map_option StHash (states flat i) = map_option StHash (states flat' i)"
  shows "CursorHashFlat h flat = CursorHashFlat h flat'"
proof -
  have "set (id_hashes flat) = set (id_hashes flat')"
    by (simp add: set_id_hashes assms)
  moreover have "distinct (id_hashes ns)" if "distinct (map ID ns)" for ns
    using that by (induction ns) (auto simp: id_hashes_def)
  ultimately have "mset (id_hashes flat) = mset (id_hashes flat')"
    using assms(1,2) by (simp add: set_eq_iff_mset_eq_distinct)
  from mset_map_eq [OF this, of "\<lambda>(i, x). i @ '':'' @ x"]
  have "mset (map pair_of flat) = mset (map pair_of flat')"
    unfolding id_hashes_def pair_join .
  from mset_sort_eq [OF this] show ?thesis by (simp add: CursorHashFlat_input cursor_input_def)
qed

text \<open>C26: going back is refused: compile one state of a directory, then another, then the first one
  again. The first two succeed on an engine that does not refuse, the third fails on every
  engine and leaves the second state in place, because a cursor hash may be recorded only once.\<close>

theorem Compile_back_and_forth_fails:
  assumes "croot \<noteq> []" "collision_free h X C" "forest_in h X C croot rootsA" "forest_in h X C croot rootsB"
    and "oCompileRoot opts = croot" "oFullRescan opts" "rootsA \<noteq> []"
    and "CursorHashFlat h (flat_data (Transform h rootsA croot)) \<noteq> CursorHashFlat h (flat_data (Transform h rootsB croot))"
  shows "\<exists>rA d1 rB d2. compile_roots h fair_env ctxErr now opts rootsA empty_db = (Inr rA, d1)
    \<and> compile_roots h fair_env ctxErr now opts rootsB d1 = (Inr rB, d2)
    \<and> (\<forall>env. \<exists>e. compile_roots h env ctxErr now opts rootsA d2 = (Inl e, d2))"
proof -
  let ?A = "Transform h rootsA croot" and ?B = "Transform h rootsB croot"
  let ?hA = "CursorHashFlat h (flat_data ?A)" and ?hB = "CursorHashFlat h (flat_data ?B)"
  have dA: "distinct (map ID (flat_data ?A))" and dB: "distinct (map ID (flat_data ?B))"
    using compile_distinct assms(2-4) by blast+
  have neA: "flat_data ?A \<noteq> []"
  proof -
    have "map SourceFile (flat_data ?A) \<noteq> []"
      using assms(7) by (simp add: Transform_eq flat_sources_wire compressPrefix_def Let_def)
    then show ?thesis by simp
  qed
  have inv0: "compile_inv h X C croot empty_db" by (rule compile_inv_empty)
  from compile_succeeds [OF inv0 assms(1,2,3,5,6), of ctxErr now]
  obtain rA d1 where A: "compile_roots h fair_env ctxErr now opts rootsA empty_db = (Inr rA, d1)"
    and hashes1: "Diff ?A (buildPrevState empty_db (flat_data ?A) True croot) \<noteq> [] \<longrightarrow> s_cursor_hash ` set (t_snapshots d1) = {?hA}"
    by (auto simp: empty_db_def)
  have "Diff ?A (buildPrevState empty_db (flat_data ?A) True croot) \<noteq> []"
  proof -
    obtain n where n: "n \<in> set (flat_data ?A)" using neA by (cases "flat_data ?A") auto
    have "map_of (buildPrevState empty_db (flat_data ?A) True croot) (ID n) = None"
      by (simp add: full_prev [OF inv0 assms(1)]) (simp add: view_def empty_db_def)
    then have "ID n \<in> NodeID ` set (Diff ?A (buildPrevState empty_db (flat_data ?A) True croot))"
      using DiffFlat_changed [OF dA, of "buildPrevState empty_db (flat_data ?A) True croot"] states_member [OF dA n]
      by (simp add: Diff_def)
    then show ?thesis by auto
  qed
  with hashes1 have hashes1: "s_cursor_hash ` set (t_snapshots d1) = {?hA}" by blast
  have inv1: "compile_inv h X C croot d1" using compile_step_inv [OF inv0 assms(1,2,3,5,6) A] by blast
  have "?hB \<notin> s_cursor_hash ` set (t_snapshots d1)" using hashes1 assms(8) by auto
  from compile_succeeds [OF inv1 assms(1,2,4,5,6) this, of ctxErr now]
  obtain rB d2 where B: "compile_roots h fair_env ctxErr now opts rootsB d1 = (Inr rB, d2)"
    and hashes2: "Diff ?B (buildPrevState d1 (flat_data ?B) True croot) \<noteq> [] \<longrightarrow> s_cursor_hash ` set (t_snapshots d2) = insert ?hB (s_cursor_hash ` set (t_snapshots d1))"
    by (elim exE conjE) (rule that)
  have inv2: "compile_inv h X C croot d2" and v2: "view (t_nodes d2) = map_of (SnapshotFromNodes ?B)"
    using compile_step_inv [OF inv1 assms(1,2,4,5,6) B] by auto
  have v1: "view (t_nodes d1) = map_of (SnapshotFromNodes ?A)"
    using compile_step_inv [OF inv0 assms(1,2,3,5,6) A] by auto
  have differ: "\<exists>i. map_option StHash (states (flat_data ?A) i) \<noteq> map_option StHash (states (flat_data ?B) i)"
    using same_states_same_cursor [OF dA dB] assms(8) by blast
  have "Diff ?B (buildPrevState d1 (flat_data ?B) True croot) \<noteq> []"
  proof
    assume "Diff ?B (buildPrevState d1 (flat_data ?B) True croot) = []"
    with DiffFlat_changed [OF dB, of "buildPrevState d1 (flat_data ?B) True croot"] differ
    show False by (auto simp: Diff_def full_prev [OF inv1 assms(1)] v1 Snapshot_states [OF dA])
  qed
  with hashes1 hashes2 have old: "?hA \<in> s_cursor_hash ` set (t_snapshots d2)" by simp
  have ne: "Diff ?A (buildPrevState d2 (flat_data ?A) True croot) \<noteq> []"
  proof
    assume "Diff ?A (buildPrevState d2 (flat_data ?A) True croot) = []"
    with DiffFlat_changed [OF dA, of "buildPrevState d2 (flat_data ?A) True croot"] differ
    show False by (auto simp: Diff_def full_prev [OF inv2 assms(1)] v2 Snapshot_states [OF dB])
  qed
  have "\<exists>e. compile_roots h env ctxErr now opts rootsA d2 = (Inl e, d2)" for env
    using repeated_state_fails [OF old ne, of env ctxErr now ?A "oMessage opts" croot] assms(5,6)
    by (auto simp: compile_roots_def Let_def Diff_def)
  with A B show ?thesis by blast
qed

text \<open>Two states of one file for the witness, and a hash that tells them apart.\<close>

definition sum_hash :: "string \<Rightarrow> 64 word" where
  "sum_hash s = of_nat (sum_list (map of_char s))"

definition one_file :: "string \<Rightarrow> ContextNode list" where
  "one_file txt = [CNode (zero_data\<lparr>SourceFile := ''/v/a'', Content := txt\<rparr>) []]"

lemma one_file_chains: "forest_chains (one_file ''x'') ''/v'' = [[(''a'', 0)]]" "forest_chains (one_file ''y'') ''/v'' = [[(''a'', 0)]]"
  by code_simp+

lemma one_file_contents:
  "map Content (flat_data (Transform sum_hash (one_file ''x'') ''/v'')) = [''x'']"
  "map Content (flat_data (Transform sum_hash (one_file ''y'') ''/v'')) = [''y'']"
  by code_simp+

lemma one_file_cursors:
  "CursorHashFlat sum_hash (flat_data (Transform sum_hash (one_file ''x'') ''/v''))
    \<noteq> CursorHashFlat sum_hash (flat_data (Transform sum_hash (one_file ''y'') ''/v''))"
  by code_simp

theorem Compile_back_and_forth_fails_witness:
  "\<exists>rA d1 rB d2. compile_roots sum_hash fair_env NoRows 0 scan_options (one_file ''x'') empty_db = (Inr rA, d1)
    \<and> compile_roots sum_hash fair_env NoRows 0 scan_options (one_file ''y'') d1 = (Inr rB, d2)
    \<and> (\<forall>env. \<exists>e. compile_roots sum_hash env NoRows 0 scan_options (one_file ''x'') d2 = (Inl e, d2))"
proof (rule Compile_back_and_forth_fails [where croot = "''/v''" and X = "{[(''a'', 0)]}" and C = "{''x'', ''y''}"])
  have "sum_hash ''x'' \<noteq> sum_hash ''y''" by code_simp
  then show "collision_free sum_hash {[(''a'', 0)]} {''x'', ''y''}"
    by (auto simp: collision_free_def)
  show "forest_in sum_hash {[(''a'', 0)]} {''x'', ''y''} ''/v'' (one_file ''x'')"
    using arg_cong [OF one_file_contents(1), of set] by (simp add: forest_in_def one_file_chains)
  show "forest_in sum_hash {[(''a'', 0)]} {''x'', ''y''} ''/v'' (one_file ''y'')"
    using arg_cong [OF one_file_contents(2), of set] by (simp add: forest_in_def one_file_chains)
qed (simp_all add: scan_options_def one_file_cursors, simp add: one_file_def)

end
