(* ===== verification/Temperature.thy ===== *)
theory Temperature
  imports StoreOps
begin

text \<open>
  The package \<open>pkg/temperature\<close>: the configuration, decay and score, and the tracker that
  boosts, decays and reports cold nodes. The Go interface \<open>NodeStore\<close> is a record of operations
  on a store state, its contract the locale \<open>node_store\<close>, interpreted on the SQL statements.
  Durations and times are integers in nanoseconds; floats are reals.
\<close>

section \<open>Configuration\<close>

record Config =
  DecayRate :: real
  AccessBoost :: real
  ColdThreshold :: real
  NotifyThreshold :: real
  SummarizeRebound :: real
  TickInterval :: int
  ColdNotifyTTL :: int
  ColdNotifyLimit :: int

definition Minute :: int where "Minute = 60000000000"
definition Hour :: int where "Hour = 3600000000000"

definition DefaultConfig :: Config where
  "DefaultConfig = \<lparr>DecayRate = 0.05, AccessBoost = 0.15, ColdThreshold = 0.1, NotifyThreshold = 0.1,
     SummarizeRebound = 0.5, TickInterval = 5 * Minute, ColdNotifyTTL = Hour, ColdNotifyLimit = 50\<rparr>"

definition inUnit :: "real \<Rightarrow> bool" where
  "inUnit v = (0 \<le> v \<and> v \<le> 1)"

datatype config_error =
    DecayRate_negative real | AccessBoost_range real | ColdThreshold_range real
  | NotifyThreshold_range real | SummarizeRebound_range real
  | TickInterval_not_positive int | ColdNotifyLimit_not_positive int | ColdNotifyTTL_negative int

definition Validate :: "Config \<Rightarrow> config_error option" where
  "Validate c =
     (if DecayRate c < 0 then Some (DecayRate_negative (DecayRate c))
      else if \<not> inUnit (AccessBoost c) then Some (AccessBoost_range (AccessBoost c))
      else if \<not> inUnit (ColdThreshold c) then Some (ColdThreshold_range (ColdThreshold c))
      else if \<not> inUnit (NotifyThreshold c) then Some (NotifyThreshold_range (NotifyThreshold c))
      else if \<not> inUnit (SummarizeRebound c) then Some (SummarizeRebound_range (SummarizeRebound c))
      else if TickInterval c \<le> 0 then Some (TickInterval_not_positive (TickInterval c))
      else if ColdNotifyLimit c \<le> 0 then Some (ColdNotifyLimit_not_positive (ColdNotifyLimit c))
      else if ColdNotifyTTL c < 0 then Some (ColdNotifyTTL_negative (ColdNotifyTTL c))
      else None)"

section \<open>Decay and score\<close>

definition decayFactor :: "real \<Rightarrow> real \<Rightarrow> real" where
  "decayFactor rate hours = (if rate = 0 \<or> hours = 0 then 1 else exp (- rate * hours))"

definition coldFloor :: real where "coldFloor = 0.3"
definition tempWeight :: real where "tempWeight = 0.7"

definition Score :: "real \<Rightarrow> real \<Rightarrow> real" where
  "Score relevance temperature =
     (let temperature = max 0 (min 1 temperature);
          weight = coldFloor + tempWeight * temperature
      in if relevance = 0 \<or> weight = 0 then 0 else relevance * weight)"

definition duration_hours :: "int \<Rightarrow> real" where
  "duration_hours ns = real_of_int ns / real_of_int Hour"

section \<open>The tracker\<close>

record 's NodeStore =
  ns_BoostTemperatureBatch :: "string list \<Rightarrow> real \<Rightarrow> 's \<Rightarrow> error + 's"
  ns_DecayTemperatures :: "real \<Rightarrow> 's \<Rightarrow> error + (nat \<times> 's)"
  ns_GetColdNodes :: "real \<Rightarrow> int \<Rightarrow> 's \<Rightarrow> error + Node list"

record TickResult =
  Decayed :: nat
  Cold :: "Node list"

record Tracker =
  tr_cfg :: Config
  recentlyNotified :: "string \<rightharpoonup> int"

definition NewTracker :: "Config \<Rightarrow> config_error + Tracker" where
  "NewTracker cfg =
     (case Validate cfg of
        Some e \<Rightarrow> Inl e
      | None \<Rightarrow> Inr \<lparr>tr_cfg = cfg, recentlyNotified = Map.empty\<rparr>)"

definition RecordAccess :: "'s NodeStore \<Rightarrow> Tracker \<Rightarrow> string list \<Rightarrow> 's \<Rightarrow> error + 's" where
  "RecordAccess ns t is s =
     (if length is = 0 then Inr s
      else wrap_error ''failed to boost'' (ns_BoostTemperatureBatch ns is (AccessBoost (tr_cfg t)) s))"

definition evict :: "int \<Rightarrow> int \<Rightarrow> (string \<rightharpoonup> int) \<Rightarrow> (string \<rightharpoonup> int)" where
  "evict now ttl m = (\<lambda>i. case m i of None \<Rightarrow> None | Some ts \<Rightarrow> if now - ts > ttl then None else Some ts)"

definition dedupCold :: "Tracker \<Rightarrow> Node list \<Rightarrow> int \<Rightarrow> Node list \<times> Tracker" where
  "dedupCold t cold now =
     (let m = evict now (ColdNotifyTTL (tr_cfg t)) (recentlyNotified t)
      in (filter (\<lambda>n. m (nID n) = None) cold, t\<lparr>recentlyNotified := m\<rparr>))"

definition MarkNotified :: "Tracker \<Rightarrow> string list \<Rightarrow> int \<Rightarrow> Tracker" where
  "MarkNotified t is now =
     (if length is = 0 then t
      else t\<lparr>recentlyNotified := foldl (\<lambda>m i. m(i \<mapsto> now)) (recentlyNotified t) is\<rparr>)"

text \<open>\<open>Tick\<close> returns the store also when it fails: a decay that was committed stays.\<close>

definition Tick :: "'s NodeStore \<Rightarrow> Tracker \<Rightarrow> int \<Rightarrow> int \<Rightarrow> 's \<Rightarrow> (error + TickResult) \<times> Tracker \<times> 's" where
  "Tick ns t elapsed now s =
     (let factor = decayFactor (DecayRate (tr_cfg t)) (duration_hours elapsed)
      in case ns_DecayTemperatures ns factor s of
           Inl e \<Rightarrow> (Inl (Errorf ''failed to decay'' e), t, s)
         | Inr (decayed, s') \<Rightarrow>
             (case ns_GetColdNodes ns (ColdThreshold (tr_cfg t)) (ColdNotifyLimit (tr_cfg t)) s' of
                Inl e \<Rightarrow> (Inl (Errorf ''failed to get cold nodes'' e), t, s')
              | Inr cold \<Rightarrow>
                  (case dedupCold t cold now of
                     (out, t') \<Rightarrow> (Inr \<lparr>Decayed = decayed, Cold = out\<rparr>, t', s'))))"

text \<open>\<open>Run\<close> over the ticks that fire before the context ends: the arguments are the times, the result
  holds the batches the handler is called with. The handler may change tracker and store; it is an
  argument, and \<open>None\<close> is the nil handler.\<close>

fun Run :: "'s NodeStore \<Rightarrow> (Node list \<Rightarrow> int \<Rightarrow> Tracker \<times> 's \<Rightarrow> Tracker \<times> 's) option \<Rightarrow> int list
    \<Rightarrow> Tracker \<times> 's \<Rightarrow> Node list list \<times> Tracker \<times> 's" where
  "Run ns handler [] (t, s) = ([], t, s)"
| "Run ns handler (now # later) (t, s) =
     (case Tick ns t (TickInterval (tr_cfg t)) now s of
        (Inl e, t', s') \<Rightarrow> Run ns handler later (t', s')
      | (Inr result, t', s') \<Rightarrow>
          if length (Cold result) = 0 then Run ns handler later (t', s')
          else (case handler of
                  None \<Rightarrow> Run ns handler later (t', s')
                | Some handle \<Rightarrow>
                    (case Run ns handler later (handle (Cold result) now (t', s')) of
                       (batches, st) \<Rightarrow> (Cold result # batches, st))))"

section \<open>The store's side of the interface\<close>

definition run_update :: "(nat \<Rightarrow> attempt_env) \<Rightarrow> error \<Rightarrow> (db \<Rightarrow> db) \<Rightarrow> db \<Rightarrow> error + db" where
  "run_update env ctxErr f d =
     (case Tx env ctxErr (\<lambda>d. Inr (f d)) d of (Some e, _, _) \<Rightarrow> Inl e | (None, d', _) \<Rightarrow> Inr d')"

definition sql_node_store :: "(nat \<Rightarrow> attempt_env) \<Rightarrow> error \<Rightarrow> int \<Rightarrow> db NodeStore" where
  "sql_node_store env ctxErr now =
     \<lparr>ns_BoostTemperatureBatch = \<lambda>is boost d.
        if is = [] then Inr d else run_update env ctxErr (BoostTemperatureBatch now is boost) d,
      ns_DecayTemperatures = \<lambda>factor d.
        map_sum id (\<lambda>d'. (fst (DecayTemperatures now factor d), d')) (run_update env ctxErr (\<lambda>d. snd (DecayTemperatures now factor d)) d),
      ns_GetColdNodes = \<lambda>threshold limit d. Inr (GetColdNodes d threshold limit)\<rparr>"

text \<open>The contract: what the tracker may rely on. \<open>temp\<close> reads the temperature of a node.\<close>

locale node_store =
  fixes ns :: "'s NodeStore" and inv :: "'s \<Rightarrow> bool" and temp :: "'s \<Rightarrow> string \<rightharpoonup> real"
  assumes temp_range: "inv s \<Longrightarrow> temp s i = Some x \<Longrightarrow> 0 \<le> x \<and> x \<le> 1"
    and boost: "inv s \<Longrightarrow> is \<noteq> [] \<Longrightarrow> ns_BoostTemperatureBatch ns is b s = Inr s' \<Longrightarrow>
      inv s' \<and> temp s' i = (if i \<in> set is then map_option (\<lambda>x. clamp01 (x + b)) (temp s i) else temp s i)"
    and decay: "inv s \<Longrightarrow> 0 \<le> f \<Longrightarrow> f \<le> 1 \<Longrightarrow> ns_DecayTemperatures ns f s = Inr (k, s') \<Longrightarrow>
      inv s' \<and> temp s' i = map_option (\<lambda>x. x * f) (temp s i)"
    and cold: "inv s \<Longrightarrow> 0 \<le> limit \<Longrightarrow> ns_GetColdNodes ns thr limit s = Inr out \<Longrightarrow>
      length out \<le> nat limit \<and> (\<forall>n \<in> set out. temp s (nID n) = Some (nTemperature n) \<and> nTemperature n < thr)"
begin

lemma RecordAccess_warms:
  assumes "inv s" "0 \<le> AccessBoost (tr_cfg t)" "RecordAccess ns t is s = Inr s'" "temp s i = Some x"
  shows "inv s' \<and> (\<exists>y. temp s' i = Some y \<and> x \<le> y \<and> y \<le> 1 \<and> (i \<notin> set is \<longrightarrow> y = x))"
proof (cases "is = []")
  case True
  with assms temp_range [OF assms(1,4)] show ?thesis by (simp add: RecordAccess_def)
next
  case False
  with assms have "ns_BoostTemperatureBatch ns is (AccessBoost (tr_cfg t)) s = Inr s'" by (simp add: RecordAccess_def)
  from boost [OF assms(1) False this, of i] show ?thesis
    using assms(2,4) temp_range [OF assms(1,4)] by (auto simp: clamp01_def)
qed

lemma Tick_effect:
  assumes "inv s" "Validate (tr_cfg t) = None" "0 \<le> elapsed" "Tick ns t elapsed now s = (Inr r, t', s')"
  shows "inv s' \<and> tr_cfg t' = tr_cfg t
    \<and> (\<forall>i. temp s' i = map_option (\<lambda>x. x * decayFactor (DecayRate (tr_cfg t)) (duration_hours elapsed)) (temp s i))
    \<and> int (length (Cold r)) \<le> ColdNotifyLimit (tr_cfg t)
    \<and> (\<forall>n \<in> set (Cold r). nTemperature n < ColdThreshold (tr_cfg t) \<and> temp s' (nID n) = Some (nTemperature n)
         \<and> (\<forall>ts. recentlyNotified t (nID n) = Some ts \<longrightarrow> ColdNotifyTTL (tr_cfg t) < now - ts))"
proof -
  let ?f = "decayFactor (DecayRate (tr_cfg t)) (duration_hours elapsed)"
  have cfg: "0 \<le> DecayRate (tr_cfg t)" "0 < ColdNotifyLimit (tr_cfg t)"
    using assms(2) by (auto simp: Validate_def not_less split: if_splits)
  have "0 \<le> duration_hours elapsed" using assms(3) by (simp add: duration_hours_def Hour_def)
  with cfg(1) have f: "0 \<le> ?f" "?f \<le> 1" by (auto simp: decayFactor_def)
  obtain p where "ns_DecayTemperatures ns ?f s = Inr p"
    using assms(4) by (cases "ns_DecayTemperatures ns ?f s") (simp_all add: Tick_def Let_def)
  then obtain k s1 where d1: "ns_DecayTemperatures ns ?f s = Inr (k, s1)" by (cases p) simp
  obtain cold where c1: "ns_GetColdNodes ns (ColdThreshold (tr_cfg t)) (ColdNotifyLimit (tr_cfg t)) s1 = Inr cold"
    using assms(4) d1 by (cases "ns_GetColdNodes ns (ColdThreshold (tr_cfg t)) (ColdNotifyLimit (tr_cfg t)) s1") (simp_all add: Tick_def Let_def)
  have s1: "s1 = s'" and r: "Cold r = fst (dedupCold t cold now)" "t' = snd (dedupCold t cold now)"
    using assms(4) by (auto simp: Tick_def d1 c1 case_prod_beta)
  note d = d1 [unfolded s1] and c = c1 [unfolded s1]
  have inv': "inv s'" and temps: "\<And>i. temp s' i = map_option (\<lambda>x. x * ?f) (temp s i)"
    using decay [OF assms(1) f d] by auto
  have sub: "Cold r = filter (\<lambda>n. evict now (ColdNotifyTTL (tr_cfg t)) (recentlyNotified t) (nID n) = None) cold"
    using r(1) by (simp add: dedupCold_def Let_def)
  have "length (Cold r) \<le> nat (ColdNotifyLimit (tr_cfg t))"
    using cold [OF inv' _ c] cfg(2) unfolding sub by (meson le_trans length_filter_le less_imp_le)
  then have "int (length (Cold r)) \<le> ColdNotifyLimit (tr_cfg t)" using cfg(2) by linarith
  moreover have "\<forall>n \<in> set (Cold r). nTemperature n < ColdThreshold (tr_cfg t) \<and> temp s' (nID n) = Some (nTemperature n)
      \<and> (\<forall>ts. recentlyNotified t (nID n) = Some ts \<longrightarrow> ColdNotifyTTL (tr_cfg t) < now - ts)"
    using cold [OF inv' _ c] cfg(2) unfolding sub by (auto simp: evict_def split: option.splits if_splits)
  moreover have "tr_cfg t' = tr_cfg t" using r(2) by (simp add: dedupCold_def Let_def)
  ultimately show ?thesis using inv' temps by blast
qed

end

section \<open>The statements meet the contract\<close>

definition row_temp :: "db \<Rightarrow> string \<rightharpoonup> real" where
  "row_temp d i = map_option c_temperature (get_row (t_nodes d) i)"

lemma run_update_Inr: "run_update env e f d = Inr d' \<Longrightarrow> d' = f d"
  by (auto simp: run_update_def split: prod.splits option.splits dest!: Tx_atomic)

lemma run_update_fair: "run_update fair_env e f d = Inr (f d)"
  by (simp add: run_update_def Tx_fair)

lemma in_take_sort: "x \<in> set (take k (sort_key f xs)) \<Longrightarrow> x \<in> set xs"
  by (metis in_set_takeD set_sort)

lemma sql_temp_range: "temps_ok d \<Longrightarrow> row_temp d i = Some x \<Longrightarrow> 0 \<le> x \<and> x \<le> 1"
  by (auto simp: row_temp_def temps_ok_def dest: get_row_Some)

lemma row_temp_boost:
  "row_temp (update_where (\<lambda>r. c_id r \<in> S) (boost_row now b) d) i
    = (if i \<in> S then map_option (\<lambda>x. clamp01 (x + b)) (row_temp d i) else row_temp d i)"
  by (cases "get_row (t_nodes d) i")
     (auto simp: row_temp_def temp_boost.get_row_update boost_row_def dest: get_row_Some)

lemma row_temp_decay:
  assumes "temps_ok d" "0 \<le> f" "f \<le> 1"
  shows "row_temp (snd (DecayTemperatures now f d)) i = map_option (\<lambda>x. x * f) (row_temp d i)"
proof (cases "get_row (t_nodes d) i")
  case (Some r)
  then have t: "0 \<le> c_temperature r" "c_temperature r \<le> 1"
    using assms(1) by (auto simp: temps_ok_def dest: get_row_Some)
  then have "0 \<le> c_temperature r * f" "c_temperature r * f \<le> 1"
    using assms(2,3) by (simp_all add: mult_le_one)
  with t Some show ?thesis
    by (auto simp: row_temp_def DecayTemperatures_def temp_decay.get_row_update clamp01_id)
qed (simp add: row_temp_def DecayTemperatures_def temp_decay.get_row_update)

lemma sql_cold:
  assumes "db_ok d" "0 \<le> limit" "n \<in> set (GetColdNodes d thr limit)"
  shows "row_temp d (nID n) = Some (nTemperature n) \<and> nTemperature n < thr"
proof -
  from assms(2,3) obtain r where "r \<in> set (take (nat limit) (sort_key c_temperature (filter (\<lambda>r. c_temperature r < thr) (t_nodes d))))"
    "n = scanNode r" by (auto simp: GetColdNodes_def Let_def not_less [symmetric])
  with in_take_sort have "r \<in> set (t_nodes d)" "c_temperature r < thr" "n = scanNode r" by fastforce+
  with assms(1) show ?thesis by (simp add: row_temp_def scanNode_def get_row_member db_ok_def nodes_ok_def)
qed

interpretation sql: node_store "sql_node_store env ctxErr now" "\<lambda>d. db_ok d \<and> temps_ok d" row_temp for env ctxErr now
proof
  fix s i x assume "db_ok s \<and> temps_ok s" "row_temp s i = Some x"
  then show "0 \<le> x \<and> x \<le> 1" using sql_temp_range by blast
next
  fix s s' "is" b i
  assume s: "db_ok s \<and> temps_ok s" "is \<noteq> []"
    and "ns_BoostTemperatureBatch (sql_node_store env ctxErr now) is b s = Inr s'"
  then have "run_update env ctxErr (BoostTemperatureBatch now is b) s = Inr s'"
    by (simp add: sql_node_store_def)
  from run_update_Inr [OF this] s(2) have "s' = update_where (\<lambda>r. c_id r \<in> set is) (boost_row now b) s"
    by (simp add: BoostTemperatureBatch_def)
  moreover have "temps_ok (update_where P (boost_row now b) s)" for P
    using s by (intro temps_ok_update) (auto simp: boost_row_def clamp01_range)
  ultimately show "(db_ok s' \<and> temps_ok s') \<and> row_temp s' i = (if i \<in> set is then map_option (\<lambda>x. clamp01 (x + b)) (row_temp s i) else row_temp s i)"
    using s(1) by (simp add: temp_boost.db_ok_update row_temp_boost)
next
  fix s s' f k i
  assume s: "db_ok s \<and> temps_ok s" "0 \<le> f" "f \<le> 1"
    and "ns_DecayTemperatures (sql_node_store env ctxErr now) f s = Inr (k, s')"
  then have s': "s' = snd (DecayTemperatures now f s)"
    by (auto simp: sql_node_store_def map_sum_def split: sum.splits dest: run_update_Inr)
  have "temps_ok s'" unfolding s' DecayTemperatures_def snd_conv
    using s(1) by (intro temps_ok_update) (auto simp: clamp01_range)
  moreover have "db_ok s'" unfolding s' using s(1) by (simp add: DecayTemperatures_def temp_decay.db_ok_update)
  ultimately show "(db_ok s' \<and> temps_ok s') \<and> row_temp s' i = map_option (\<lambda>x. x * f) (row_temp s i)"
    using row_temp_decay [of s f now i] s by (simp add: s')
next
  fix s limit thr out
  assume s: "db_ok s \<and> temps_ok s" "0 \<le> limit" and "ns_GetColdNodes (sql_node_store env ctxErr now) thr limit s = Inr out"
  then have "out = GetColdNodes s thr limit" by (simp add: sql_node_store_def)
  moreover have "length (GetColdNodes s thr limit) \<le> nat limit" using s(2) by (simp add: GetColdNodes_def Let_def)
  ultimately show "length out \<le> nat limit \<and> (\<forall>n \<in> set out. row_temp s (nID n) = Some (nTemperature n) \<and> nTemperature n < thr)"
    using sql_cold [of s limit] s by blast
qed

text \<open>A tick cools and reports: with a valid configuration a tick that succeeds multiplies every
  temperature by the decay factor, keeps the database invariant and temperatures between 0 and 1, and
  reports at most the configured number of nodes, each colder than the threshold and none notified
  within the configured time.\<close>

theorem Tick_cools_and_reports:
  assumes "db_ok d" "temps_ok d" "Validate (tr_cfg t) = None" "0 \<le> elapsed"
    and "Tick (sql_node_store env ctxErr now') t elapsed now d = (Inr r, t', d')"
  shows "db_ok d' \<and> temps_ok d'
    \<and> (\<forall>i. row_temp d' i = map_option (\<lambda>x. x * decayFactor (DecayRate (tr_cfg t)) (duration_hours elapsed)) (row_temp d i))
    \<and> int (length (Cold r)) \<le> ColdNotifyLimit (tr_cfg t)
    \<and> (\<forall>n \<in> set (Cold r). nTemperature n < ColdThreshold (tr_cfg t) \<and> row_temp d' (nID n) = Some (nTemperature n)
         \<and> (\<forall>ts. recentlyNotified t (nID n) = Some ts \<longrightarrow> ColdNotifyTTL (tr_cfg t) < now - ts))"
  using sql.Tick_effect [OF _ assms(3-5)] assms(1,2) by blast

lemma Validate_Default: "Validate DefaultConfig = None"
  by (simp add: Validate_def DefaultConfig_def inUnit_def Minute_def Hour_def)

theorem Tick_cools_and_reports_witness:
  "\<exists>r t' d'. Tick (sql_node_store fair_env NoRows 0) \<lparr>tr_cfg = DefaultConfig, recentlyNotified = Map.empty\<rparr> Hour 0
      (empty_db\<lparr>t_nodes := [sample_row ''a'' None]\<rparr>) = (Inr r, t', d')
    \<and> row_temp d' ''a'' = Some (exp (- (1/20)) / 2)"
proof -
  let ?d = "empty_db\<lparr>t_nodes := [sample_row ''a'' None]\<rparr>" and ?t = "\<lparr>tr_cfg = DefaultConfig, recentlyNotified = Map.empty\<rparr>"
  have ok: "db_ok ?d" "temps_ok ?d"
    using db_ok_empty by (simp_all add: db_ok_def nodes_ok_def fk_ok_def temps_ok_def sample_row_def empty_db_def history_ok_def)
  obtain r t' d' where t: "Tick (sql_node_store fair_env NoRows 0) ?t Hour 0 ?d = (Inr r, t', d')"
    by (simp add: Tick_def sql_node_store_def run_update_fair Let_def case_prod_beta)
  have "row_temp ?d ''a'' = Some (1/2)" by (simp add: row_temp_def sample_row_def)
  then show ?thesis
    using Tick_cools_and_reports [OF ok _ _ t] t Validate_Default
    by (auto simp: DefaultConfig_def decayFactor_def duration_hours_def Hour_def)
qed

section \<open>Notification\<close>

lemma foldl_mark: "foldl (\<lambda>m i. m(i \<mapsto> now)) m is i = (if i \<in> set is then Some now else m i)"
  by (induction "is" arbitrary: m) auto

text \<open>A cold node is reported once per interval: after it was marked as notified no tick
  reports it until more than the configured time has passed, and then the record of it is
  dropped so that it is reported again.\<close>

theorem dedupCold_once_per_interval:
  assumes "nID n \<in> set is" "n \<in> set cold"
  shows "n \<in> set (fst (dedupCold (MarkNotified t is t0) cold now)) \<longleftrightarrow> ColdNotifyTTL (tr_cfg t) < now - t0"
  using assms by (cases "is") (auto simp: dedupCold_def MarkNotified_def Let_def evict_def foldl_mark)

theorem dedupCold_once_per_interval_witness:
  "scanNode (sample_row ''a'' None) \<notin> set (fst (dedupCold (MarkNotified \<lparr>tr_cfg = DefaultConfig, recentlyNotified = Map.empty\<rparr> [''a''] 0)
     [scanNode (sample_row ''a'' None)] Hour))"
  using dedupCold_once_per_interval [of "scanNode (sample_row ''a'' None)" "[''a'']" "[scanNode (sample_row ''a'' None)]"
      "\<lparr>tr_cfg = DefaultConfig, recentlyNotified = Map.empty\<rparr>" 0 Hour]
  by (simp add: scanNode_def sample_row_def DefaultConfig_def)

text \<open>The score keeps cold nodes findable: for a relevance that is not negative the score is
  between three tenths of it and all of it, is monotone in the temperature, and ignores temperatures
  outside 0 and 1 beyond the bound.\<close>

theorem Score_bounds:
  assumes "0 \<le> rel" "t \<le> u"
  shows "0.3 * rel \<le> Score rel t \<and> Score rel t \<le> rel \<and> Score rel t \<le> Score rel u"
proof -
  have s: "Score rel x = rel * (0.3 + 0.7 * clamp01 x)" for x
    using clamp01_range [of x] by (auto simp: Score_def Let_def coldFloor_def tempWeight_def clamp01_def)
  have "clamp01 t \<le> clamp01 u" using assms(2) by (auto simp: clamp01_def)
  then have "rel * (0.3 + 0.7 * clamp01 t) \<le> rel * (0.3 + 0.7 * clamp01 u)" using assms(1) by (intro mult_left_mono) auto
  moreover have "rel * 0.3 \<le> rel * (0.3 + 0.7 * clamp01 t)" using assms(1) clamp01_range [of t] by (intro mult_left_mono) auto
  moreover have "rel * (0.3 + 0.7 * clamp01 t) \<le> rel * 1" using assms(1) clamp01_range [of t] by (intro mult_left_mono) auto
  ultimately show ?thesis by (simp add: s)
qed

theorem Score_bounds_witness: "(0.3 :: real) * 10 \<le> Score 10 0"
  using Score_bounds [of 10 0 1] by simp

end
