(* ===== verification/Ignore.thy ===== *)
theory Ignore
  imports Tables Paths
begin

text \<open>
  The package \<open>internal/ignore\<close>: the sidecar file \<open>.remindb.ignore\<close>, its parser and the
  matcher the directory walk asks. The first section is Go's \<open>path.Match\<close> (standard library), which
  matches one path segment and which the parser also uses to validate one. The results: matching never
  meets the syntax error it ignores, \<open>**\<close> means any number of segments, the last matching line
  decides.
\<close>

section \<open>Matching a segment: path.Match\<close>

definition ErrBadPattern :: error where
  "ErrBadPattern = Driver ''syntax error in pattern''"

definition rune_value :: "string \<Rightarrow> int" where
  \<comment> \<open>the code point of a well-formed rune\<close>
  "rune_value s =
     (case map of_char s of
        [a] \<Rightarrow> a
      | [a, b] \<Rightarrow> (a - 192) * 64 + (b - 128)
      | [a, b, c] \<Rightarrow> (a - 224) * 4096 + (b - 128) * 64 + (c - 128)
      | [a, b, c, d] \<Rightarrow> (a - 240) * 262144 + (b - 128) * 4096 + (c - 128) * 64 + (d - 128)
      | _ \<Rightarrow> 0)"

definition RuneError :: int where "RuneError = 65533"

definition DecodeRuneInString :: "string \<Rightarrow> int \<times> nat" where
  "DecodeRuneInString s =
     (if s = [] then (RuneError, 0)
      else case rune_len s of None \<Rightarrow> (RuneError, 1) | Some n \<Rightarrow> (rune_value (take n s), n))"

definition getEsc :: "string \<Rightarrow> error + (int \<times> string)" where
  \<comment> \<open>a possibly escaped character of a class; something must follow it\<close>
  "getEsc chunk =
     (if chunk = [] \<or> hd chunk = CHR ''-'' \<or> hd chunk = CHR '']'' then Inl ErrBadPattern
      else let chunk = (if hd chunk = BSL then tl chunk else chunk)
           in if chunk = [] then Inl ErrBadPattern
              else (case DecodeRuneInString chunk of
                      (r, n) \<Rightarrow>
                        if r = RuneError \<and> n = 1 then Inl ErrBadPattern
                        else if drop n chunk = [] then Inl ErrBadPattern
                        else Inr (r, drop n chunk)))"

lemma DecodeRune_width: "s \<noteq> [] \<Longrightarrow> DecodeRuneInString s = (r, n) \<Longrightarrow> 1 \<le> n \<and> n \<le> length s"
  by (cases s) (auto simp: DecodeRuneInString_def Let_def split: option.splits dest!: rune_len_shape)

lemma getEsc_shrinks: "getEsc chunk = Inr (r, rest) \<Longrightarrow> length rest < length chunk \<and> rest \<noteq> []"
proof -
  assume a: "getEsc chunk = Inr (r, rest)"
  let ?c = "if hd chunk = BSL then tl chunk else chunk"
  obtain r' n where d: "DecodeRuneInString ?c = (r', n)" by fastforce
  with a have "chunk \<noteq> []" "?c \<noteq> []" "rest = drop n ?c" "rest \<noteq> []"
    by (auto simp: getEsc_def Let_def split: if_splits)
  moreover have "1 \<le> n" using DecodeRune_width [OF \<open>?c \<noteq> []\<close> d] by simp
  moreover have "length ?c \<le> length chunk" by simp
  moreover have "0 < length ?c" using \<open>?c \<noteq> []\<close> by blast
  ultimately show ?thesis by (simp only: length_drop) (simp del: length_greater_0_conv)
qed

text \<open>The ranges of a character class up to its closing bracket: whether the rune \<open>r\<close> is in one, and
  the rest of the chunk.\<close>

function match_class :: "int \<Rightarrow> bool \<Rightarrow> nat \<Rightarrow> string \<Rightarrow> error + (bool \<times> string)" where
  "match_class r matched nrange chunk =
     (if chunk \<noteq> [] \<and> hd chunk = CHR '']'' \<and> 0 < nrange then Inr (matched, tl chunk)
      else case getEsc chunk of
             Inl e \<Rightarrow> Inl e
           | Inr (lo, chunk1) \<Rightarrow>
               if hd chunk1 = CHR ''-'' then
                 (case getEsc (tl chunk1) of
                    Inl e \<Rightarrow> Inl e
                  | Inr (hi, chunk2) \<Rightarrow> match_class r (matched \<or> (lo \<le> r \<and> r \<le> hi)) (nrange + 1) chunk2)
               else match_class r (matched \<or> lo = r) (nrange + 1) chunk1)"
  by pat_completeness auto

termination
proof (relation "measure (\<lambda>(r, m, k, chunk). length chunk)", goal_cases)
  case (2 r m k chunk x lo chunk1 y hi chunk2)
  then show ?case using getEsc_shrinks [of chunk lo chunk1] getEsc_shrinks [of "tl chunk1" hi chunk2]
    by (cases chunk1) auto
next
  case (3 r m k chunk x lo chunk1)
  then show ?case using getEsc_shrinks [of chunk lo chunk1] by auto
qed simp

declare match_class.simps [simp del]

lemma match_class_shrinks: "match_class r m k chunk = Inr (b, rest) \<Longrightarrow> length rest < length chunk"
proof (induction r m k chunk rule: match_class.induct)
  case (1 r m k chunk)
  show ?case
  proof (cases "chunk \<noteq> [] \<and> hd chunk = CHR '']'' \<and> 0 < k")
    case True
    with 1(3) show ?thesis by (subst (asm) match_class.simps) (cases chunk; auto)
  next
    case False
    with 1(3) obtain lo c1 where c1: "getEsc chunk = Inr (lo, c1)"
      by (subst (asm) match_class.simps) (auto split: sum.splits)
    note s1 = getEsc_shrinks [OF this]
    show ?thesis
    proof (cases "hd c1 = CHR ''-''")
      case True
      with 1(3) False c1 obtain hi c2 where c2: "getEsc (tl c1) = Inr (hi, c2)"
        by (subst (asm) match_class.simps) (auto split: sum.splits)
      with 1(3) True False c1 have "match_class r (m \<or> (lo \<le> r \<and> r \<le> hi)) (k + 1) c2 = Inr (b, rest)"
        by (subst (asm) match_class.simps) auto
      from 1(1) [OF False c1 refl True c2 refl this] s1 getEsc_shrinks [OF c2] show ?thesis by auto
    next
      case no: False
      with 1(3) False c1 have "match_class r (m \<or> lo = r) (k + 1) c1 = Inr (b, rest)"
        by (subst (asm) match_class.simps) auto
      from 1(2) [OF False c1 refl no this] s1 show ?thesis by auto
    qed
  qed
qed

text \<open>Matching a chunk without stars against the start of \<open>s\<close>. Once the match has failed the
  loop goes on through the chunk for its syntax and no longer reads \<open>s\<close>.\<close>

function matchChunk_loop :: "bool \<Rightarrow> string \<Rightarrow> string \<Rightarrow> error + (string \<times> bool)" where
  "matchChunk_loop failed [] s = Inr (if failed then ([], False) else (s, True))"
| "matchChunk_loop failed (c # chunk) s =
     (let failed = (failed \<or> s = [])
      in if c = CHR ''['' then
           (let (r, n) = (if failed then (0, 0) else DecodeRuneInString s);
                negated = (chunk \<noteq> [] \<and> hd chunk = CHR ''^'')
            in case match_class r False 0 (if negated then tl chunk else chunk) of
                 Inl e \<Rightarrow> Inl e
               | Inr (matched, rest) \<Rightarrow> matchChunk_loop (failed \<or> matched = negated) rest (drop n s))
         else if c = CHR ''?'' then
           (if failed then matchChunk_loop True chunk s
            else matchChunk_loop (hd s = CHR ''/'') chunk (drop (snd (DecodeRuneInString s)) s))
         else if c = BSL \<and> chunk = [] then Inl ErrBadPattern
         else
           (let (c, chunk) = (if c = BSL then (hd chunk, tl chunk) else (c, chunk))
            in if failed then matchChunk_loop True chunk s
               else matchChunk_loop (c \<noteq> hd s) chunk (tl s)))"
  by pat_completeness auto

termination
proof (relation "measure (\<lambda>(failed, chunk, s). length chunk)", goal_cases)
  case 1 show ?case by simp
next
  case prems: (2 failed c chunk s failed' x r n negated matched y rest)
  then show ?case by (auto dest!: match_class_shrinks split: if_splits)
qed (auto split: if_splits)

definition matchChunk :: "string \<Rightarrow> string \<Rightarrow> error + (string \<times> bool)" where
  "matchChunk chunk s = matchChunk_loop False chunk s"

function scanChunk_loop :: "bool \<Rightarrow> string \<Rightarrow> nat \<Rightarrow> nat" where
  \<comment> \<open>the index of the first star outside a class\<close>
  "scanChunk_loop inrange pattern i =
     (if i < length pattern then
        if pattern ! i = BSL then scanChunk_loop inrange pattern (if i + 1 < length pattern then i + 2 else i + 1)
        else if pattern ! i = CHR ''['' then scanChunk_loop True pattern (i + 1)
        else if pattern ! i = CHR '']'' then scanChunk_loop False pattern (i + 1)
        else if pattern ! i = CHR ''*'' \<and> \<not> inrange then i
        else scanChunk_loop inrange pattern (i + 1)
      else i)"
  by pat_completeness auto

termination by (relation "measure (\<lambda>(b, p, i). length p - i)") auto

declare scanChunk_loop.simps [simp del]

definition scanChunk :: "string \<Rightarrow> bool \<times> string \<times> string" where
  "scanChunk pattern =
     (let star = (pattern \<noteq> [] \<and> hd pattern = CHR ''*'');
          pattern = dropWhile (\<lambda>c. c = CHR ''*'') pattern;
          i = scanChunk_loop False pattern 0
      in (star, take i pattern, drop i pattern))"

lemma scanChunk_loop_ge: "i \<le> scanChunk_loop b p i"
proof (induction b p i rule: scanChunk_loop.induct)
  case (1 b p i)
  show ?case
  proof (cases "i < length p")
    case True
    have "i \<le> scanChunk_loop b' p (Suc i)" if "Suc i \<le> scanChunk_loop b' p (Suc i)" for b'
      using that by (rule Suc_leD)
    with 1 True show ?thesis by (cases "p ! i = BSL"; subst scanChunk_loop.simps) (auto split: if_splits)
  qed (subst scanChunk_loop.simps, simp)
qed

lemma scanChunk_loop_moves:
  assumes "i < length p" "p ! i \<noteq> CHR ''*''"
  shows "i < scanChunk_loop b p i"
proof -
  have "i < scanChunk_loop b' p (i + 1)" for b' using scanChunk_loop_ge [of "i + 1" b' p] by simp
  moreover have "i < scanChunk_loop b p (i + 2)" using scanChunk_loop_ge [of "i + 2" b p] by simp
  ultimately show ?thesis using assms by (subst scanChunk_loop.simps) (simp del: One_nat_def add_2_eq_Suc' add_Suc_right)
qed

lemma scanChunk_shrinks:
  assumes "scanChunk p = (star, chunk, rest)" "p \<noteq> []"
  shows "length rest < length p"
proof -
  let ?q = "dropWhile (\<lambda>c. c = CHR ''*'') p"
  have rest: "rest = drop (scanChunk_loop False ?q 0) ?q" using assms(1) by (simp add: scanChunk_def Let_def)
  show ?thesis
  proof (cases "hd p = CHR ''*''")
    case True
    with assms(2) have "length ?q < length p" by (cases p) (auto simp: length_dropWhile_le less_Suc_eq_le)
    then show ?thesis unfolding rest by simp
  next
    case False
    with assms(2) have q: "?q = p" by (cases p) auto
    have "0 < scanChunk_loop False p 0"
      using assms(2) False by (intro scanChunk_loop_moves) (auto simp: hd_conv_nth)
    then show ?thesis unfolding rest q using assms(2) by (cases p) auto
  qed
qed

text \<open>A star before the chunk: try it after each byte of the name that is not a slash. The result
  is the rest of the name where it matched.\<close>

fun match_skipping :: "string \<Rightarrow> bool \<Rightarrow> string \<Rightarrow> error + string option" where
  "match_skipping chunk lastChunk [] = Inr None"
| "match_skipping chunk lastChunk (c # name) =
     (if c = CHR ''/'' then Inr None
      else case matchChunk chunk name of
             Inl e \<Rightarrow> Inl e
           | Inr (t, ok) \<Rightarrow>
               if ok \<and> \<not> (lastChunk \<and> t \<noteq> []) then Inr (Some t)
               else match_skipping chunk lastChunk name)"

function check_chunks :: "string \<Rightarrow> error option" where
  \<comment> \<open>the syntax of the rest of a pattern that did not match\<close>
  "check_chunks pattern =
     (if pattern = [] then None
      else case scanChunk pattern of
             (star, chunk, rest) \<Rightarrow>
               (case matchChunk chunk [] of Inl e \<Rightarrow> Some e | Inr _ \<Rightarrow> check_chunks rest))"
  by pat_completeness auto

termination by (relation "measure length") (auto dest: scanChunk_shrinks [OF sym])

declare check_chunks.simps [simp del]

function path_Match :: "string \<Rightarrow> string \<Rightarrow> error + bool" where
  "path_Match pattern name =
     (if pattern = [] then Inr (name = [])
      else case scanChunk pattern of
        (star, chunk, rest) \<Rightarrow>
          if star \<and> chunk = [] then Inr (CHR ''/'' \<notin> set name)
          else case matchChunk chunk name of
            Inl e \<Rightarrow> Inl e
          | Inr (t, ok) \<Rightarrow>
              if ok \<and> (t = [] \<or> rest \<noteq> []) then path_Match rest t
              else case (if star then match_skipping chunk (rest = []) name else Inr None) of
                     Inl e \<Rightarrow> Inl e
                   | Inr (Some t) \<Rightarrow> path_Match rest t
                   | Inr None \<Rightarrow> (case check_chunks rest of Some e \<Rightarrow> Inl e | None \<Rightarrow> Inr False))"
  by pat_completeness auto

termination by (relation "measure (\<lambda>(p, s). length p)") (auto dest: scanChunk_shrinks [OF sym])

declare path_Match.simps [simp del]


section \<open>Patterns\<close>

record pattern =
  pRaw :: string
  segments :: "string list"
  dirOnly :: bool
  anchored :: bool
  negated :: bool

type_synonym Matcher = "pattern list"

text \<open>The messages leave out the quotes \<open>%q\<close> puts around the line.\<close>

fun check_segments :: "string \<Rightarrow> string list \<Rightarrow> error option" where
  "check_segments raw [] = None"
| "check_segments raw (seg # segs) =
     (if seg = ''**'' then check_segments raw segs
      else case path_Match seg [] of
             Inl e \<Rightarrow> Some (Errorf (''invalid pattern '' @ raw) e)
           | Inr _ \<Rightarrow> check_segments raw segs)"

definition parse_segments :: "string \<Rightarrow> string \<Rightarrow> bool \<Rightarrow> bool \<Rightarrow> bool \<Rightarrow> error + pattern" where
  \<comment> \<open>what is left of the line after its markers\<close>
  "parse_segments raw s dirs anch neg =
     (let anch = (anch \<or> CHR ''/'' \<in> set s)
      in if s = [] then Inl (Driver (''empty pattern: '' @ raw))
         else let segs = splitOn (CHR ''/'') s
              in if [] \<in> set segs then Inl (Driver (''empty path segment (consecutive slashes): '' @ raw))
                 else (case check_segments raw segs of
                         Some e \<Rightarrow> Inl e
                       | None \<Rightarrow> Inr \<lparr>pRaw = raw, segments = segs, dirOnly = dirs, anchored = anch, negated = neg\<rparr>))"

definition parsePattern :: "string \<Rightarrow> error + pattern" where
  "parsePattern raw =
     (let escaped = (2 \<le> length raw \<and> raw ! 0 = BSL \<and> (raw ! 1 = CHR ''!'' \<or> raw ! 1 = CHR ''#''));
          s = (if escaped then drop 1 raw else raw);
          neg = (\<not> escaped \<and> HasPrefix s ''!'');
          s = (if neg then drop 1 s else s);
          anch = HasPrefix s ''/'';
          s = (if anch then drop 1 s else s);
          dirs = HasSuffix s ''/'';
          s = (if dirs then TrimSuffix s ''/'' else s)
      in parse_segments raw s dirs anch neg)"

definition matchSegment :: "string \<Rightarrow> string \<Rightarrow> bool" where
  "matchSegment pat seg = (case path_Match pat seg of Inl _ \<Rightarrow> False | Inr ok \<Rightarrow> ok)"

fun matchPath :: "string list \<Rightarrow> string list \<Rightarrow> bool" where
  "matchPath [] pathSegs = (pathSegs = [])"
| "matchPath (p # ps) pathSegs =
     (if p = ''**'' then list_ex (\<lambda>i. matchPath ps (drop i pathSegs)) [0..<length pathSegs + 1]
      else case pathSegs of
             [] \<Rightarrow> False
           | s # ss \<Rightarrow> if matchSegment p s then matchPath ps ss else False)"

definition matchPattern :: "pattern \<Rightarrow> string list \<Rightarrow> bool" where
  "matchPattern p pathSegs =
     (if \<not> anchored p then matchSegment (hd (segments p)) (last pathSegs)
      else matchPath (segments p) pathSegs)"

fun Match_loop :: "pattern list \<Rightarrow> string list \<Rightarrow> bool \<Rightarrow> bool \<Rightarrow> bool" where
  "Match_loop [] pathSegs isDir ignored = ignored"
| "Match_loop (p # ps) pathSegs isDir ignored =
     Match_loop ps pathSegs isDir
       (if dirOnly p \<and> \<not> isDir then ignored
        else if matchPattern p pathSegs then \<not> negated p else ignored)"

text \<open>A nil matcher excludes nothing. \<open>ToSlash\<close> is the identity on Unix.\<close>

definition Match :: "Matcher option \<Rightarrow> string \<Rightarrow> bool \<Rightarrow> bool" where
  "Match m relPath isDir =
     (case m of
        None \<Rightarrow> False
      | Some patterns \<Rightarrow>
          if length patterns = 0 then False
          else if relPath = [] \<or> relPath = ''.'' then False
          else Match_loop patterns (splitOn (CHR ''/'') relPath) isDir False)"

section \<open>Loading the file\<close>

definition ignore_FileName :: string where "ignore_FileName = ''.remindb.ignore''"

definition filepath_Join :: "string \<Rightarrow> string \<Rightarrow> string" where
  "filepath_Join a b =
     (if a = [] then if b = [] then [] else Clean b
      else if b = [] then Clean a else Clean (a @ ''/'' @ b))"

text \<open>\<open>bufio.Scanner\<close>: lines without their newline, no empty line after the last newline, and an error
  once a line fills its buffer of 64 KiB.\<close>

definition scan_lines :: "string \<Rightarrow> string list" where
  "scan_lines data =
     (let ls = splitOn LF data
      in if last ls = [] then butlast ls else ls)"

definition dropCR :: "string \<Rightarrow> string" where
  "dropCR l = (if l \<noteq> [] \<and> last l = CR then butlast l else l)"

definition scan_limit :: int where "scan_limit = 65536"

definition ErrTooLong :: error where "ErrTooLong = Driver ''bufio.Scanner: token too long''"

fun Load_loop :: "nat \<Rightarrow> string list \<Rightarrow> pattern list \<Rightarrow> error + pattern list" where
  "Load_loop line [] patterns = Inr patterns"
| "Load_loop line (l # ls) patterns =
     (if scan_limit \<le> int (length l) then Inl (Errorf (''failed to read: '' @ ignore_FileName) ErrTooLong)
      else let raw = TrimSpace (dropCR l)
           in if raw = [] \<or> HasPrefix raw ''#'' then Load_loop (line + 1) ls patterns
              else case parsePattern raw of
                     Inl e \<Rightarrow> Inl (Errorf (''unsupported pattern at line '' @ itoa_nat (line + 1)) e)
                   | Inr p \<Rightarrow> Load_loop (line + 1) ls (patterns @ [p]))"

text \<open>\<open>openFile\<close> is the file system: \<open>None\<close> where the file does not exist.\<close>

definition ignore_Load :: "(string \<Rightarrow> error + string option) \<Rightarrow> string \<Rightarrow> error + Matcher option" where
  "ignore_Load openFile dir =
     (case openFile (filepath_Join dir ignore_FileName) of
        Inl e \<Rightarrow> Inl (Errorf (''failed to read: '' @ ignore_FileName) e)
      | Inr None \<Rightarrow> Inr None
      | Inr (Some data) \<Rightarrow> map_sum id Some (Load_loop 0 (scan_lines data) []))"


section \<open>A pattern's syntax does not depend on what it is matched with\<close>

lemma match_class_uniform:
  "(match_class r m k chunk = Inl e \<longrightarrow> match_class r' m' k chunk = Inl e)
   \<and> (match_class r m k chunk = Inr (b, rest) \<longrightarrow> (\<exists>b'. match_class r' m' k chunk = Inr (b', rest)))"
proof (induction r m k chunk arbitrary: m' rule: match_class.induct)
  case (1 r m k chunk)
  show ?case
  proof (cases "chunk \<noteq> [] \<and> hd chunk = CHR '']'' \<and> 0 < k")
    case True
    then show ?thesis by (simp add: match_class.simps [of _ _ k chunk])
  next
    case False
    show ?thesis
    proof (cases "getEsc chunk")
      case Inl
      with False show ?thesis by (auto simp: match_class.simps [of _ _ k chunk])
    next
      case (Inr lc)
      obtain lo c1 where lc: "lc = (lo, c1)" by fastforce
      note step1 = 1 [OF False Inr lc [symmetric]]
      show ?thesis
      proof (cases "hd c1 = CHR ''-''")
        case True
        show ?thesis
        proof (cases "getEsc (tl c1)")
          case Inl
          with False True \<open>getEsc chunk = _\<close> lc show ?thesis by (auto simp: match_class.simps [of _ _ k chunk])
        next
          case inr: (Inr hc)
          obtain hi c2 where hc: "hc = (hi, c2)" by fastforce
          from step1(1) [OF True inr hc [symmetric]] False True Inr lc inr hc show ?thesis
            by (auto simp: match_class.simps [of _ _ k chunk])
        qed
      next
        case no: False
        from step1(2) [OF no] False no Inr lc show ?thesis by (auto simp: match_class.simps [of _ _ k chunk])
      qed
    qed
  qed
qed

lemma match_class_cases:
  obtains (bad) e where "\<And>r m. match_class r m k chunk = Inl e"
  | (good) f rest where "\<And>r m. match_class r m k chunk = Inr (f r m, rest)"
proof (cases "match_class 0 False k chunk")
  case (Inl e)
  with match_class_uniform have "match_class r m k chunk = Inl e" for r m by blast
  then show ?thesis by (rule bad)
next
  case (Inr br)
  obtain b rest where "br = (b, rest)" by fastforce
  with Inr match_class_uniform have "\<forall>r m. \<exists>b'. match_class r m k chunk = Inr (b', rest)" by blast
  then obtain f where "\<And>r m. match_class r m k chunk = Inr (f r m, rest)" by metis
  then show ?thesis by (rule good)
qed

definition well_formed :: "string \<Rightarrow> bool" where
  "well_formed chunk \<longleftrightarrow> (\<exists>x. matchChunk chunk [] = Inr x)"

lemma matchChunk_loop_uniform:
  "(\<exists>x. matchChunk_loop failed chunk s = Inr x) \<Longrightarrow> \<exists>x. matchChunk_loop failed' chunk s' = Inr x"
proof (induction failed chunk s arbitrary: failed' s' rule: matchChunk_loop.induct)
  case (1 failed s)
  then show ?case by simp
next
  case (2 failed c chunk s)
  show ?case
  proof (cases "c = CHR ''[''")
    case True
    let ?c = "if chunk \<noteq> [] \<and> hd chunk = CHR ''^'' then tl chunk else chunk"
    show ?thesis
    proof (cases rule: match_class_cases [of 0 ?c])
      case (bad e)
      with 2(6) True show ?thesis by (auto simp: Let_def split: prod.splits if_splits)
    next
      case (good f rest)
      have "\<exists>x. matchChunk_loop f' rest s'' = Inr x" for f' s''
      proof -
        let ?f = "failed \<or> s = []"
        obtain r n where rn: "(if ?f then (0, 0) else DecodeRuneInString s) = (r, n)" by fastforce
        from 2(6) True good rn have "\<exists>x. matchChunk_loop (?f \<or> f r False = (chunk \<noteq> [] \<and> hd chunk = CHR ''^'')) rest (drop n s) = Inr x"
          by (simp add: Let_def)
        with 2(1) [OF refl True rn [symmetric] refl refl good refl] show ?thesis by blast
      qed
      with True good show ?thesis by (auto simp: Let_def split: prod.splits)
    qed
  next
    case no: False
    show ?thesis
    proof (cases "c = CHR ''?''")
      case True
      have "\<exists>x. matchChunk_loop f' chunk s'' = Inr x" for f' s''
        using 2(2) [OF refl no True] 2(3) [OF refl no True] 2(6) no True by (auto simp: Let_def split: if_splits)
      with no True show ?thesis by (auto simp: Let_def)
    next
      case nq: False
      show ?thesis
      proof (cases "c = BSL \<and> chunk = []")
        case True
        with 2(6) no nq show ?thesis by (simp add: Let_def)
      next
        case False
        obtain c' k where ck: "(if c = BSL then (hd chunk, tl chunk) else (c, chunk)) = (c', k)" by fastforce
        have "\<exists>x. matchChunk_loop f' k s'' = Inr x" for f' s''
          using 2(4) [OF refl no nq False ck [symmetric]] 2(5) [OF refl no nq False ck [symmetric]] 2(6) no nq False ck
          by (auto simp: Let_def split: if_splits)
        with no nq False ck show ?thesis by (auto simp: Let_def)
      qed
    qed
  qed
qed


lemma matchChunk_well_formed: "(\<exists>x. matchChunk chunk s = Inr x) \<longleftrightarrow> well_formed chunk"
  unfolding well_formed_def matchChunk_def using matchChunk_loop_uniform by blast

lemma matchChunk_ok: "well_formed chunk \<Longrightarrow> \<exists>x. matchChunk chunk s = Inr x"
  by (rule matchChunk_well_formed [THEN iffD2])

lemma well_formed_Nil [simp]: "well_formed []"
  unfolding well_formed_def matchChunk_def by (rule exI [of _ "([], True)"]) simp

lemma match_skipping_ok: "well_formed chunk \<Longrightarrow> \<exists>x. match_skipping chunk lst name = Inr x"
proof (induction name)
  case (Cons c name)
  from matchChunk_ok [OF Cons.prems, of name] Cons show ?case by auto
qed simp

lemma scanChunk_empty:
  assumes "scanChunk p = (star, [], rest)"
  shows "rest = []"
proof (cases "dropWhile (\<lambda>c. c = CHR ''*'') p")
  case Nil
  with assms show ?thesis by (simp add: scanChunk_def Let_def)
next
  case (Cons c q)
  then have "c \<noteq> CHR ''*''" using hd_dropWhile [of "\<lambda>c. c = CHR ''*''" p] by simp
  then have "0 < scanChunk_loop False (c # q) 0" by (intro scanChunk_loop_moves) auto
  with assms Cons show ?thesis by (simp add: scanChunk_def Let_def)
qed

lemma scanChunk_no_star: "scanChunk p = (False, [], rest) \<Longrightarrow> p = []"
  using scanChunk_empty [of p False rest] by (cases p) (auto simp: scanChunk_def Let_def)

lemma check_chunks_Cons:
  "p \<noteq> [] \<Longrightarrow> scanChunk p = (star, chunk, rest) \<Longrightarrow>
    check_chunks p = None \<longleftrightarrow> well_formed chunk \<and> check_chunks rest = None"
  by (subst check_chunks.simps) (auto simp: well_formed_def split: sum.splits)

lemma check_chunks_Nil [simp]: "check_chunks [] = None"
  by (subst check_chunks.simps) simp

lemma path_Match_total: "check_chunks p = None \<Longrightarrow> \<exists>b. path_Match p name = Inr b"
proof (induction p name rule: path_Match.induct)
  case (1 p name)
  show ?case
  proof (cases "p = []")
    case True
    then show ?thesis by (subst path_Match.simps) simp
  next
    case False
    obtain star chunk rest where sc: "scanChunk p = (star, chunk, rest)" by (metis prod_cases3)
    from 1(3) False sc have ok: "well_formed chunk" "check_chunks rest = None" by (simp_all add: check_chunks_Cons)
    obtain t b where m: "matchChunk chunk name = Inr (t, b)" using matchChunk_ok [OF ok(1)] by (metis surj_pair)
    obtain x where x: "match_skipping chunk (rest = []) name = Inr x" using match_skipping_ok [OF ok(1)] by blast
    show ?thesis
    proof (cases "star \<and> chunk = []")
      case True
      with False sc show ?thesis by (subst path_Match.simps) simp
    next
      case nt: False
      note ih = 1(1, 2) [OF False sc [symmetric] refl nt m refl]
      have "\<exists>b. path_Match rest t' = Inr b" if "(if star then match_skipping chunk (rest = []) name else Inr None) = Inr (Some t')"
        "\<not> (b \<and> (t = [] \<or> rest \<noteq> []))" for t'
        using ih(2) [OF that(2) that(1) refl ok(2)] .
      with ih(1) [OF _ ok(2)] False sc nt m x ok(2) show ?thesis
        by (subst path_Match.simps) (auto split: option.splits)
    qed
  qed
qed

lemma matchChunk_loop_failed: "matchChunk_loop failed chunk s = Inr (t, ok) \<Longrightarrow> failed \<Longrightarrow> \<not> ok"
proof (induction failed chunk s arbitrary: t ok rule: matchChunk_loop.induct)
  case (2 failed c chunk s)
  then show ?case by (simp add: Let_def split: if_splits sum.splits prod.splits) blast+
qed auto

lemma matchChunk_empty_name: "matchChunk (c # cs) [] = Inr (t, ok) \<Longrightarrow> \<not> ok"
  unfolding matchChunk_def
  using matchChunk_loop_failed [of True "c # cs" "[]" t ok] by (simp add: Let_def)

lemma path_Match_empty_name: "path_Match p [] = Inr b \<Longrightarrow> check_chunks p = None"
proof (cases "p = []")
  case False
  assume a: "path_Match p [] = Inr b"
  obtain star chunk rest where sc: "scanChunk p = (star, chunk, rest)" by (metis prod_cases3)
  show ?thesis
  proof (cases chunk)
    case Nil
    with sc scanChunk_empty have "rest = []" by blast
    then show ?thesis using False sc Nil by (simp add: check_chunks_Cons)
  next
    case (Cons c cs)
    from a False sc Cons obtain t ok where m: "matchChunk chunk [] = Inr (t, ok)"
      by (subst (asm) path_Match.simps) (auto split: sum.splits)
    have "\<not> ok"
      using m Cons matchChunk_empty_name by blast
    with a False sc Cons m have "check_chunks rest = None"
      by (subst (asm) path_Match.simps) (auto split: option.splits if_splits)
    then show ?thesis using False sc m by (auto simp: check_chunks_Cons well_formed_def)
  qed
qed simp

lemma path_Match_validated: "path_Match seg [] = Inr b \<Longrightarrow> \<exists>b. path_Match seg name = Inr b"
  using path_Match_empty_name path_Match_total by blast

section \<open>Parsed patterns are usable\<close>

text \<open>What the matcher relies on: it reads the first segment of an unanchored pattern, and drops the
  error of \<open>path.Match\<close>.\<close>

definition pattern_ok :: "pattern \<Rightarrow> bool" where
  "pattern_ok p \<longleftrightarrow> segments p \<noteq> [] \<and> (\<not> anchored p \<longrightarrow> length (segments p) = 1)
     \<and> (\<forall>seg \<in> set (segments p). seg \<noteq> [] \<and> CHR ''/'' \<notin> set seg
          \<and> (\<forall>name. \<exists>ok. path_Match seg name = Inr ok))"

lemma path_Match_stars: "path_Match ''**'' name = Inr (CHR ''/'' \<notin> set name)"
proof -
  have "scanChunk ''**'' = (True, [], [])"
    by code_simp
  then show ?thesis by (subst path_Match.simps) simp
qed

lemma check_segments_ok:
  "check_segments raw segs = None \<Longrightarrow> seg \<in> set segs \<Longrightarrow> \<exists>ok. path_Match seg name = Inr ok"
proof (induction segs)
  case (Cons a segs)
  then show ?case
    using path_Match_validated [of a _ name] path_Match_stars [of name] by (auto split: if_splits sum.splits)
qed simp

lemma parse_segments_ok:
  assumes "parse_segments raw s dirs anch neg = Inr p"
  shows "pattern_ok p"
proof -
  let ?segs = "splitOn (CHR ''/'') s"
  from assms have s: "[] \<notin> set ?segs" "check_segments raw ?segs = None"
    and p: "segments p = ?segs" "CHR ''/'' \<in> set s \<Longrightarrow> anchored p"
    by (auto simp: parse_segments_def Let_def split: if_split_asm option.split_asm)
  have "length ?segs = 1" if "\<not> anchored p"
  proof -
    have "CHR ''/'' \<notin> set s" using that p(2) by blast
    then show ?thesis by (simp add: splitOn_id)
  qed
  moreover have "CHR ''/'' \<notin> set seg" if "seg \<in> set ?segs" for seg
    using that splitOn_no_sep by blast
  ultimately show ?thesis
    unfolding pattern_ok_def using s(1) p(1) check_segments_ok [OF s(2)] splitOn_nonempty by metis
qed

lemma parsePattern_ok: "parsePattern raw = Inr p \<Longrightarrow> pattern_ok p"
  unfolding parsePattern_def Let_def by (rule parse_segments_ok)

lemma Load_loop_ok: "Load_loop line ls ps = Inr qs \<Longrightarrow> list_all pattern_ok ps \<Longrightarrow> list_all pattern_ok qs"
  by (induction line ls ps rule: Load_loop.induct) (auto simp: Let_def parsePattern_ok split: if_splits sum.splits)

text \<open>Every line the loader accepts becomes a usable pattern: it has a segment, exactly one if
  it is matched against base names, none is empty or holds a slash, and matching a segment never meets
  a syntax error, for any name, so the error the matcher drops does not occur.\<close>

theorem ignore_Load_usable:
  assumes "ignore_Load openFile dir = Inr (Some patterns)"
  shows "list_all pattern_ok patterns"
proof -
  from assms obtain data where "map_sum id Some (Load_loop 0 (scan_lines data) []) = Inr (Some patterns)"
    by (auto simp: ignore_Load_def split: sum.splits option.splits)
  then have "Load_loop 0 (scan_lines data) [] = Inr patterns"
    by (cases "Load_loop 0 (scan_lines data) []") auto
  then show ?thesis by (rule Load_loop_ok) simp
qed

theorem ignore_Load_usable_witness:
  "\<exists>ps. ignore_Load (\<lambda>path. Inr (Some ''# logs
*.log
!keep[0-9].log
/build/'')) ''/d'' = Inr (Some ps) \<and> length ps = 3 \<and> list_all pattern_ok ps"
proof -
  let ?f = "\<lambda>path. Inr (Some ''# logs
*.log
!keep[0-9].log
/build/'') :: error + string option"
  have "map_sum id (map_option length) (ignore_Load ?f ''/d'') = Inr (Some 3)" by code_simp
  then obtain ps where "ignore_Load ?f ''/d'' = Inr (Some ps)" "length ps = 3"
    by (cases "ignore_Load ?f ''/d''") auto
  with ignore_Load_usable show ?thesis by blast
qed

section \<open>The declarative meaning of a pattern path\<close>

inductive glob :: "string list \<Rightarrow> string list \<Rightarrow> bool" where
  glob_end: "glob [] []"
| glob_segment: "p \<noteq> ''**'' \<Longrightarrow> path_Match p s = Inr True \<Longrightarrow> glob ps ss \<Longrightarrow> glob (p # ps) (s # ss)"
| glob_none: "glob ps ss \<Longrightarrow> glob (''**'' # ps) ss"
| glob_more: "glob (''**'' # ps) ss \<Longrightarrow> glob (''**'' # ps) (s # ss)"

inductive_simps glob_Nil [simp]: "glob [] ss"
inductive_cases glob_ConsE: "glob (p # ps) ss"

lemma matchSegment_iff [simp]: "matchSegment p s \<longleftrightarrow> path_Match p s = Inr True"
  by (auto simp: matchSegment_def split: sum.splits)

lemma glob_stars: "glob (''**'' # ps) ss \<longleftrightarrow> (\<exists>i \<le> length ss. glob ps (drop i ss))"
proof
  show "glob (''**'' # ps) ss \<Longrightarrow> \<exists>i \<le> length ss. glob ps (drop i ss)"
  proof (induction "''**'' # ps" ss rule: glob.induct)
    case (glob_none ss)
    then show ?case by (intro exI [of _ 0]) simp
  next
    case (glob_more ss s)
    then obtain i where "i \<le> length ss" "glob ps (drop i ss)" by blast
    then show ?case by (intro exI [of _ "Suc i"]) simp
  qed simp
next
  assume "\<exists>i \<le> length ss. glob ps (drop i ss)"
  then obtain i where "i \<le> length ss" "glob ps (drop i ss)" by blast
  then show "glob (''**'' # ps) ss"
  proof (induction i arbitrary: ss)
    case 0
    then show ?case by (simp add: glob_none)
  next
    case (Suc i)
    then show ?case by (cases ss) (auto intro: glob_more)
  qed
qed

lemma glob_plain: "p \<noteq> ''**'' \<Longrightarrow> glob (p # ps) ss \<longleftrightarrow> (\<exists>s ss'. ss = s # ss' \<and> path_Match p s = Inr True \<and> glob ps ss')"
  by (auto elim: glob_ConsE intro: glob_segment)

text \<open>C34: the recursive path matcher decides the relation \<open>glob\<close>: a pattern element matches one path
  element by \<open>path.Match\<close>, \<open>**\<close> matches any number of them, and pattern and path end together.\<close>

theorem matchPath_glob: "matchPath ps ss \<longleftrightarrow> glob ps ss"
proof (induction ps arbitrary: ss)
  case (Cons p ps)
  show ?case
  proof (cases "p = ''**''")
    case True
    have "matchPath (p # ps) ss \<longleftrightarrow> (\<exists>i \<le> length ss. glob ps (drop i ss))"
      using Cons.IH True by (simp add: list_ex_iff less_Suc_eq_le atLeast0LessThan lessThan_Suc_atMost Bex_def del: upt_Suc)
    with True show ?thesis by (simp add: glob_stars)
  next
    case False
    then show ?thesis using Cons.IH by (auto simp: glob_plain split: list.splits)
  qed
qed auto

section \<open>The last matching line decides\<close>

definition applies :: "string list \<Rightarrow> bool \<Rightarrow> pattern \<Rightarrow> bool" where
  "applies pathSegs isDir p \<longleftrightarrow> (dirOnly p \<longrightarrow> isDir) \<and> matchPattern p pathSegs"

lemma Match_loop_last:
  "Match_loop ps segs isDir ignored
     = (case find (applies segs isDir) (rev ps) of None \<Rightarrow> ignored | Some p \<Rightarrow> \<not> negated p)"
proof (induction ps arbitrary: ignored)
  case (Cons p ps)
  have "find P (xs @ ys) = (case find P xs of None \<Rightarrow> find P ys | Some x \<Rightarrow> Some x)" for P :: "pattern \<Rightarrow> bool" and xs ys
    by (induction xs) auto
  with Cons show ?case by (auto simp: applies_def split: option.splits)
qed simp

lemma find_rev_iff:
  "find P (rev xs) = Some x \<longleftrightarrow> (\<exists>us vs. xs = us @ x # vs \<and> P x \<and> (\<forall>y \<in> set vs. \<not> P y))"
proof (induction xs rule: rev_induct)
  case (snoc y xs)
  show ?case
  proof (cases "P y")
    case True
    have "(\<exists>us vs. xs @ [y] = us @ x # vs \<and> P x \<and> (\<forall>y \<in> set vs. \<not> P y)) \<longleftrightarrow> x = y" (is "?l \<longleftrightarrow> _")
    proof
      assume ?l
      then obtain us vs where v: "xs @ [y] = us @ x # vs" "\<forall>y \<in> set vs. \<not> P y" by blast
      with True show "x = y" by (cases vs rule: rev_cases) auto
    next
      assume "x = y"
      with True show ?l by (intro exI [of _ xs] exI [of _ "[]"]) auto
    qed
    with True show ?thesis by auto
  next
    case False
    have "(\<exists>us vs. xs @ [y] = us @ x # vs \<and> P x \<and> (\<forall>y \<in> set vs. \<not> P y))
        \<longleftrightarrow> (\<exists>us vs. xs = us @ x # vs \<and> P x \<and> (\<forall>y \<in> set vs. \<not> P y))" (is "?l \<longleftrightarrow> ?r")
    proof
      assume ?l
      then obtain us vs where v: "xs @ [y] = us @ x # vs" "P x" "\<forall>y \<in> set vs. \<not> P y" by blast
      with False show ?r by (cases vs rule: rev_cases) auto
    next
      assume ?r
      then obtain us vs where "xs = us @ x # vs" "P x" "\<forall>y \<in> set vs. \<not> P y" by blast
      with False show ?l by (intro exI [of _ us] exI [of _ "vs @ [y]"]) auto
    qed
    with snoc False show ?thesis by simp
  qed
qed simp

text \<open>A path is excluded exactly if the last line of the file that applies to it is not negated; a
  line ending in a slash applies to directories only, and the walk's root is never excluded.\<close>

theorem Match_last_line_wins:
  "Match (Some patterns) relPath isDir \<longleftrightarrow>
     relPath \<noteq> [] \<and> relPath \<noteq> ''.'' \<and>
     (\<exists>before p after. patterns = before @ p # after
        \<and> applies (splitOn (CHR ''/'') relPath) isDir p \<and> \<not> negated p
        \<and> list_all (\<lambda>q. \<not> applies (splitOn (CHR ''/'') relPath) isDir q) after)"
proof -
  let ?P = "applies (splitOn (CHR ''/'') relPath) isDir"
  have "(case find ?P (rev patterns) of None \<Rightarrow> False | Some p \<Rightarrow> \<not> negated p)
      \<longleftrightarrow> (\<exists>p. find ?P (rev patterns) = Some p \<and> \<not> negated p)"
    by (simp split: option.splits)
  then show ?thesis
    unfolding find_rev_iff by (auto simp: Match_def Match_loop_last list_all_iff)
qed

section \<open>Names and extensions\<close>

definition literal :: "string \<Rightarrow> bool" where
  "literal s \<longleftrightarrow> s \<noteq> [] \<and> (\<forall>c \<in> set s. c \<noteq> CHR ''*'' \<and> c \<noteq> CHR ''?'' \<and> c \<noteq> CHR ''['' \<and> c \<noteq> BSL \<and> c \<noteq> CHR ''/'')"

lemma matchChunk_loop_literal:
  "\<forall>c \<in> set chunk. c \<noteq> CHR ''?'' \<and> c \<noteq> CHR ''['' \<and> c \<noteq> BSL \<Longrightarrow>
    matchChunk_loop failed chunk s
      = Inr (if \<not> failed \<and> HasPrefix s chunk then (drop (length chunk) s, True) else ([], False))"
proof (induction chunk arbitrary: failed s)
  case Nil
  then show ?case by (simp add: HasPrefix_def)
next
  case (Cons c chunk)
  then show ?case by (cases s) (auto simp: Let_def HasPrefix_def)
qed

lemma scanChunk_loop_literal:
  "\<forall>c \<in> set p. c \<noteq> CHR ''*'' \<and> c \<noteq> CHR ''['' \<and> c \<noteq> BSL \<Longrightarrow> i \<le> length p \<Longrightarrow> scanChunk_loop False p i = length p"
proof (induction "length p - i" arbitrary: i)
  case 0
  then show ?case by (subst scanChunk_loop.simps) simp
next
  case (Suc k)
  from Suc have "i < length p" "p ! i \<noteq> CHR ''*''" "p ! i \<noteq> CHR ''[''" "p ! i \<noteq> BSL" by auto
  with Suc show ?case by (subst scanChunk_loop.simps) simp
qed

lemma scanChunk_literal:
  assumes "literal p"
  shows "scanChunk p = (False, p, [])" "scanChunk (CHR ''*'' # p) = (True, p, [])"
proof -
  from assms have "dropWhile (\<lambda>c. c = CHR ''*'') p = p" "hd p \<noteq> CHR ''*''" by (cases p; auto simp: literal_def)+
  moreover have "scanChunk_loop False p 0 = length p" using assms by (intro scanChunk_loop_literal) (auto simp: literal_def)
  ultimately show "scanChunk p = (False, p, [])" "scanChunk (CHR ''*'' # p) = (True, p, [])"
    by (simp_all add: scanChunk_def Let_def)
qed

lemma matchChunk_literal:
  "literal p \<Longrightarrow> matchChunk p s = Inr (if HasPrefix s p then (drop (length p) s, True) else ([], False))"
  unfolding matchChunk_def by (subst matchChunk_loop_literal) (auto simp: literal_def)

lemma path_Match_literal:
  assumes "literal p"
  shows "path_Match p name = Inr (name = p)"
proof -
  have "p \<noteq> []" using assms by (simp add: literal_def)
  have "path_Match [] t = Inr (t = [])" for t by (subst path_Match.simps) simp
  with \<open>p \<noteq> []\<close> show ?thesis
    by (subst path_Match.simps) (auto simp: scanChunk_literal [OF assms] matchChunk_literal [OF assms] HasPrefix_iff)
qed

lemma match_skipping_literal:
  assumes "literal p" "CHR ''/'' \<notin> set name"
  shows "match_skipping p True name = Inr (if name \<noteq> [] \<and> HasSuffix (tl name) p then Some [] else None)"
  using assms(2)
proof (induction name)
  case (Cons c name)
  have ne: "p \<noteq> []" using assms(1) by (simp add: literal_def)
  have "HasPrefix name p \<and> drop (length p) name = [] \<longleftrightarrow> name = p" by (auto simp: HasPrefix_iff)
  moreover have "HasSuffix name p \<longleftrightarrow> name = p \<or> (name \<noteq> [] \<and> HasSuffix (tl name) p)"
    using ne by (cases name) (auto simp: HasSuffix_iff Cons_eq_append_conv)
  ultimately show ?case using Cons by (auto simp: matchChunk_literal [OF assms(1)])
qed simp

lemma path_Match_star_suffix:
  assumes "literal p" "CHR ''/'' \<notin> set name"
  shows "path_Match (CHR ''*'' # p) name = Inr (HasSuffix name p)"
proof -
  have ne: "p \<noteq> []" using assms(1) by (simp add: literal_def)
  have e: "path_Match [] t = Inr (t = [])" for t by (subst path_Match.simps) simp
  have "HasSuffix name p \<longleftrightarrow> name = p \<or> (name \<noteq> [] \<and> HasSuffix (tl name) p)"
    using ne by (cases name) (auto simp: HasSuffix_iff Cons_eq_append_conv)
  then show ?thesis
    using ne by (subst path_Match.simps)
      (auto simp: scanChunk_literal [OF assms(1)] matchChunk_literal [OF assms(1)] match_skipping_literal [OF assms] e HasPrefix_iff)
qed

lemma HasSuffix_last_segment:
  assumes "CHR ''/'' \<notin> set p"
  shows "HasSuffix (last (splitOn (CHR ''/'') rel)) p \<longleftrightarrow> HasSuffix rel p"
proof -
  have j: "rel = Join (splitOn (CHR ''/'') rel) ''/''" by (simp add: Join_splitOn)
  have "HasSuffix (Join xs ''/'') p \<longleftrightarrow> HasSuffix (last xs) p" if "xs \<noteq> []" for xs
    using that
  proof (induction xs rule: induct_list012)
    case (3 x y zs)
    have "HasSuffix (x @ CHR ''/'' # t) p \<longleftrightarrow> HasSuffix t p" for t
      using assms by (auto simp: HasSuffix_iff append_eq_append_conv2 Cons_eq_append_conv append_eq_Cons_conv)
    with 3 show ?case by simp
  qed auto
  with j show ?thesis by (metis splitOn_nonempty)
qed

lemma parsePattern_star:
  assumes "literal ext"
  shows "parsePattern (CHR ''*'' # ext)
    = Inr \<lparr>pRaw = CHR ''*'' # ext, segments = [CHR ''*'' # ext], dirOnly = False, anchored = False, negated = False\<rparr>"
proof -
  let ?raw = "CHR ''*'' # ext"
  from assms have lit: "ext \<noteq> []" "\<And>c. c \<in> set ext \<Longrightarrow> c \<noteq> CHR ''*'' \<and> c \<noteq> CHR ''/''"
    by (simp_all add: literal_def)
  then have e: "ext \<noteq> []" "last ext \<noteq> CHR ''/''" "CHR ''/'' \<notin> set ?raw" "ext \<noteq> ''*''"
    using lit(2) [of "last ext"] lit(2) [of "CHR ''/''"] lit(2) [of "CHR ''*''"] by (simp_all, force, force)
  have c: "(2 \<le> length ?raw \<and> ?raw ! 0 = BSL \<and> (?raw ! 1 = CHR ''!'' \<or> ?raw ! 1 = CHR ''#'')) = False"
    by (simp add: BSL_def)
  have m: "HasPrefix ?raw ''!'' = False" "HasPrefix ?raw ''/'' = False" "HasSuffix ?raw ''/'' = False"
    using e by simp_all
  have "path_Match ?raw [] = Inr (HasSuffix [] ext)" using assms by (intro path_Match_star_suffix) auto
  then have "check_segments ?raw [?raw] = None" using e(4) by simp
  with e have "parse_segments ?raw ?raw False False False
      = Inr \<lparr>pRaw = ?raw, segments = [?raw], dirOnly = False, anchored = False, negated = False\<rparr>"
    unfolding parse_segments_def Let_def splitOn_id [OF e(3)] by simp
  then show ?thesis
    by (simp only: parsePattern_def Let_def c m if_False simp_thms)
qed

text \<open>C36: a line made of a star and a literal suffix, as \<open>*.log\<close>, is accepted, and alone it excludes
  exactly the paths with that suffix, in whatever directory they are. A literal holds no slash and none
  of the characters special in patterns.\<close>

theorem Match_suffix_line:
  assumes "literal suf"
  shows "\<exists>p. parsePattern (CHR ''*'' # suf) = Inr p
    \<and> Match (Some [p]) rel isDir = (rel \<noteq> [] \<and> rel \<noteq> ''.'' \<and> HasSuffix rel suf)"
proof -
  let ?seg = "last (splitOn (CHR ''/'') rel)"
  have "CHR ''/'' \<notin> set ?seg" using splitOn_no_sep [of ?seg "CHR ''/''" rel] by simp
  moreover have "HasSuffix ?seg suf = HasSuffix rel suf"
    using assms by (intro HasSuffix_last_segment) (auto simp: literal_def)
  ultimately have "matchSegment (CHR ''*'' # suf) ?seg = HasSuffix rel suf"
    by (simp add: path_Match_star_suffix [OF assms])
  then show ?thesis using parsePattern_star [OF assms] by (auto simp: Match_def matchPattern_def)
qed

theorem Match_suffix_line_witness:
  "\<exists>p. parsePattern ''*.log'' = Inr p \<and> Match (Some [p]) ''a/b.log'' False \<and> HasSuffix ''a/b.log'' ''.log''"
proof -
  have "literal ''.log''" by (simp add: literal_def BSL_def)
  from Match_suffix_line [OF this, of "''a/b.log''" False] show ?thesis by (auto simp: HasSuffix_def)
qed

end
