(* ===== verification/Tempfile.thy ===== *)
theory Tempfile
  imports Ignore
begin

text \<open>
  The package \<open>internal/tempfile\<close>: the file \<open>.temp.json\<close> that gives initial temperatures to
  files and directories. The JSON decoder is the standard library's and an argument; what it returns,
  a Go \<open>map[string]any\<close>, is an association list with distinct keys, in the order the
  \<open>range\<close> loop happens to visit it. An absent and an empty \<open>children\<close> map read alike and are
  both the empty list; the loop writes only to entries whose map was made. The messages leave out the
  value that \<open>%g\<close> and \<open>%T\<close> would print.
\<close>

section \<open>The entry tree\<close>

datatype jvalue = JNull | JBool bool | JNum real | JStr string | JArr "jvalue list" | JObj "(string \<times> jvalue) list"

datatype entry = Entry (e_temp: "real option") (e_children: "(string \<times> entry) list")

definition tempConflict :: "entry \<Rightarrow> entry \<Rightarrow> bool" where
  "tempConflict dst src =
     (if e_temp dst \<noteq> None then e_temp src \<noteq> None \<or> 0 < length (e_children src)
      else e_temp src \<noteq> None \<and> 0 < length (e_children dst))"

definition conflict :: "string \<Rightarrow> error" where
  "conflict path = Driver (''conflicting temperatures for '' @ path)"

fun mergeEntry :: "entry \<Rightarrow> entry \<Rightarrow> string \<Rightarrow> error + entry"
and merge_children :: "(string \<times> entry) list \<Rightarrow> (string \<times> entry) list \<Rightarrow> string \<Rightarrow> error + (string \<times> entry) list" where
  "mergeEntry dst (Entry t cs) path =
     (if tempConflict dst (Entry t cs) then Inl (conflict path)
      else if t \<noteq> None then Inr (Entry t (e_children dst))
      else bindR (merge_children (e_children dst) cs path) (\<lambda>ds. Inr (Entry (e_temp dst) ds)))"
| "merge_children ds [] path = Inr ds"
| "merge_children ds ((k, child) # cs) path =
     (case map_of ds k of
        None \<Rightarrow> merge_children (ds @ [(k, child)]) cs path
      | Some existing \<Rightarrow>
          bindR (mergeEntry existing child (path @ ''/'' @ k)) (\<lambda>e. merge_children (AList.update k e ds) cs path))"

text \<open>The loop of \<open>insertKey\<close> over the segments; \<open>before\<close> are the ones passed.\<close>

fun insert_at :: "entry \<Rightarrow> entry \<Rightarrow> string \<Rightarrow> string list \<Rightarrow> string list \<Rightarrow> error + entry" where
  "insert_at cur leaf key before [] = Inr cur"
| "insert_at cur leaf key before [seg] =
     (case map_of (e_children cur) seg of
        None \<Rightarrow> Inr (Entry (e_temp cur) (e_children cur @ [(seg, leaf)]))
      | Some existing \<Rightarrow>
          bindR (mergeEntry existing leaf key) (\<lambda>e. Inr (Entry (e_temp cur) (AList.update seg e (e_children cur)))))"
| "insert_at cur leaf key before (seg # segs) =
     (let next' = (case map_of (e_children cur) seg of None \<Rightarrow> Entry None [] | Some e \<Rightarrow> e)
      in if e_temp next' \<noteq> None then Inl (conflict (Join (before @ [seg]) ''/''))
         else bindR (insert_at next' leaf key (before @ [seg]) segs)
                (\<lambda>e. Inr (Entry (e_temp cur) (AList.update seg e (e_children cur)))))"

definition key_segments :: "string \<Rightarrow> string list" where
  "key_segments key = splitOn (CHR ''/'') (TrimSuffix (TrimPrefix key ''./'') ''/'')"

definition insertKey :: "entry \<Rightarrow> entry \<Rightarrow> string \<Rightarrow> error + entry" where
  "insertKey rt leaf key =
     (let norm = TrimSuffix (TrimPrefix key ''./'') ''/''
      in if norm = [] then Inl (Driver (''empty key '' @ key))
         else let segs = splitOn (CHR ''/'') norm
              in case find (\<lambda>seg. seg = [] \<or> seg = ''.'' \<or> seg = ''..'') segs of
                   Some seg \<Rightarrow> Inl (Driver (''invalid path segment '' @ seg @ '' in key '' @ key))
                 | None \<Rightarrow> insert_at rt leaf key [] segs)"

fun parseValue :: "string \<Rightarrow> jvalue \<Rightarrow> error + entry"
and buildEntry_loop :: "entry \<Rightarrow> (string \<times> jvalue) list \<Rightarrow> error + entry" where
  "parseValue key (JNum val) =
     (if val < 0 \<or> 1 < val then Inl (Driver (''temperature for '' @ key @ '' out of range [0, 1]''))
      else Inr (Entry (Some val) []))"
| "parseValue key (JObj val) = buildEntry_loop (Entry None []) val"
| "parseValue key v = Inl (Driver (''unexpected type for '' @ key @ '' (expected number or object)''))"
| "buildEntry_loop rt [] = Inr rt"
| "buildEntry_loop rt ((k, v) # raw) =
     bindR (parseValue k v) (\<lambda>leaf. bindR (insertKey rt leaf k) (\<lambda>rt. buildEntry_loop rt raw))"

definition buildEntry :: "(string \<times> jvalue) list \<Rightarrow> error + entry" where
  "buildEntry raw = buildEntry_loop (Entry None []) raw"

section \<open>Loading and resolving\<close>

definition temp_FileName :: string where "temp_FileName = ''.temp.json''"

definition temp_Load :: "(string \<Rightarrow> error + string option) \<Rightarrow> (string \<Rightarrow> error + (string \<times> jvalue) list) \<Rightarrow> string
    \<Rightarrow> error + entry option" where
  "temp_Load readFile unmarshal dir =
     (case readFile (filepath_Join dir temp_FileName) of
        Inl e \<Rightarrow> Inl (Errorf (''failed to read: '' @ temp_FileName) e)
      | Inr None \<Rightarrow> Inr None
      | Inr (Some data) \<Rightarrow>
          bindR (wrap_error (''failed to parse: '' @ temp_FileName) (unmarshal data)) (\<lambda>raw.
          bindR (wrap_error (''invalid '' @ temp_FileName) (buildEntry raw)) (\<lambda>rt. Inr (Some rt))))"

fun Resolve_loop :: "entry \<Rightarrow> real option \<Rightarrow> string list \<Rightarrow> real option" where
  "Resolve_loop cur fallback [] = fallback"
| "Resolve_loop cur fallback (seg # parts) =
     (let fallback = (case map_of (e_children cur) ''*'' of
                        Some g \<Rightarrow> (if e_temp g \<noteq> None then e_temp g else fallback)
                      | None \<Rightarrow> fallback)
      in case map_of (e_children cur) seg of
           None \<Rightarrow> fallback
         | Some child \<Rightarrow> (if e_temp child \<noteq> None then e_temp child else Resolve_loop child fallback parts))"

definition Resolve :: "entry option \<Rightarrow> string \<Rightarrow> real option" where
  "Resolve r relPath =
     (case r of None \<Rightarrow> None | Some rt \<Rightarrow> Resolve_loop rt None (splitOn (CHR ''/'') relPath))"

section \<open>What a path finds in a tree\<close>

text \<open>\<open>temp_on e p\<close> is the temperature of \<open>e\<close> or else the first on the way down \<open>p\<close>;
  \<open>has\<close> is the same without the choice of the first.\<close>

fun first_temp :: "entry \<Rightarrow> string list \<Rightarrow> real option" where
  "first_temp e [] = None"
| "first_temp e (seg # segs) =
     (case map_of (e_children e) seg of
        None \<Rightarrow> None
      | Some c \<Rightarrow> (if e_temp c \<noteq> None then e_temp c else first_temp c segs))"

definition temp_on :: "entry \<Rightarrow> string list \<Rightarrow> real option" where
  "temp_on e p = (if e_temp e \<noteq> None then e_temp e else first_temp e p)"

lemma first_temp_Cons: "first_temp e (seg # segs) = Option.bind (map_of (e_children e) seg) (\<lambda>c. temp_on c segs)"
  by (simp add: temp_on_def split: option.splits)

declare first_temp.simps(2) [simp del]

inductive has :: "entry \<Rightarrow> string list \<Rightarrow> real \<Rightarrow> bool" where
  has_here: "has (Entry (Some t) cs) p t"
| has_child: "(seg, c) \<in> set cs \<Longrightarrow> has c p v \<Longrightarrow> has (Entry t cs) (seg # p) v"

inductive_simps has_Entry: "has (Entry t cs) p v"

lemma first_temp_children: "e_children e = e_children e' \<Longrightarrow> first_temp e p = first_temp e' p"
  by (cases p) (simp_all add: first_temp_Cons)

lemma temp_on_has: "temp_on e p = Some v \<Longrightarrow> has e p v"
proof (induction p arbitrary: e)
  case Nil
  then show ?case by (cases e) (auto simp: temp_on_def has_Entry split: if_splits)
next
  case (Cons seg p)
  obtain t cs where e: "e = Entry t cs" by (cases e) auto
  show ?case
  proof (cases t)
    case None
    with Cons.prems e obtain c where "map_of cs seg = Some c" "temp_on c p = Some v"
      by (auto simp: temp_on_def [of "Entry None cs"] first_temp_Cons split: bind_splits)
    with Cons.IH e show ?thesis by (auto simp: has_Entry dest: map_of_SomeD)
  next
    case (Some u)
    with Cons.prems e show ?thesis by (simp add: temp_on_def has_here)
  qed
qed

lemma first_temp_has: "first_temp e p = Some v \<Longrightarrow> \<exists>seg q c. p = seg # q \<and> (seg, c) \<in> set (e_children e) \<and> has c q v"
  by (cases p) (auto simp: first_temp_Cons bind_eq_Some_conv dest!: map_of_SomeD temp_on_has)

section \<open>Merging keeps what both trees hold\<close>

lemma map_of_update_same [simp]: "map_of (AList.update k e ds) k = Some e"
  by (simp add: update_conv')

lemma map_of_update_other: "k \<noteq> k' \<Longrightarrow> map_of (AList.update k e ds) k' = map_of ds k'"
  by (simp add: update_conv')

lemma set_update_subset: "(k', c) \<in> set (AList.update k e ds) \<Longrightarrow> (k', c) = (k, e) \<or> (k', c) \<in> set ds"
  by (induction ds) (auto split: if_splits)

lemma merge_keeps_dst:
  "mergeEntry dst src path = Inr d \<Longrightarrow> temp_on dst p = Some v \<Longrightarrow> temp_on d p = Some v"
  "merge_children ds cs path = Inr es \<Longrightarrow> first_temp (Entry None ds) p = Some v \<Longrightarrow> first_temp (Entry None es) p = Some v"
proof (induction dst src path and ds cs path arbitrary: d p v and es p v rule: mergeEntry_merge_children.induct)
  case (1 dst t cs path)
  show ?case
  proof (cases "t = None")
    case True
    with 1(2) obtain ds where ds: "merge_children (e_children dst) cs path = Inr ds" "d = Entry (e_temp dst) ds"
      and nc: "\<not> tempConflict dst (Entry t cs)" by (auto simp: bindR_Inr_iff split: if_splits)
    show ?thesis
    proof (cases "e_temp dst")
      case None
      with 1(3) have "first_temp (Entry None (e_children dst)) p = Some v"
        using first_temp_children [of "Entry None (e_children dst)" dst p] by (simp add: temp_on_def)
      from 1(1) [OF nc _ ds(1) this] True None ds(2) show ?thesis by (simp add: temp_on_def)
    next
      case (Some u)
      with 1(3) ds(2) show ?thesis by (simp add: temp_on_def)
    qed
  next
    case False
    with 1(2, 3) show ?thesis
      by (cases p) (auto simp: temp_on_def tempConflict_def first_temp_Cons split: if_splits)
  qed
next
  case (3 ds k child cs path)
  show ?case
  proof (cases "map_of ds k")
    case None
    from 3(5) have "first_temp (Entry None (ds @ [(k, child)])) p = Some v"
      by (cases p) (auto simp: first_temp_Cons bind_eq_Some_conv map_add_def split: option.splits)
    with 3(1) [OF None] 3(4) None show ?thesis by simp
  next
    case (Some old)
    with 3(4) obtain e where e: "mergeEntry old child (path @ ''/'' @ k) = Inr e"
      "merge_children (AList.update k e ds) cs path = Inr es" by (auto simp: bindR_Inr_iff)
    have "first_temp (Entry None (AList.update k e ds)) p = Some v"
      using 3(5) Some 3(2) [OF Some e(1)]
      by (cases p; cases "hd p = k") (auto simp: first_temp_Cons bind_eq_Some_conv map_of_update_other)
    with 3(3) [OF Some e(2)] show ?thesis by blast
  qed
qed auto

lemma merge_keeps_src:
  "mergeEntry dst src path = Inr d \<Longrightarrow> temp_on src p = Some v \<Longrightarrow> temp_on d p = Some v"
  "merge_children ds cs path = Inr es \<Longrightarrow> first_temp (Entry None cs) p = Some v \<Longrightarrow> first_temp (Entry None es) p = Some v"
proof (induction dst src path and ds cs path arbitrary: d p v and es p v rule: mergeEntry_merge_children.induct)
  case (1 dst t cs path)
  show ?case
  proof (cases "t = None")
    case True
    with 1(2) obtain ds where ds: "merge_children (e_children dst) cs path = Inr ds" "d = Entry (e_temp dst) ds"
      and nc: "\<not> tempConflict dst (Entry t cs)" by (auto simp: bindR_Inr_iff split: if_splits)
    from True 1(3) have f: "first_temp (Entry None cs) p = Some v" by (simp add: temp_on_def)
    then have "cs \<noteq> []" by (cases p) (auto simp: first_temp_Cons)
    with nc have "e_temp dst = None" by (auto simp: tempConflict_def split: if_splits)
    with 1(1) [OF nc _ ds(1) f] True ds(2) show ?thesis by (simp add: temp_on_def)
  next
    case False
    with 1(2, 3) show ?thesis by (auto simp: temp_on_def split: if_splits)
  qed
next
  case (2 ds path)
  then show ?case by (cases p) (simp_all add: first_temp_Cons)
next
  case (3 ds k child cs path)
  obtain seg q where p: "p = seg # q" using 3(5) by (cases p) auto
  show ?case
  proof (cases "map_of ds k")
    case None
    with 3(4) have m: "merge_children (ds @ [(k, child)]) cs path = Inr es" by simp
    show ?thesis
    proof (cases "seg = k")
      case True
      with 3(5) p None have "first_temp (Entry None (ds @ [(k, child)])) p = Some v"
        by (simp add: first_temp_Cons map_add_def)
      with merge_keeps_dst(2) [OF m] show ?thesis by blast
    next
      case False
      with 3(5) p have "first_temp (Entry None cs) p = Some v" by (simp add: first_temp_Cons)
      with 3(1) [OF None m] show ?thesis by blast
    qed
  next
    case (Some old)
    with 3(4) obtain e where e: "mergeEntry old child (path @ ''/'' @ k) = Inr e"
      "merge_children (AList.update k e ds) cs path = Inr es" by (auto simp: bindR_Inr_iff)
    show ?thesis
    proof (cases "seg = k")
      case True
      with 3(5) p 3(2) [OF Some e(1)] have "first_temp (Entry None (AList.update k e ds)) p = Some v"
        by (simp add: first_temp_Cons)
      with merge_keeps_dst(2) [OF e(2)] show ?thesis by blast
    next
      case False
      with 3(5) p have "first_temp (Entry None cs) p = Some v" by (simp add: first_temp_Cons)
      with 3(3) [OF Some e(2)] show ?thesis by blast
    qed
  qed
qed

lemma has_children: "has (Entry None cs) p v \<longleftrightarrow> (\<exists>seg q c. p = seg # q \<and> (seg, c) \<in> set cs \<and> has c q v)"
  by (auto simp: has_Entry)

lemma has_split: "has e p v \<longleftrightarrow> e_temp e = Some v \<or> has (Entry None (e_children e)) p v"
  by (cases e) (auto simp: has_Entry)

lemma has_update:
  "has (Entry None (AList.update k e ds)) p v \<Longrightarrow> has (Entry None ds) p v \<or> (\<exists>q. p = k # q \<and> has e q v)"
  by (auto simp: has_children dest!: set_update_subset)

lemma merge_adds_nothing:
  "mergeEntry dst src path = Inr d \<Longrightarrow> has d p v \<Longrightarrow> has dst p v \<or> has src p v"
  "merge_children ds cs path = Inr es \<Longrightarrow> has (Entry None es) p v \<Longrightarrow> has (Entry None ds) p v \<or> has (Entry None cs) p v"
proof (induction dst src path and ds cs path arbitrary: d p v and es p v rule: mergeEntry_merge_children.induct)
  case (1 dst t cs path)
  show ?case
  proof (cases "t = None")
    case True
    with 1(2) obtain ds where ds: "merge_children (e_children dst) cs path = Inr ds" "d = Entry (e_temp dst) ds"
      and nc: "\<not> tempConflict dst (Entry t cs)" by (auto simp: bindR_Inr_iff split: if_splits)
    from 1(3) ds(2) have "e_temp dst = Some v \<or> has (Entry None ds) p v" using has_split [of d] by simp
    with 1(1) [OF nc _ ds(1)] True show ?thesis using has_split [of dst] by auto
  next
    case False
    with 1(2) have "d = Entry t (e_children dst)" by (auto split: if_splits)
    with 1(3) show ?thesis using has_split [of d] has_split [of dst] has_split [of "Entry t cs"] by auto
  qed
next
  case (3 ds k child cs path)
  show ?case
  proof (cases "map_of ds k")
    case None
    with 3(4) have "merge_children (ds @ [(k, child)]) cs path = Inr es" by simp
    from 3(1) [OF None this 3(5)] show ?thesis by (auto simp: has_children)
  next
    case (Some old)
    with 3(4) obtain e where e: "mergeEntry old child (path @ ''/'' @ k) = Inr e"
      "merge_children (AList.update k e ds) cs path = Inr es" by (auto simp: bindR_Inr_iff)
    from 3(3) [OF Some e(2) 3(5)] has_update [of k e ds p v]
    consider "has (Entry None ds) p v" | "has (Entry None cs) p v" | q where "p = k # q" "has e q v" by blast
    then show ?thesis
    proof cases
      case (3 q)
      with "3.IH"(2) [OF Some e(1)] have "has old q v \<or> has child q v" by blast
      with 3 Some show ?thesis by (auto simp: has_children dest!: map_of_SomeD)
    qed (auto simp: has_children)
  qed
qed auto

section \<open>Inserting a key\<close>

lemma insert_at_temp: "insert_at cur leaf key before segs = Inr e \<Longrightarrow> e_temp e = e_temp cur"
  by (induction cur leaf key before segs arbitrary: e rule: insert_at.induct)
     (auto simp: bindR_Inr_iff Let_def split: option.splits if_splits)

lemma insert_at_keeps:
  "insert_at cur leaf key before segs = Inr e \<Longrightarrow> first_temp cur p = Some v \<Longrightarrow> first_temp e p = Some v"
proof (induction cur leaf key before segs arbitrary: e p rule: insert_at.induct)
  case (2 cur leaf key before seg)
  obtain s q where p: "p = s # q" using 2(2) by (cases p) auto
  from 2 show ?case
    unfolding p by (cases "s = seg")
      (auto simp: first_temp_Cons bind_eq_Some_conv bindR_Inr_iff map_add_def map_of_update_other merge_keeps_dst split: option.splits)
next
  case (3 cur leaf key before seg seg2 segs)
  obtain s q where p: "p = s # q" using 3(3) by (cases p) auto
  let ?n = "case map_of (e_children cur) seg of None \<Rightarrow> Entry None [] | Some e \<Rightarrow> e"
  from 3(2) obtain n where n: "e_temp ?n = None" "insert_at ?n leaf key (before @ [seg]) (seg2 # segs) = Inr n"
    "e = Entry (e_temp cur) (AList.update seg n (e_children cur))" by (auto simp: bindR_Inr_iff Let_def split: if_splits)
  show ?case
  proof (cases "s = seg")
    case True
    with 3(3) p obtain c where c: "map_of (e_children cur) seg = Some c" "temp_on c q = Some v"
      by (auto simp: first_temp_Cons bind_eq_Some_conv)
    with n(1) have "first_temp ?n q = Some v" by (simp add: temp_on_def)
    with 3(1) [OF refl _ n(2)] n(1) have "first_temp n q = Some v" by simp
    with insert_at_temp [OF n(2)] n True p show ?thesis by (simp add: first_temp_Cons temp_on_def)
  next
    case False
    with 3(3) n(3) p show ?thesis by (simp add: first_temp_Cons map_of_update_other)
  qed
qed auto

lemma insert_at_new:
  "insert_at cur leaf key before segs = Inr e \<Longrightarrow> segs \<noteq> [] \<Longrightarrow> temp_on leaf p = Some v \<Longrightarrow> first_temp e (segs @ p) = Some v"
proof (induction cur leaf key before segs arbitrary: e rule: insert_at.induct)
  case (2 cur leaf key before seg)
  then show ?case
    by (auto simp: first_temp_Cons bindR_Inr_iff map_add_def merge_keeps_src split: option.splits)
next
  case (3 cur leaf key before seg seg2 segs)
  let ?n = "case map_of (e_children cur) seg of None \<Rightarrow> Entry None [] | Some e \<Rightarrow> e"
  from 3(2) obtain n where n: "e_temp ?n = None" "insert_at ?n leaf key (before @ [seg]) (seg2 # segs) = Inr n"
    "e = Entry (e_temp cur) (AList.update seg n (e_children cur))" by (auto simp: bindR_Inr_iff Let_def split: if_splits)
  with 3(1) [OF refl _ n(2) _ 3(4)] insert_at_temp [OF n(2)] show ?case by (simp add: first_temp_Cons temp_on_def)
qed auto

lemma insert_at_adds_leaf:
  "insert_at cur leaf key before segs = Inr e \<Longrightarrow> has (Entry None (e_children e)) p v \<Longrightarrow>
    has (Entry None (e_children cur)) p v \<or> (\<exists>q. p = segs @ q \<and> has leaf q v)"
proof (induction cur leaf key before segs arbitrary: e p rule: insert_at.induct)
  case (2 cur leaf key before seg)
  show ?case
  proof (cases "map_of (e_children cur) seg")
    case None
    with 2 show ?thesis by (auto simp: has_children)
  next
    case (Some old)
    with 2(1) obtain n where n: "mergeEntry old leaf key = Inr n" "e = Entry (e_temp cur) (AList.update seg n (e_children cur))"
      by (auto simp: bindR_Inr_iff)
    with 2(2) has_update [of seg n "e_children cur" p v] merge_adds_nothing(1) [OF n(1)] map_of_SomeD [OF Some]
    show ?thesis by (fastforce simp: has_children)
  qed
next
  case (3 cur leaf key before seg seg2 segs)
  let ?n = "case map_of (e_children cur) seg of None \<Rightarrow> Entry None [] | Some e \<Rightarrow> e"
  from 3(2) obtain n where n: "e_temp ?n = None" "insert_at ?n leaf key (before @ [seg]) (seg2 # segs) = Inr n"
    "e = Entry (e_temp cur) (AList.update seg n (e_children cur))" by (auto simp: bindR_Inr_iff Let_def split: if_splits)
  from 3(3) n(3) has_update [of seg n "e_children cur" p v]
  consider "has (Entry None (e_children cur)) p v" | q where "p = seg # q" "has n q v" by auto
  then show ?case
  proof cases
    case (2 q)
    have "has (Entry None (e_children n)) q v"
      using 2(2) has_split [of n q v] insert_at_temp [OF n(2)] n(1) by simp
    with "3.IH" [OF refl _ n(2)] n(1)
    consider "has (Entry None (e_children ?n)) q v" | r where "q = (seg2 # segs) @ r" "has leaf r v" by auto
    then show ?thesis
    proof cases
      case old: 1
      then obtain c where c: "map_of (e_children cur) seg = Some c" by (cases "map_of (e_children cur) seg") (auto simp: has_children)
      with old have "has c q v" using has_split [of c q v] by simp
      with map_of_SomeD [OF c] 2(1) show ?thesis by (auto simp: has_children)
    next
      case (2 r)
      with \<open>p = seg # q\<close> show ?thesis by auto
    qed
  qed simp
qed auto

section \<open>The file's numbers and the tree\<close>

inductive listed :: "(string \<times> jvalue) list \<Rightarrow> string list \<Rightarrow> real \<Rightarrow> bool" where
  listed_number: "(k, JNum v) \<in> set raw \<Longrightarrow> listed raw (key_segments k) v"
| listed_object: "(k, JObj sub) \<in> set raw \<Longrightarrow> listed sub s v \<Longrightarrow> listed raw (key_segments k @ s) v"

inductive_simps listed_Nil [simp]: "listed [] s v"

definition value_lists :: "jvalue \<Rightarrow> string list \<Rightarrow> real \<Rightarrow> bool" where
  "value_lists val s v = (case val of JNum t \<Rightarrow> s = [] \<and> v = t | JObj sub \<Rightarrow> listed sub s v | _ \<Rightarrow> False)"

lemma value_lists_simps [simp]:
  "value_lists (JNum t) s v \<longleftrightarrow> s = [] \<and> v = t" "value_lists (JObj sub) s v \<longleftrightarrow> listed sub s v"
  "\<not> value_lists JNull s v" "\<not> value_lists (JBool b) s v" "\<not> value_lists (JStr x) s v" "\<not> value_lists (JArr a) s v"
  by (simp_all add: value_lists_def)

lemma listed_Cons: "listed ((k, val) # raw) s v \<longleftrightarrow> listed raw s v \<or> (\<exists>q. s = key_segments k @ q \<and> value_lists val q v)"
  by (cases val; subst listed.simps; subst (2) listed.simps) (auto simp: value_lists_def)

lemma insertKey_insert_at:
  assumes "insertKey rt leaf k = Inr e"
  shows "insert_at rt leaf k [] (key_segments k) = Inr e"
  using assms by (auto simp: insertKey_def key_segments_def Let_def split: if_splits option.splits)

lemma key_segments_ne [simp]: "key_segments k \<noteq> []"
  by (simp add: key_segments_def)

lemma buildEntry_complete:
  "parseValue key val = Inr leaf \<Longrightarrow> value_lists val s v \<Longrightarrow> temp_on leaf (s @ deeper) = Some v \<and> 0 \<le> v \<and> v \<le> 1"
  "buildEntry_loop rt raw = Inr e \<Longrightarrow> e_temp e = e_temp rt \<and> (first_temp rt p = Some v \<longrightarrow> first_temp e p = Some v)
     \<and> (listed raw s v \<longrightarrow> first_temp e (s @ deeper) = Some v \<and> 0 \<le> v \<and> v \<le> 1)"
proof (induction key val and rt raw arbitrary: leaf s v deeper and e s v deeper p rule: parseValue_buildEntry_loop.induct)
  case (1 key val)
  then show ?case by (auto simp: temp_on_def split: if_splits)
next
  case (2 key val)
  then show ?case by (auto simp: temp_on_def)
next
  case (5 rt k val raw)
  from 5(3) obtain leaf r where l: "parseValue k val = Inr leaf" "insertKey rt leaf k = Inr r" "buildEntry_loop r raw = Inr e"
    by (auto simp: bindR_Inr_iff)
  note ins = insertKey_insert_at [OF l(2)]
  note rest = 5(2) [OF l(3)]
  have "first_temp e (s @ deeper) = Some v \<and> 0 \<le> v \<and> v \<le> 1" if new: "s = key_segments k @ q" "value_lists val q v" for q
  proof -
    from 5(1) [OF l(1) new(2), of deeper] have t: "temp_on leaf (q @ deeper) = Some v" "0 \<le> v" "v \<le> 1" by auto
    from insert_at_new [OF ins key_segments_ne t(1)] new(1) have "first_temp r (s @ deeper) = Some v" by simp
    with rest t show ?thesis by blast
  qed
  then show ?case
    using rest insert_at_keeps [OF ins] insert_at_temp [OF ins] unfolding listed_Cons by metis
qed auto

lemma buildEntry_sound:
  "parseValue key val = Inr leaf \<Longrightarrow> has leaf p v \<Longrightarrow> \<exists>s deeper. p = s @ deeper \<and> value_lists val s v"
  "buildEntry_loop rt raw = Inr e \<Longrightarrow> e_temp e = e_temp rt
     \<and> (has (Entry None (e_children e)) p v \<longrightarrow> has (Entry None (e_children rt)) p v \<or> (\<exists>s deeper. p = s @ deeper \<and> listed raw s v))"
proof (induction key val and rt raw arbitrary: leaf p v and e p v rule: parseValue_buildEntry_loop.induct)
  case (1 key val)
  then show ?case by (auto simp: has_Entry split: if_splits)
next
  case (2 key val)
  from 2(1) [of leaf p v] 2(2, 3) have "has (Entry None (e_children leaf)) p v" using has_split [of leaf p v] by auto
  with 2(1) [of leaf p v] 2(2) show ?case by (auto simp: has_children)
next
  case (5 rt k val raw)
  from 5(3) obtain leaf r where l: "parseValue k val = Inr leaf" "insertKey rt leaf k = Inr r" "buildEntry_loop r raw = Inr e"
    by (auto simp: bindR_Inr_iff)
  note ins = insertKey_insert_at [OF l(2)]
  have "\<exists>s deeper. p = s @ deeper \<and> listed ((k, val) # raw) s v" if "p = key_segments k @ q" "has leaf q v" for q
  proof -
    from 5(1) [OF l(1) that(2)] obtain s deeper where "q = s @ deeper" "value_lists val s v" by blast
    with that(1) show ?thesis unfolding listed_Cons by (intro exI [of _ "key_segments k @ s"] exI [of _ deeper]) auto
  qed
  with 5(2) [OF l(3), of p v] insert_at_temp [OF ins] insert_at_adds_leaf [OF ins, of p v] show ?case
    unfolding listed_Cons by auto
qed auto

section \<open>Resolving\<close>

lemma Resolve_loop_first: "first_temp cur parts = Some v \<Longrightarrow> Resolve_loop cur fallback parts = Some v"
  by (induction cur fallback parts rule: Resolve_loop.induct)
     (auto simp: Let_def first_temp_Cons bind_eq_Some_conv temp_on_def split: if_splits)

lemma Resolve_loop_sound:
  "Resolve_loop cur fallback parts = Some v \<Longrightarrow>
    fallback = Some v \<or> first_temp cur parts = Some v
    \<or> (\<exists>pre seg post. parts = pre @ seg # post \<and> first_temp cur (pre @ [''*'']) = Some v)"
proof (induction cur fallback parts rule: Resolve_loop.induct)
  case (2 cur fallback seg parts)
  define fb where "fb = (case map_of (e_children cur) ''*'' of
      Some g \<Rightarrow> if e_temp g \<noteq> None then e_temp g else fallback | None \<Rightarrow> fallback)"
  have fb: "fallback = Some v \<or> first_temp cur ([] @ [''*'']) = Some v" if "fb = Some v"
    using that by (auto simp: fb_def first_temp_Cons temp_on_def split: option.splits if_splits)
  show ?case
  proof (cases "fb = Some v")
    case True
    with fb show ?thesis by blast
  next
    case False
    have "(case map_of (e_children cur) seg of None \<Rightarrow> fb
        | Some c \<Rightarrow> if e_temp c \<noteq> None then e_temp c else Resolve_loop c fb parts) = Some v"
      using 2(2) by (simp only: Resolve_loop.simps Let_def fb_def)
    with False obtain c where c: "map_of (e_children cur) seg = Some c"
      "(if e_temp c \<noteq> None then e_temp c else Resolve_loop c fb parts) = Some v"
      by (cases "map_of (e_children cur) seg") simp_all
    show ?thesis
    proof (cases "e_temp c")
      case (Some t)
      with c have "first_temp cur (seg # parts) = Some v" by (simp add: first_temp_Cons temp_on_def)
      then show ?thesis by blast
    next
      case None
      have down: "first_temp cur (seg # p) = first_temp c p" for p
        using c None by (simp add: first_temp_Cons temp_on_def)
      from 2(1) [OF fb_def c(1)] None c(2) False
      consider "first_temp c parts = Some v" | pre s post where "parts = pre @ s # post" "first_temp c (pre @ [''*'']) = Some v"
        by auto
      then show ?thesis
      proof cases
        case 1
        with down show ?thesis by simp
      next
        case (2 pre s post)
        with down have "seg # parts = (seg # pre) @ s # post" "first_temp cur ((seg # pre) @ [''*'']) = Some v" by auto
        then show ?thesis by blast
      qed
    qed
  qed
qed simp

lemma temp_Load_built:
  assumes "temp_Load readFile unmarshal dir = Inr (Some rt)"
  shows "\<exists>data raw. unmarshal data = Inr raw \<and> readFile (filepath_Join dir temp_FileName) = Inr (Some data) \<and> buildEntry raw = Inr rt"
  using assms by (auto simp: temp_Load_def bindR_Inr_iff split: sum.splits option.splits)

text \<open>C35: every number of an accepted file takes effect: the path it is listed under, through nested
  objects and slashes in keys, and every path below that one resolve to it, whatever else the file lists
  and in whatever order the map is visited.\<close>

theorem Resolve_listed:
  assumes "buildEntry raw = Inr rt" "listed raw s v" "splitOn (CHR ''/'') rel = s @ below_it"
  shows "Resolve (Some rt) rel = Some v"
  using buildEntry_complete(2) [OF assms(1) [unfolded buildEntry_def], of _ v s below_it] assms(2, 3)
  by (simp add: Resolve_def Resolve_loop_first)

theorem Resolve_listed_witness:
  "\<exists>rt. buildEntry [(''docs/'', JObj [(''api'', JNum (1/2))]), (''./README.md'', JNum 1)] = Inr rt
    \<and> Resolve (Some rt) ''docs/api/index.md'' = Some (1/2)"
proof -
  let ?raw = "[(''docs/'', JObj [(''api'', JNum (1/2))]), (''./README.md'', JNum 1)]"
  have ks: "key_segments ''docs/'' = [''docs'']" "key_segments ''api'' = [''api'']" "key_segments ''./README.md'' = [''README.md'']" by code_simp+
  have "listed ?raw (key_segments ''docs/'' @ key_segments ''api'') (1/2)"
    by (rule listed_object [OF _ listed_number]) auto
  then have l: "listed ?raw [''docs'', ''api''] (1/2)" by (simp add: ks)
  have "\<exists>rt. buildEntry ?raw = Inr rt"
    by (simp add: buildEntry_def insertKey_def TrimSuffix_def TrimPrefix_def HasSuffix_def HasPrefix_def)
  then obtain rt where rt: "buildEntry ?raw = Inr rt" ..
  have sp: "splitOn (CHR ''/'') ''docs/api/index.md'' = [''docs'', ''api''] @ [''index.md'']" by code_simp
  from Resolve_listed [OF rt l sp] rt show ?thesis by blast
qed

text \<open>A temperature a path resolves to is between 0 and 1 and comes from the file: it is listed for
  the path itself, for a directory above it, or for the wildcard of one of the directories on the way.\<close>

theorem Resolve_sound:
  assumes "temp_Load readFile unmarshal dir = Inr (Some rt)" "Resolve (Some rt) rel = Some v"
  shows "0 \<le> v \<and> v \<le> 1 \<and> (\<exists>data raw s deeper. unmarshal data = Inr raw \<and> listed raw s v
    \<and> (splitOn (CHR ''/'') rel = s @ deeper
       \<or> (\<exists>pre. splitOn (CHR ''/'') rel = pre @ deeper \<and> deeper \<noteq> [] \<and> (\<exists>rest. pre @ [''*''] = s @ rest))))"
proof -
  let ?parts = "splitOn (CHR ''/'') rel"
  from temp_Load_built [OF assms(1)] obtain data raw where d: "unmarshal data = Inr raw" "buildEntry raw = Inr rt" by blast
  have found: "\<exists>s deeper. p = s @ deeper \<and> listed raw s v" if "first_temp rt p = Some v" for p
  proof -
    have "has (Entry None (e_children rt)) p v"
      using first_temp_has [OF that] by (simp add: has_children)
    with buildEntry_sound(2) [OF d(2) [unfolded buildEntry_def], of p v] show ?thesis by (auto simp: has_children)
  qed
  have bounds: "0 \<le> v \<and> v \<le> 1" if "listed raw s v" for s
    using buildEntry_complete(2) [OF d(2) [unfolded buildEntry_def], of _ v s] that by blast
  from assms(2) have "Resolve_loop rt None ?parts = Some v" by (simp add: Resolve_def)
  from Resolve_loop_sound [OF this]
  consider "first_temp rt ?parts = Some v"
    | pre seg post where "?parts = pre @ seg # post" "first_temp rt (pre @ [''*'']) = Some v" by blast
  then show ?thesis
  proof cases
    case 1
    from found [OF 1] obtain s deeper where "?parts = s @ deeper" "listed raw s v" by blast
    with bounds d show ?thesis by blast
  next
    case (2 pre seg post)
    from found [OF 2(2)] obtain s rest where "pre @ [''*''] = s @ rest" "listed raw s v" by blast
    with bounds d 2(1) show ?thesis by blast
  qed
qed

theorem Resolve_sound_witness:
  "\<exists>rt. temp_Load (\<lambda>path. Inr (Some [])) (\<lambda>data. Inr [(''docs'', JObj [(''*'', JNum (1/4))])]) ''/d'' = Inr (Some rt)
    \<and> Resolve (Some rt) ''docs/a.md'' = Some (1/4) \<and> 0 \<le> (1/4 :: real)"
proof -
  let ?raw = "[(''docs'', JObj [(''*'', JNum (1/4))])]"
  let ?L = "temp_Load (\<lambda>path. Inr (Some [])) (\<lambda>data. Inr ?raw) ''/d''"
  have b: "buildEntry ?raw = Inr (Entry None [(''docs'', Entry None [(''*'', Entry (Some (1/4)) [])])])"
    by (simp add: buildEntry_def insertKey_def TrimSuffix_def TrimPrefix_def HasSuffix_def HasPrefix_def)
  have l: "?L = Inr (Some (Entry None [(''docs'', Entry None [(''*'', Entry (Some (1/4)) [])])]))"
    by (simp add: temp_Load_def b)
  have "splitOn (CHR ''/'') ''docs/a.md'' = [''docs'', ''a.md'']" by code_simp
  then have r: "Resolve (Some (Entry None [(''docs'', Entry None [(''*'', Entry (Some (1/4)) [])])])) ''docs/a.md'' = Some (1/4)"
    by (simp add: Resolve_def)
  from Resolve_sound [OF l r] l r show ?thesis by blast
qed

end
