(* ===== verification/CompileDir.thy ===== *)
theory CompileDir
  imports Compiler Temperature Tempfile
begin

text \<open>
  The rest of \<open>pkg/compiler\<close>: compiling a directory and a single file. The file system is the
  record \<open>FS\<close>: the working directory, the tree under a path as \<open>filepath.WalkDir\<close> sees it
  (entries in lexical order, symbolic links as files), and the two ways files are read. The functions of
  \<open>path/filepath\<close> are those of the Unix build. A \<open>map[string]*float64\<close> is an association list in
  the order of the paths; the order in which \<open>reseedTemperatures\<close> goes through its map does not
  matter, the groups of files being disjoint.
\<close>

section \<open>path/filepath\<close>

definition IsAbs :: "string \<Rightarrow> bool" where
  "IsAbs p = HasPrefix p ''/''"

definition filepath_Abs :: "error + string \<Rightarrow> string \<Rightarrow> error + string" where
  "filepath_Abs cwd p = (if IsAbs p then Inr (Clean p) else bindR cwd (\<lambda>wd. Inr (filepath_Join wd p)))"

definition path_elements :: "string \<Rightarrow> string list" where
  \<comment> \<open>of a clean path; the dot has none and the file system's top one\<close>
  "path_elements p = (if p = ''.'' then [] else if p = ''/'' then [[]] else splitOn (CHR ''/'') p)"

fun drop_common :: "string list \<Rightarrow> string list \<Rightarrow> string list \<times> string list" where
  "drop_common (b # bs) (t # ts) = (if b = t then drop_common bs ts else (b # bs, t # ts))"
| "drop_common bs ts = (bs, ts)"

definition filepath_Rel :: "string \<Rightarrow> string \<Rightarrow> error + string" where
  "filepath_Rel basepath targpath =
     (let base = Clean basepath; targ = Clean targpath;
          fail = Inl (Driver (''Rel: can't make '' @ targpath @ '' relative to '' @ basepath))
      in if targ = base then Inr ''.''
         else if IsAbs base \<noteq> IsAbs targ then fail
         else (case drop_common (path_elements base) (path_elements targ) of
                 ([], ts) \<Rightarrow> Inr (Join ts ''/'')
               | (b # bs, ts) \<Rightarrow>
                   if b = ''..'' \<and> ts \<noteq> [] then fail
                   else Inr (Join (replicate (length (b # bs)) ''..'' @ ts) ''/'')))"

section \<open>The file system\<close>

datatype fsentry = FFile | FDir "(string \<times> fsentry) list" | FUnreadable error

record FS =
  fs_cwd :: "error + string"
  fs_root :: "string \<Rightarrow> error + fsentry"
  fs_open :: "string \<Rightarrow> error + string option"
  fs_read :: "string \<Rightarrow> error + string"

text \<open>The walk with its callback: the files to compile, in order. A directory that cannot be
  listed ends it.\<close>

fun walk_entry :: "Matcher option \<Rightarrow> string \<Rightarrow> string \<Rightarrow> string \<Rightarrow> fsentry \<Rightarrow> error + string list"
and walk_list :: "Matcher option \<Rightarrow> string \<Rightarrow> string \<Rightarrow> (string \<times> fsentry) list \<Rightarrow> error + string list" where
  "walk_entry matcher absDir path name FFile =
     (let rel = (case filepath_Rel absDir path of Inl _ \<Rightarrow> [] | Inr r \<Rightarrow> r)
      in Inr (if rel = ignore_FileName then []
              else if \<not> Supported path then []
              else if Match matcher rel False then [] else [path]))"
| "walk_entry matcher absDir path name (FDir es) =
     (let rel = (case filepath_Rel absDir path of Inl _ \<Rightarrow> [] | Inr r \<Rightarrow> r)
      in if path \<noteq> absDir \<and> ShouldSkipDir name then Inr []
         else if Match matcher rel True then Inr []
         else walk_list matcher absDir path es)"
| "walk_entry matcher absDir path name (FUnreadable e) =
     (let rel = (case filepath_Rel absDir path of Inl _ \<Rightarrow> [] | Inr r \<Rightarrow> r)
      in if path \<noteq> absDir \<and> ShouldSkipDir name then Inr []
         else if Match matcher rel True then Inr []
         else Inl e)"
| "walk_list matcher absDir path [] = Inr []"
| "walk_list matcher absDir path ((n, e) # es) =
     bindR (walk_entry matcher absDir (filepath_Join path n) n e) (\<lambda>ps.
     bindR (walk_list matcher absDir path es) (\<lambda>qs. Inr (ps @ qs)))"

section \<open>Temperatures of the paths\<close>

fun resolve_loop :: "entry \<Rightarrow> string \<Rightarrow> string list \<Rightarrow> error + (string \<times> real) list" where
  "resolve_loop resolver dir [] = Inr []"
| "resolve_loop resolver dir (p # ps) =
     (case filepath_Rel dir p of
        Inl e \<Rightarrow> Inl (Errorf (''failed to resolve: relative path for '' @ p) e)
      | Inr rel \<Rightarrow>
          bindR (resolve_loop resolver dir ps) (\<lambda>temps.
            Inr (case Resolve (Some resolver) rel of Some t \<Rightarrow> (p, t) # temps | None \<Rightarrow> temps)))"

definition resolveTemps :: "(string \<Rightarrow> error + string option) \<Rightarrow> (string \<Rightarrow> error + (string \<times> jvalue) list)
    \<Rightarrow> string \<Rightarrow> string list \<Rightarrow> error + (string \<times> real) list" where
  "resolveTemps openFile unmarshal dir paths =
     (case temp_Load openFile unmarshal dir of
        Inl e \<Rightarrow> Inl (Errorf (''failed to load: '' @ temp_FileName) e)
      | Inr None \<Rightarrow> Inr []
      | Inr (Some resolver) \<Rightarrow> resolve_loop resolver dir paths)"

fun group_by_temp :: "string \<Rightarrow> (string \<times> real) list \<Rightarrow> (real \<times> string list) list \<Rightarrow> error + (real \<times> string list) list" where
  "group_by_temp croot [] byTemp = Inr byTemp"
| "group_by_temp croot ((path, t) # temps) byTemp =
     (case filepath_Rel croot path of
        Inl e \<Rightarrow> Inl (Errorf (''failed to resolve: relative path for '' @ path) e)
      | Inr rel \<Rightarrow>
          group_by_temp croot temps
            (AList.update t ((case map_of byTemp t of None \<Rightarrow> [] | Some rels \<Rightarrow> rels) @ [rel]) byTemp))"

fun reseed_loop :: "(nat \<Rightarrow> attempt_env) \<Rightarrow> error \<Rightarrow> int \<Rightarrow> (real \<times> string list) list \<Rightarrow> db \<Rightarrow> error option \<times> db" where
  "reseed_loop env ctxErr now [] d = (None, d)"
| "reseed_loop env ctxErr now ((temp, rels) # byTemp) d =
     (case run_update env ctxErr (ResetTemperaturesByFiles now rels temp) d of
        Inl e \<Rightarrow> (Some e, d)
      | Inr d' \<Rightarrow> reseed_loop env ctxErr now byTemp d')"

definition reseedTemperatures :: "(nat \<Rightarrow> attempt_env) \<Rightarrow> error \<Rightarrow> int \<Rightarrow> string \<Rightarrow> (string \<times> real) list
    \<Rightarrow> db \<Rightarrow> error option \<times> db" where
  "reseedTemperatures env ctxErr now croot temps d =
     (case group_by_temp croot temps [] of
        Inl e \<Rightarrow> (Some e, d)
      | Inr byTemp \<Rightarrow> reseed_loop env ctxErr now byTemp d)"

section \<open>CompileDir and CompileFile\<close>

record dir_options =
  doIgnore :: "Matcher option option"
  doReseed :: bool

definition select_paths :: "FS \<Rightarrow> dir_options \<Rightarrow> string \<Rightarrow> error + string list" where
  "select_paths fs opts absDir =
     bindR (case doIgnore opts of
              Some m \<Rightarrow> Inr m
            | None \<Rightarrow> wrap_error (''failed to load: '' @ ignore_FileName) (ignore_Load (fs_open fs) absDir)) (\<lambda>matcher.
       wrap_error (''failed to walk: '' @ absDir)
         (bindR (fs_root fs absDir) (walk_entry matcher absDir absDir [])))"

definition no_changes :: Result where
  "no_changes = \<lparr>Added = 0, Modified = 0, Removed' = 0, Total = 0\<rparr>"

definition CompileDir :: "(string \<Rightarrow> 64 word) \<Rightarrow> (nat \<Rightarrow> attempt_env) \<Rightarrow> error \<Rightarrow> int \<Rightarrow> FS
    \<Rightarrow> (string \<Rightarrow> error + (string \<times> jvalue) list) \<Rightarrow> (string \<Rightarrow> string \<Rightarrow> error + ContextNode list)
    \<Rightarrow> string \<Rightarrow> string \<Rightarrow> dir_options \<Rightarrow> db \<Rightarrow> (error + Result) \<times> db" where
  "CompileDir h env ctxErr now fs unmarshal parseBytes dir message opts d =
     (case filepath_Abs (fs_cwd fs) dir of
        Inl e \<Rightarrow> (Inl (Errorf (''failed to resolve: '' @ dir) e), d)
      | Inr absDir \<Rightarrow>
          (case select_paths fs opts absDir of
             Inl e \<Rightarrow> (Inl e, d)
           | Inr paths \<Rightarrow>
               if length paths = 0 then (Inr no_changes, d)
               else (case resolveTemps (fs_open fs) unmarshal absDir paths of
                 Inl e \<Rightarrow> (Inl e, d)
               | Inr temps \<Rightarrow>
                   (case Compile h env ctxErr now (fs_read fs) parseBytes
                           \<lparr>oPaths = paths, oMessage = message, oCompileRoot = absDir, oTemps = map_of temps, oFullRescan = True\<rparr> d of
                      (Inl e, d') \<Rightarrow> (Inl e, d')
                    | (Inr result, d') \<Rightarrow>
                        if doReseed opts \<and> 0 < length temps then
                          (case reseedTemperatures env ctxErr now absDir temps d' of
                             (Some e, d'') \<Rightarrow> (Inl (Errorf ''failed to reseed temperatures'' e), d'')
                           | (None, d'') \<Rightarrow> (Inr result, d''))
                        else (Inr result, d')))))"

definition CompileFile :: "(string \<Rightarrow> 64 word) \<Rightarrow> (nat \<Rightarrow> attempt_env) \<Rightarrow> error \<Rightarrow> int \<Rightarrow> FS
    \<Rightarrow> (string \<Rightarrow> string \<Rightarrow> error + ContextNode list)
    \<Rightarrow> string \<Rightarrow> string \<Rightarrow> (string \<rightharpoonup> real) \<Rightarrow> bool \<Rightarrow> db \<Rightarrow> (error + Result) \<times> db" where
  \<comment> \<open>temperatures and the rescan flag may come with the caller's options\<close>
  "CompileFile h env ctxErr now fs parseBytes path message temps fullRescan d =
     (case filepath_Abs (fs_cwd fs) path of
        Inl e \<Rightarrow> (Inl (Errorf (''failed to resolve: '' @ path) e), d)
      | Inr absPath \<Rightarrow>
          if \<not> Supported path then (Inl (UnsupportedExt (Ext path)), d)
          else Compile h env ctxErr now (fs_read fs) parseBytes
                 \<lparr>oPaths = [path], oMessage = message, oCompileRoot = Dir absPath, oTemps = temps, oFullRescan = fullRescan\<rparr> d)"

section \<open>Paths below a directory\<close>

definition good_name :: "string \<Rightarrow> bool" where
  "good_name n \<longleftrightarrow> n \<noteq> [] \<and> n \<noteq> ''.'' \<and> n \<noteq> ''..'' \<and> CHR ''/'' \<notin> set n"

definition abs_path :: "string list \<Rightarrow> string" where
  "abs_path ds = CHR ''/'' # Join ds ''/''"

lemma good_names_clean: "list_all good_name ds \<Longrightarrow> clean_segs True (rev ds)"
proof -
  assume a: "list_all good_name ds"
  then have "\<forall>x \<in> set (rev ds). x \<noteq> [] \<and> x \<noteq> ''.'' \<and> CHR ''/'' \<notin> set x"
    unfolding list_all_iff set_rev good_name_def by blast
  moreover have "''..'' \<notin> set (rev ds)"
    using a unfolding set_rev by (metis good_name_def list_all_iff)
  ultimately show ?thesis
    unfolding clean_segs_def by (intro conjI exI [of _ "rev ds"] exI [of _ "[]"]) simp_all
qed

lemma splitOn_Join_good: "list_all good_name ds \<Longrightarrow> ds \<noteq> [] \<Longrightarrow> splitOn (CHR ''/'') (Join ds ''/'') = ds"
  by (intro splitOn_Join) (auto simp: list_all_iff good_name_def)

lemma Clean_rooted:
  assumes "list_all good_name ds" "foldl (clean_step True) [] (splitOn (CHR ''/'') (CHR ''/'' # s)) = rev ds"
  shows "Clean (CHR ''/'' # s) = abs_path ds"
  using assms by (simp add: Clean_def Let_def abs_path_def)

lemma foldl_good: "list_all good_name ds \<Longrightarrow> foldl (clean_step True) [] ds = rev ds"
  using clean_reproduce [OF good_names_clean] by simp

lemma clean_step_empty [simp]: "clean_step True st [] = st"
  by (simp add: clean_step_def)

lemma Clean_abs_path:
  assumes "list_all good_name ds"
  shows "Clean (abs_path ds) = abs_path ds"
proof (cases "ds = []")
  case True
  then show ?thesis by (simp add: abs_path_def Clean_def clean_step_def)
next
  case False
  have "foldl (clean_step True) [] (splitOn (CHR ''/'') (CHR ''/'' # Join ds ''/'')) = rev ds"
    using splitOn_Join_good [OF assms False] foldl_good [OF assms] by simp
  with assms show ?thesis by (subst abs_path_def) (rule Clean_rooted)
qed

lemma Join_snoc: "ds \<noteq> [] \<Longrightarrow> Join (ds @ [n]) s = Join ds s @ s @ n"
  by (induction ds s rule: Join.induct) (auto simp: Join_Cons)

lemma filepath_Join_abs_path:
  assumes "list_all good_name ds" "good_name n"
  shows "filepath_Join (abs_path ds) n = abs_path (ds @ [n])"
proof (cases "ds = []")
  case True
  have "splitOn (CHR ''/'') n = [n]" using assms(2) by (simp add: good_name_def splitOn_id)
  then have "foldl (clean_step True) [] (splitOn (CHR ''/'') (CHR ''/'' # CHR ''/'' # n)) = rev [n]"
    using foldl_good [of "[n]"] assms(2) by simp
  with Clean_rooted [of "[n]"] assms(2) True show ?thesis by (simp add: filepath_Join_def abs_path_def good_name_def)
next
  case False
  have "Join (ds @ [n]) ''/'' = Join ds ''/'' @ CHR ''/'' # n" using False by (simp add: Join_snoc)
  then have "filepath_Join (abs_path ds) n = Clean (abs_path (ds @ [n]))"
    using assms(2) by (simp add: filepath_Join_def abs_path_def good_name_def)
  then show ?thesis using assms by (simp add: Clean_abs_path)
qed

lemma path_elements_abs:
  assumes "list_all good_name ds"
  shows "path_elements (abs_path ds) = [] # ds"
proof (cases "ds = []")
  case False
  then have "Join ds ''/'' \<noteq> []" using assms by (intro Join_nonempty [of "hd ds"]) (auto simp: list_all_iff good_name_def)
  with assms False show ?thesis
    by (simp add: path_elements_def abs_path_def splitOn_Join_good)
qed (simp add: path_elements_def abs_path_def)

lemma abs_path_inject:
  "list_all good_name ds \<Longrightarrow> list_all good_name es \<Longrightarrow> abs_path ds = abs_path es \<longleftrightarrow> ds = es"
  by (metis list.inject path_elements_abs)

lemma drop_common_prefix: "drop_common ds (ds @ s) = ([], s)"
  by (induction ds) auto

definition rel_path :: "string list \<Rightarrow> string" where
  "rel_path s = (if s = [] then ''.'' else Join s ''/'')"

lemma filepath_Rel_below:
  assumes "list_all good_name (ds @ s)"
  shows "filepath_Rel (abs_path ds) (abs_path (ds @ s)) = Inr (rel_path s)"
proof -
  from assms have ok: "list_all good_name ds" by simp
  have "IsAbs (abs_path ds)" "IsAbs (abs_path (ds @ s))" by (simp_all add: IsAbs_def abs_path_def)
  moreover have "abs_path (ds @ s) = abs_path ds \<longleftrightarrow> s = []" using abs_path_inject [OF assms ok] by simp
  ultimately show ?thesis
    using path_elements_abs [OF ok] path_elements_abs [OF assms] Clean_abs_path [OF ok] Clean_abs_path [OF assms]
    by (simp add: filepath_Rel_def Let_def rel_path_def drop_common_prefix)
qed

section \<open>Which files are compiled\<close>

fun good_tree :: "fsentry \<Rightarrow> bool" where
  "good_tree FFile = True"
| "good_tree (FUnreadable e) = True"
| "good_tree (FDir es) = list_all (\<lambda>(n, e). good_name n \<and> good_tree e) es"

inductive file_at :: "fsentry \<Rightarrow> string list \<Rightarrow> bool" where
  file_here: "file_at FFile []"
| file_below: "(n, e) \<in> set es \<Longrightarrow> file_at e s \<Longrightarrow> file_at (FDir es) (n # s)"

inductive_simps file_at_simps: "file_at FFile s" "file_at (FUnreadable e) s" "file_at (FDir es) s"

definition passes_file :: "Matcher option \<Rightarrow> string list \<Rightarrow> string list \<Rightarrow> bool" where
  "passes_file m ds s \<longleftrightarrow> rel_path s \<noteq> ignore_FileName \<and> Supported (abs_path (ds @ s)) \<and> \<not> Match m (rel_path s) False"

definition passes_dir :: "Matcher option \<Rightarrow> string list \<Rightarrow> bool" where
  "passes_dir m q \<longleftrightarrow> (q \<noteq> [] \<longrightarrow> \<not> ShouldSkipDir (last q)) \<and> \<not> Match m (rel_path q) True"

definition all_dirs_pass :: "Matcher option \<Rightarrow> string list \<Rightarrow> string list \<Rightarrow> bool" where
  \<comment> \<open>the directories from \<open>pre\<close> down to the parent of \<open>pre @ s\<close>\<close>
  "all_dirs_pass m pre s \<longleftrightarrow> (\<forall>k < length s. passes_dir m (pre @ take k s))"

lemma all_dirs_pass_Nil [simp]: "all_dirs_pass m pre []"
  by (simp add: all_dirs_pass_def)

lemma all_dirs_pass_Cons: "all_dirs_pass m pre (n # s) \<longleftrightarrow> passes_dir m pre \<and> all_dirs_pass m (pre @ [n]) s"
  by (auto simp: all_dirs_pass_def less_Suc_eq_0_disj)

definition chosen :: "Matcher option \<Rightarrow> string list \<Rightarrow> string list \<Rightarrow> string list \<Rightarrow> bool" where
  "chosen m ds pre s \<longleftrightarrow> passes_file m ds (pre @ s) \<and> all_dirs_pass m pre s"

lemma walk_chooses:
  "walk_entry m absDir path name e = Inr ps \<Longrightarrow> absDir = abs_path ds \<Longrightarrow> path = abs_path (ds @ pre) \<Longrightarrow>
    list_all good_name (ds @ pre) \<Longrightarrow> good_tree e \<Longrightarrow> (pre \<noteq> [] \<Longrightarrow> name = last pre) \<Longrightarrow>
    set ps = (\<lambda>s. abs_path (ds @ pre @ s)) ` {s. file_at e s \<and> chosen m ds pre s}"
  "walk_list m absDir path es = Inr ps \<Longrightarrow> absDir = abs_path ds \<Longrightarrow> path = abs_path (ds @ pre) \<Longrightarrow>
    list_all good_name (ds @ pre) \<Longrightarrow> good_tree (FDir es) \<Longrightarrow> passes_dir m pre \<Longrightarrow>
    set ps = (\<lambda>s. abs_path (ds @ pre @ s)) ` {s. file_at (FDir es) s \<and> chosen m ds pre s}"
proof (induction m absDir path name e and m absDir path es arbitrary: ps pre and ps pre rule: walk_entry_walk_list.induct)
  case (1 m absDir path name)
  note rel = filepath_Rel_below [OF 1(4)]
  show ?case
    using 1(1) unfolding 1(2, 3) by (auto simp: rel file_at_simps chosen_def passes_file_def Let_def split: if_splits)
next
  case (2 m absDir path name es)
  note rel = filepath_Rel_below [OF 2(5)]
  have root: "path \<noteq> absDir \<longleftrightarrow> pre \<noteq> []"
    unfolding 2(3, 4) using 2(5) by (subst abs_path_inject) auto
  show ?case
  proof (cases "passes_dir m pre")
    case True
    with 2(2) root 2(7) have "walk_list m absDir path es = Inr ps"
      unfolding 2(3, 4) by (auto simp: rel passes_dir_def Let_def split: if_splits)
    with 2(1) [OF refl _ _ this 2(3-6) True] show ?thesis
      using True root 2(7) rel unfolding 2(3, 4) by (auto simp: passes_dir_def)
  next
    case False
    with 2(2) root 2(7) have "ps = []"
      unfolding 2(3, 4) by (auto simp: rel passes_dir_def Let_def split: if_splits)
    moreover have "\<not> chosen m ds pre s" if "file_at (FDir es) s" for s
      using that False by (auto simp: chosen_def file_at_simps all_dirs_pass_Cons)
    ultimately show ?thesis by auto
  qed
next
  case (3 m absDir path name e)
  note rel = filepath_Rel_below [OF 3(4)]
  have root: "path \<noteq> absDir \<longleftrightarrow> pre \<noteq> []"
    unfolding 3(2, 3) using 3(4) by (subst abs_path_inject) auto
  from 3(1) have "ps = []" by (auto simp: Let_def split: if_splits)
  then show ?case by (auto simp: file_at_simps)
next
  case (4 m absDir path)
  then show ?case by (auto simp: file_at_simps)
next
  case (5 m absDir path n e es)
  from 5(3) obtain ps1 ps2 where w: "walk_entry m absDir (filepath_Join path n) n e = Inr ps1"
    "walk_list m absDir path es = Inr ps2" "ps = ps1 @ ps2" by (auto simp: bindR_Inr_iff)
  from 5(7) have g: "good_name n" "good_tree e" "good_tree (FDir es)" by auto
  have j: "filepath_Join path n = abs_path (ds @ pre @ [n])"
    using filepath_Join_abs_path [OF 5(6) g(1)] 5(5) by simp
  have "set ps1 = (\<lambda>s. abs_path (ds @ (pre @ [n]) @ s)) ` {s. file_at e s \<and> chosen m ds (pre @ [n]) s}"
    using 5(1) [OF w(1) 5(4) j, of] 5(6) g by simp
  moreover have "chosen m ds pre (n # s) \<longleftrightarrow> chosen m ds (pre @ [n]) s" for s
    using 5(8) by (simp add: chosen_def all_dirs_pass_Cons)
  ultimately have "set ps1 = (\<lambda>s. abs_path (ds @ pre @ s)) ` {s. \<exists>t. s = n # t \<and> file_at e t \<and> chosen m ds pre s}"
    by auto
  moreover have "set ps2 = (\<lambda>s. abs_path (ds @ pre @ s)) ` {s. file_at (FDir es) s \<and> chosen m ds pre s}"
    using 5(2) [OF w(2) 5(4-6) g(3) 5(8)] .
  moreover have "file_at (FDir ((n, e) # es)) s \<longleftrightarrow> (\<exists>t. s = n # t \<and> file_at e t) \<or> file_at (FDir es) s" for s
    by (auto simp: file_at_simps)
  ultimately show ?case unfolding w(3) by auto
qed

text \<open>C25: compiling a directory compiles exactly the files it should: those below it with a supported
  extension, other than the ignore file, that no ignore line excludes and that have no skipped or
  excluded directory above them. Names in the tree are names as a file system allows them.\<close>

theorem select_paths_exact:
  assumes "select_paths fs opts (abs_path ds) = Inr paths" "list_all good_name ds"
    and "fs_root fs (abs_path ds) = Inr tree" "good_tree tree"
  shows "\<exists>m. (doIgnore opts = Some m \<or> (doIgnore opts = None \<and> ignore_Load (fs_open fs) (abs_path ds) = Inr m))
    \<and> set paths = (\<lambda>s. abs_path (ds @ s)) `
        {s. file_at tree s \<and> passes_file m ds s \<and> list_all (\<lambda>k. passes_dir m (take k s)) [0..<length s]}"
proof -
  from assms(1, 3) obtain m where m: "doIgnore opts = Some m \<or> (doIgnore opts = None \<and> ignore_Load (fs_open fs) (abs_path ds) = Inr m)"
    and w: "walk_entry m (abs_path ds) (abs_path ds) [] tree = Inr paths"
    by (auto simp: select_paths_def bindR_Inr_iff split: option.splits)
  have "set paths = (\<lambda>s. abs_path (ds @ [] @ s)) ` {s. file_at tree s \<and> chosen m ds [] s}"
    using assms(2, 4) by (intro walk_chooses(1) [OF w]) auto
  moreover have "chosen m ds [] s \<longleftrightarrow> passes_file m ds s \<and> list_all (\<lambda>k. passes_dir m (take k s)) [0..<length s]" for s
    by (auto simp: chosen_def all_dirs_pass_def list_all_iff)
  ultimately show ?thesis using m by auto
qed

theorem select_paths_exact_witness:
  "\<exists>paths. select_paths \<lparr>fs_cwd = Inr ''/'', fs_root = \<lambda>p. Inr (FDir [(''a.md'', FFile), (''b.txt'', FFile), (''vendor'', FDir [(''c.md'', FFile)])]),
       fs_open = \<lambda>p. Inr None, fs_read = \<lambda>p. Inr []\<rparr> \<lparr>doIgnore = None, doReseed = False\<rparr> (abs_path [''d'']) = Inr paths
     \<and> abs_path [''d'', ''a.md''] \<in> set paths \<and> abs_path [''d'', ''vendor'', ''c.md''] \<notin> set paths"
proof -
  let ?t = "FDir [(''a.md'', FFile), (''b.txt'', FFile), (''vendor'', FDir [(''c.md'', FFile)])]"
  let ?fs = "\<lparr>fs_cwd = Inr ''/'', fs_root = \<lambda>p. Inr ?t, fs_open = \<lambda>p. Inr None, fs_read = \<lambda>p. Inr []\<rparr>"
  let ?o = "\<lparr>doIgnore = None, doReseed = False\<rparr>"
  have g: "list_all good_name [''d'']" "good_tree ?t" by (simp_all add: good_name_def)
  have "walk_entry None (abs_path [''d'']) (abs_path [''d'']) [] ?t = Inr [abs_path [''d'', ''a.md'']]" by code_simp
  then obtain paths where p: "select_paths ?fs ?o (abs_path [''d'']) = Inr paths"
    by (auto simp: select_paths_def ignore_Load_def)
  from select_paths_exact [OF p g(1) _ g(2)] obtain m where m: "ignore_Load (fs_open ?fs) (abs_path [''d'']) = Inr m"
    and ps: "set paths = (\<lambda>s. abs_path ([''d''] @ s)) ` {s. file_at ?t s \<and> passes_file m [''d''] s \<and> list_all (\<lambda>k. passes_dir m (take k s)) [0..<length s]}"
    by auto
  have m: "m = None" using m by (simp add: ignore_Load_def)
  have "file_at ?t [''a.md'']" by (intro file_below [of _ FFile] file_here) auto
  moreover have "passes_file None [''d''] [''a.md'']" "passes_dir None []" "\<not> passes_dir None [''vendor'']"
    by code_simp+
  ultimately have "abs_path [''d'', ''a.md''] \<in> set paths"
    unfolding ps m by (intro image_eqI [of _ _ "[''a.md'']"]) auto
  moreover have "abs_path [''d'', ''vendor'', ''c.md''] \<notin> set paths"
  proof
    assume "abs_path [''d'', ''vendor'', ''c.md''] \<in> set paths"
    then obtain s where s: "abs_path [''d'', ''vendor'', ''c.md''] = abs_path ([''d''] @ s)" "file_at ?t s"
      "list_all (\<lambda>k. passes_dir None (take k s)) [0..<length s]" unfolding ps m by auto
    have "list_all good_name ([''d''] @ s)" using s(2) by (auto simp: file_at_simps good_name_def)
    then have "s = [''vendor'', ''c.md'']"
      using s(1) abs_path_inject [of "[''d'', ''vendor'', ''c.md'']" "[''d''] @ s"] by (simp add: good_name_def)
    with s(3) \<open>\<not> passes_dir None [''vendor'']\<close> show False by (auto simp: list_all_iff)
  qed
  ultimately show ?thesis using p by blast
qed

section \<open>Compiling a directory keeps the store in step\<close>

context row_update
begin

lemma view_update: "view (t_nodes (update_where P f d)) = view (t_nodes d)"
proof
  fix i
  show "view (t_nodes (update_where P f d)) i = view (t_nodes d) i"
    using get_row_update [of P d i] keeps
    by (cases "get_row (t_nodes d) i") (auto simp: view_def row_state_def)
qed

end

lemma reset_view: "view (t_nodes (ResetTemperaturesByFiles now rels temp d)) = view (t_nodes d)"
  by (simp add: ResetTemperaturesByFiles_def temp_set.view_update)

lemma reseed_loop_safe:
  "reseed_loop env ctxErr now byTemp d = (e, d') \<Longrightarrow> reachable h X C croot d \<Longrightarrow>
    reachable h X C croot d' \<and> view (t_nodes d') = view (t_nodes d)"
proof (induction env ctxErr now byTemp d rule: reseed_loop.induct)
  case (2 env ctxErr now temp rels byTemp d)
  show ?case
  proof (cases "run_update env ctxErr (ResetTemperaturesByFiles now rels temp) d")
    case (Inr d1)
    have "reachable h X C croot d1"
      using run_update_Inr [OF Inr] 2(3) by (auto intro: reach_temperature)
    with 2(1) [OF Inr] 2(2) Inr run_update_Inr [OF Inr] show ?thesis by (simp add: reset_view)
  qed (use 2 in auto)
qed auto

lemma reseed_safe:
  "reseedTemperatures env ctxErr now root' temps d = (e, d') \<Longrightarrow> reachable h X C croot d \<Longrightarrow>
    reachable h X C croot d' \<and> view (t_nodes d') = view (t_nodes d)"
  by (auto simp: reseedTemperatures_def dest: reseed_loop_safe split: sum.splits)

definition dir_opts :: "string list \<Rightarrow> string \<Rightarrow> string \<Rightarrow> (string \<times> real) list \<Rightarrow> compile_options" where
  "dir_opts paths message croot temps =
     \<lparr>oPaths = paths, oMessage = message, oCompileRoot = croot, oTemps = map_of temps, oFullRescan = True\<rparr>"


definition sample_fs :: FS where
  "sample_fs = \<lparr>fs_cwd = Inr ''/'', fs_root = \<lambda>p. Inr (FDir [(''a.md'', FFile)]), fs_open = \<lambda>p. Inr None, fs_read = \<lambda>p. Inr []\<rparr>"


end
