(* ===== verification/Query.thy ===== *)
theory Query
  imports Temperature
begin

text \<open>
  The package \<open>pkg/query\<close>: fetching a node with its surroundings and searching, both cut
  to a token budget. The Go interface \<open>QueryStore\<close> is a record of operations on a store state and
  its contract the locale \<open>query_store\<close>. Budgets are Go's \<open>int\<close>, sums and differences wrap at 64 bits.
  \<open>sort.Slice\<close> is not stable; the model keeps the order of equal scores, and no fact below
  depends on it. The three reads of \<open>collectContext\<close> run concurrently; when several fail the model
  reports the first in program order.
\<close>

record RankedNode =
  rkNode :: Node
  rkRank :: real

record ScoredNode =
  scNode :: Node
  scScore :: real

record QResult =
  rNodes :: "ScoredNode list"
  rTokensUsed :: int

record 's QueryStore =
  qs_GetNode :: "string \<Rightarrow> 's \<Rightarrow> error + Node"
  qs_GetAncestors :: "string \<Rightarrow> 's \<Rightarrow> error + Node list"
  qs_GetDescendants :: "string \<Rightarrow> int \<Rightarrow> 's \<Rightarrow> error + Node list"
  qs_GetSiblings :: "string \<Rightarrow> 's \<Rightarrow> error + Node list"
  qs_SearchRanked :: "string \<Rightarrow> int \<Rightarrow> 's \<Rightarrow> error + RankedNode list"
  qs_GetDiffsSince :: "int \<Rightarrow> 's \<Rightarrow> error + DiffRecord list"

definition DefaultMaxDepth :: int where "DefaultMaxDepth = 32"
definition MaxDepthCap :: int where "MaxDepthCap = 128"
definition searchLimit :: int where "searchLimit = 50"
definition recencyNormHours :: real where "recencyNormHours = 24"

definition clampDepth :: "int \<Rightarrow> int" where
  "clampDepth d = (if d \<le> 0 then DefaultMaxDepth else if MaxDepthCap < d then MaxDepthCap else d)"

section \<open>Ranking\<close>

text \<open>\<open>now\<close> is in nanoseconds, the stored access time in seconds.\<close>

definition recencyBoost :: "Node \<Rightarrow> int \<Rightarrow> real" where
  "recencyBoost n now =
     (case nLastAccessed n of
        None \<Rightarrow> 1
      | Some t \<Rightarrow>
          (let hours = duration_hours (now - t * 1000000000);
               hours = (if hours < 0 then 0 else hours)
           in 1 / (1 + hours / recencyNormHours)))"

definition scoreNode :: "Node \<Rightarrow> real \<Rightarrow> int \<Rightarrow> real" where
  "scoreNode n ftsRank now = ftsRank * Score 1 (nTemperature n) * recencyBoost n now"

definition sort_descending :: "ScoredNode list \<Rightarrow> ScoredNode list" where
  "sort_descending scored = sort_key (\<lambda>s. - scScore s) scored"

definition rankNodes :: "Node list \<Rightarrow> int \<Rightarrow> ScoredNode list" where
  "rankNodes nodes now = sort_descending (map (\<lambda>n. \<lparr>scNode = n, scScore = scoreNode n 1 now\<rparr>) nodes)"

definition rankSearchResults :: "RankedNode list \<Rightarrow> int \<Rightarrow> ScoredNode list" where
  "rankSearchResults results now =
     sort_descending (map (\<lambda>r. \<lparr>scNode = rkNode r, scScore = scoreNode (rkNode r) (- rkRank r) now\<rparr>) results)"

section \<open>The budget\<close>

fun fillBudget_loop :: "ScoredNode list \<Rightarrow> int \<Rightarrow> ScoredNode list \<Rightarrow> int \<Rightarrow> QResult" where
  "fillBudget_loop [] budget out used = \<lparr>rNodes = out, rTokensUsed = used\<rparr>"
| "fillBudget_loop (sn # scored) budget out used =
     (let cost = nTokenCount (scNode sn)
      in if wrap64 (used + cost) > budget then fillBudget_loop scored budget out used
         else fillBudget_loop scored budget (out @ [sn]) (wrap64 (used + cost)))"

definition fillBudget :: "ScoredNode list \<Rightarrow> int \<Rightarrow> QResult" where
  "fillBudget scored budget = fillBudget_loop scored budget [] 0"

section \<open>The engine\<close>

fun unseen :: "string set \<Rightarrow> Node list \<Rightarrow> Node list" where
  \<comment> \<open>the nodes whose identifier comes up for the first time\<close>
  "unseen seen [] = []"
| "unseen seen (n # ns) = (if nID n \<in> seen then unseen seen ns else n # unseen (insert (nID n) seen) ns)"

definition collectContext :: "'s QueryStore \<Rightarrow> Node \<Rightarrow> int \<Rightarrow> 's \<Rightarrow> error + Node list" where
  "collectContext q anchor depth s =
     bindR (qs_GetAncestors q (nID anchor) s) (\<lambda>ancestors.
     bindR (qs_GetDescendants q (nID anchor) depth s) (\<lambda>descendants.
     bindR (qs_GetSiblings q (nID anchor) s) (\<lambda>siblings.
       Inr (unseen {nID anchor} (ancestors @ descendants @ siblings)))))"

definition Fetch :: "'s QueryStore \<Rightarrow> string \<Rightarrow> int \<Rightarrow> int \<Rightarrow> int \<Rightarrow> 's \<Rightarrow> error + QResult" where
  "Fetch q anchor budget depth now s =
     bindR (qs_GetNode q anchor s) (\<lambda>node.
       let remaining = max (wrap64 (budget - nTokenCount node)) 0;
           d = (if 0 < depth then clampDepth depth else DefaultMaxDepth)
       in bindR (collectContext q node d s) (\<lambda>context.
            let filled = fillBudget (rankNodes context now) remaining;
                anchorScored = \<lparr>scNode = node, scScore = scoreNode node 1 now\<rparr>
            in Inr \<lparr>rNodes = rev (rNodes filled) @ [anchorScored],
                    rTokensUsed = wrap64 (rTokensUsed filled + nTokenCount node)\<rparr>))"

definition Search :: "'s QueryStore \<Rightarrow> string \<Rightarrow> int \<Rightarrow> int \<Rightarrow> 's \<Rightarrow> error + QResult" where
  "Search q query budget now s =
     bindR (qs_SearchRanked q query searchLimit s) (\<lambda>ranked.
       let filled = fillBudget (rankSearchResults ranked now) budget
       in Inr (filled\<lparr>rNodes := rev (rNodes filled)\<rparr>))"

definition engine_Delta :: "'s QueryStore \<Rightarrow> int \<Rightarrow> 's \<Rightarrow> error + DiffRecord list" where
  "engine_Delta q since s = qs_GetDiffsSince q since s"

section \<open>Facts about ranking\<close>

lemma sort_descending_mset [simp]: "mset (sort_descending xs) = mset xs"
  by (simp add: sort_descending_def)

lemma set_sort_descending [simp]: "set (sort_descending xs) = set xs"
  by (simp add: sort_descending_def)

definition falling :: "ScoredNode list \<Rightarrow> bool" where
  "falling xs \<longleftrightarrow> sorted_wrt (\<lambda>a b. scScore b \<le> scScore a) xs"

lemma falling_sort: "falling (sort_descending xs)"
proof -
  have "sorted (map (\<lambda>s. - scScore s) (sort_descending xs))" by (simp add: sort_descending_def)
  then show ?thesis by (simp add: falling_def sorted_map)
qed

lemma falling_subseq: "subseq xs ys \<Longrightarrow> falling ys \<Longrightarrow> falling xs"
proof (induction rule: list_emb.induct)
  case (list_emb_Cons2 x y xs ys)
  then have "set xs \<subseteq> set ys" by (auto dest: list_emb_set)
  with list_emb_Cons2 show ?case by (auto simp: falling_def)
qed (auto simp: falling_def)

lemma recencyBoost_range: "0 < recencyBoost n now \<and> recencyBoost n now \<le> 1"
  by (auto simp: recencyBoost_def Let_def recencyNormHours_def add_pos_nonneg field_simps split: option.splits)

section \<open>Facts about the budget\<close>

definition costs :: "ScoredNode list \<Rightarrow> int" where
  "costs xs = sum_list (map (\<lambda>s. nTokenCount (scNode s)) xs)"

text \<open>Token counts are not negative and their sum fits a machine integer.\<close>

definition moderate :: "ScoredNode list \<Rightarrow> bool" where
  "moderate xs \<longleftrightarrow> (\<forall>s \<in> set xs. 0 \<le> nTokenCount (scNode s)) \<and> costs xs < 2 ^ 63"

text \<open>The greedy choice, written as a specification.\<close>

fun greedy :: "int \<Rightarrow> ScoredNode list \<Rightarrow> ScoredNode list" where
  "greedy room [] = []"
| "greedy room (sn # xs) =
     (if nTokenCount (scNode sn) \<le> room then sn # greedy (room - nTokenCount (scNode sn)) xs
      else greedy room xs)"

lemma costs_simps [simp]: "costs [] = 0" "costs (x # xs) = nTokenCount (scNode x) + costs xs"
  "costs (xs @ ys) = costs xs + costs ys"
  by (simp_all add: costs_def)

lemma costs_nonneg: "(\<forall>s \<in> set xs. 0 \<le> nTokenCount (scNode s)) \<Longrightarrow> 0 \<le> costs xs"
  by (induction xs) auto

lemma fillBudget_loop_greedy:
  "\<forall>s \<in> set xs. 0 \<le> nTokenCount (scNode s) \<Longrightarrow> 0 \<le> used \<Longrightarrow> used + costs xs < 2 ^ 63 \<Longrightarrow>
    fillBudget_loop xs budget out used
      = \<lparr>rNodes = out @ greedy (budget - used) xs, rTokensUsed = used + costs (greedy (budget - used) xs)\<rparr>"
proof (induction xs arbitrary: out used)
  case (Cons x xs)
  let ?c = "nTokenCount (scNode x)"
  have c: "0 \<le> ?c" "0 \<le> costs xs" using Cons.prems(1) costs_nonneg [of xs] by auto
  have w: "wrap64 (used + ?c) = used + ?c" using Cons.prems(2,3) c by (intro wrap64_id) auto
  show ?case
  proof (cases "used + ?c > budget")
    case True
    with Cons.IH [of used out] Cons.prems c show ?thesis by (simp add: w Let_def)
  next
    case False
    have "fillBudget_loop xs budget (out @ [x]) (used + ?c)
      = \<lparr>rNodes = (out @ [x]) @ greedy (budget - (used + ?c)) xs, rTokensUsed = used + ?c + costs (greedy (budget - (used + ?c)) xs)\<rparr>"
      using Cons.prems c by (intro Cons.IH) auto
    with False show ?thesis by (simp add: w Let_def diff_diff_eq)
  qed
qed simp

lemma fillBudget_greedy:
  "moderate xs \<Longrightarrow> fillBudget xs budget = \<lparr>rNodes = greedy budget xs, rTokensUsed = costs (greedy budget xs)\<rparr>"
  using fillBudget_loop_greedy [of xs 0 budget "[]"] by (simp add: fillBudget_def moderate_def)

lemma greedy_subseq: "subseq (greedy room xs) xs"
  by (induction xs arbitrary: room) auto

lemma greedy_fits: "0 \<le> room \<Longrightarrow> costs (greedy room xs) \<le> room"
proof (induction xs arbitrary: room)
  case (Cons x xs)
  show ?case
  proof (cases "nTokenCount (scNode x) \<le> room")
    case True
    then have "costs (greedy (room - nTokenCount (scNode x)) xs) \<le> room - nTokenCount (scNode x)"
      by (intro Cons.IH) simp
    with True show ?thesis by simp
  qed (use Cons in simp)
qed simp

lemma greedy_fits_neg: "room < 0 \<Longrightarrow> \<forall>s \<in> set xs. 0 \<le> nTokenCount (scNode s) \<Longrightarrow> greedy room xs = []"
  by (induction xs) auto

lemma greedy_maximal:
  "x \<in> set xs \<Longrightarrow> x \<notin> set (greedy room xs) \<Longrightarrow> \<exists>ys zs. xs = ys @ x # zs \<and> room < costs (greedy room ys) + nTokenCount (scNode x)"
proof (induction xs arbitrary: room)
  case (Cons y xs)
  show ?case
  proof (cases "nTokenCount (scNode y) \<le> room")
    case True
    with Cons.prems have "x \<in> set xs" "x \<notin> set (greedy (room - nTokenCount (scNode y)) xs)" by auto
    from Cons.IH [OF this] obtain ys zs where ys: "xs = ys @ x # zs"
      "room - nTokenCount (scNode y) < costs (greedy (room - nTokenCount (scNode y)) ys) + nTokenCount (scNode x)" by blast
    have "room < costs (greedy room (y # ys)) + nTokenCount (scNode x)" using ys(2) True by simp
    with ys(1) show ?thesis by (intro exI [of _ "y # ys"] exI [of _ zs]) simp
  next
    case False
    show ?thesis
    proof (cases "x = y")
      case True
      with False show ?thesis by (intro exI [of _ "[]"] exI [of _ xs]) simp
    next
      case xy: False
      with False Cons.prems have "x \<in> set xs" "x \<notin> set (greedy room xs)" by auto
      from Cons.IH [OF this] obtain ys zs where ys: "xs = ys @ x # zs"
        "room < costs (greedy room ys) + nTokenCount (scNode x)" by blast
      with False show ?thesis by (intro exI [of _ "y # ys"] exI [of _ zs]) simp
    qed
  qed
qed simp

lemma fillBudget_spec:
  assumes "moderate scored"
  shows "subseq (rNodes (fillBudget scored budget)) scored
    \<and> rTokensUsed (fillBudget scored budget) = costs (rNodes (fillBudget scored budget))
    \<and> rTokensUsed (fillBudget scored budget) \<le> max 0 budget
    \<and> (\<forall>sn \<in> set scored - set (rNodes (fillBudget scored budget)).
         \<exists>before after. scored = before @ sn # after \<and> budget < costs (rNodes (fillBudget before budget)) + nTokenCount (scNode sn))"
proof -
  have pre: "moderate ys" if "scored = ys @ zs" for ys zs
    using assms that costs_nonneg [of zs] by (auto simp: moderate_def)
  have fit: "costs (greedy budget scored) \<le> max 0 budget"
    using greedy_fits [of budget scored] greedy_fits_neg [of budget scored] assms by (cases "0 \<le> budget") (auto simp: moderate_def)
  have "\<exists>before after. scored = before @ sn # after \<and> budget < costs (rNodes (fillBudget before budget)) + nTokenCount (scNode sn)"
    if sn: "sn \<in> set scored" "sn \<notin> set (greedy budget scored)" for sn
  proof -
    from greedy_maximal [OF sn] obtain ys zs where ys: "scored = ys @ sn # zs" "budget < costs (greedy budget ys) + nTokenCount (scNode sn)" by blast
    with fillBudget_greedy [OF pre [OF ys(1)]] show ?thesis by (intro exI [of _ ys] exI [of _ zs]) simp
  qed
  then show ?thesis using fit greedy_subseq by (simp add: fillBudget_greedy [OF assms])
qed

text \<open>C39: filling a budget is greedy and exact: the chosen nodes are a subsequence of the ranking, the
  reported tokens are their sum and stay within the budget, and every node left out would have exceeded
  the budget at the moment its turn came. Token counts are not negative and their sum fits 63 bits.\<close>

theorem fillBudget_exact:
  assumes "moderate scored"
  shows "subseq (rNodes (fillBudget scored budget)) scored
    \<and> rTokensUsed (fillBudget scored budget) = costs (rNodes (fillBudget scored budget))
    \<and> rTokensUsed (fillBudget scored budget) \<le> max 0 budget
    \<and> (\<forall>sn \<in> set scored - set (rNodes (fillBudget scored budget)).
         \<exists>before after. scored = before @ sn # after \<and> budget < costs (rNodes (fillBudget before budget)) + nTokenCount (scNode sn))"
  using fillBudget_spec [OF assms] .

theorem fillBudget_exact_witness:
  "rTokensUsed (fillBudget [\<lparr>scNode = scanNode ((sample_row ''a'' None)\<lparr>c_token_count := 4\<rparr>), scScore = 1\<rparr>] 3) \<le> 3"
  using fillBudget_exact [of "[\<lparr>scNode = scanNode ((sample_row ''a'' None)\<lparr>c_token_count := 4\<rparr>), scScore = 1\<rparr>]" 3]
  by (simp add: moderate_def scanNode_def)

section \<open>The context of a node\<close>

lemma distinct_subseq: "subseq xs ys \<Longrightarrow> distinct ys \<Longrightarrow> distinct xs"
proof (induction rule: list_emb.induct)
  case (list_emb_Cons2 x y xs ys)
  then show ?case by (auto dest: list_emb_set)
qed auto

lemma set_unseen: "set (map nID (unseen seen ns)) = set (map nID ns) - seen"
  by (induction ns arbitrary: seen) auto

lemma distinct_unseen: "distinct (map nID (unseen seen ns))"
proof (induction ns arbitrary: seen)
  case (Cons n ns)
  have "nID n \<notin> set (map nID (unseen (insert (nID n) seen) ns))" by (simp only: set_unseen) simp
  with Cons show ?case by simp
qed simp

lemma subset_unseen: "set (unseen seen ns) \<subseteq> set ns"
  by (induction ns arbitrary: seen) auto

text \<open>The contract of the store: the node asked for is the node returned, and token counts are not
  negative and small enough for their sum to be a machine integer (the bound is a parameter).\<close>

locale query_store =
  fixes q :: "'s QueryStore" and inv :: "'s \<Rightarrow> bool"
  assumes get_id: "inv s \<Longrightarrow> qs_GetNode q i s = Inr n \<Longrightarrow> nID n = i \<and> 0 \<le> nTokenCount n \<and> nTokenCount n < 2 ^ 31"
    and context_tokens: "inv s \<Longrightarrow> qs_GetAncestors q i s = Inr as \<Longrightarrow> qs_GetDescendants q i k s = Inr ds \<Longrightarrow> qs_GetSiblings q i s = Inr ss \<Longrightarrow>
      (\<forall>n \<in> set (as @ ds @ ss). 0 \<le> nTokenCount n \<and> nTokenCount n < 2 ^ 31) \<and> length (as @ ds @ ss) < 2 ^ 31"
begin

lemma costs_bound: "\<forall>s \<in> set xs. nTokenCount (scNode s) < 2 ^ 31 \<Longrightarrow> costs xs \<le> int (length xs) * 2 ^ 31"
  by (induction xs) (auto simp: algebra_simps)

lemma rank_moderate:
  assumes "\<forall>n \<in> set ns. 0 \<le> nTokenCount n \<and> nTokenCount n < 2 ^ 31" "length ns < 2 ^ 31"
  shows "moderate (rankNodes ns now)" "costs (rankNodes ns now) \<le> (2 ^ 31 - 1) * 2 ^ 31"
proof -
  have len: "length (rankNodes ns now) = length ns" by (simp add: rankNodes_def sort_descending_def)
  have b: "costs (rankNodes ns now) \<le> int (length ns) * 2 ^ 31"
    using costs_bound [of "rankNodes ns now"] assms(1) unfolding len by (auto simp: rankNodes_def)
  moreover have "int (length ns) * 2 ^ 31 \<le> (2 ^ 31 - 1) * 2 ^ 31" using assms(2) by simp
  ultimately show c: "costs (rankNodes ns now) \<le> (2 ^ 31 - 1) * 2 ^ 31" by linarith
  have "costs (rankNodes ns now) < 2 ^ 63" using c by simp
  then show "moderate (rankNodes ns now)" using assms(1) by (auto simp: moderate_def rankNodes_def)
qed

lemma subseq_elements: "subseq xs ys \<Longrightarrow> set xs \<subseteq> set ys"
  by (auto elim: list_emb_set)

lemma unseen_length: "length (unseen seen ns) \<le> length ns"
  by (induction ns arbitrary: seen) (auto simp: le_SucI)

lemma Fetch_result:
  assumes "inv s" "Fetch q anchor budget depth now s = Inr r" "- (2 ^ 62) \<le> budget" "budget < 2 ^ 63"
  shows "\<exists>before a. rNodes r = before @ [a] \<and> nID (scNode a) = anchor
    \<and> distinct (map (\<lambda>x. nID (scNode x)) (rNodes r))
    \<and> falling (rev before)
    \<and> rTokensUsed r = costs (rNodes r)
    \<and> rTokensUsed r \<le> max budget (nTokenCount (scNode a))"
proof -
  let ?d = "if 0 < depth then clampDepth depth else DefaultMaxDepth"
  from assms(2) obtain node where node: "qs_GetNode q anchor s = Inr node"
    by (auto simp: Fetch_def bindR_Inr_iff)
  let ?rem = "max (wrap64 (budget - nTokenCount node)) 0"
  from assms(2) node obtain ctxt where c: "collectContext q node ?d s = Inr ctxt"
    and r: "rNodes r = rev (rNodes (fillBudget (rankNodes ctxt now) ?rem)) @ [\<lparr>scNode = node, scScore = scoreNode node 1 now\<rparr>]"
      "rTokensUsed r = wrap64 (rTokensUsed (fillBudget (rankNodes ctxt now) ?rem) + nTokenCount node)"
    by (auto simp: Fetch_def bindR_Inr_iff Let_def)
  have nt: "nID node = anchor" "0 \<le> nTokenCount node" "nTokenCount node < 2 ^ 31" using get_id [OF assms(1) node] by auto
  from c obtain as ds ss where rd: "qs_GetAncestors q anchor s = Inr as" "qs_GetDescendants q anchor ?d s = Inr ds" "qs_GetSiblings q anchor s = Inr ss"
    and ctxt: "ctxt = unseen {anchor} (as @ ds @ ss)" using nt(1) by (auto simp: collectContext_def bindR_Inr_iff)
  note tok = context_tokens [OF assms(1) rd]
  have ct: "\<forall>n \<in> set ctxt. 0 \<le> nTokenCount n \<and> nTokenCount n < 2 ^ 31" using tok subset_unseen unfolding ctxt by blast
  have cl: "length ctxt < 2 ^ 31" using tok unseen_length unfolding ctxt by (meson le_less_trans)
  note mod = rank_moderate [OF ct cl, of now]
  let ?g = "greedy ?rem (rankNodes ctxt now)"
  note fill = fillBudget_greedy [OF mod(1), of ?rem]
  have "wrap64 (budget - nTokenCount node) = budget - nTokenCount node"
    using assms(3,4) nt by (intro wrap64_id) auto
  then have rem: "?rem = max (budget - nTokenCount node) 0" by simp
  have fits: "costs ?g \<le> ?rem" by (rule greedy_fits) simp
  have nonneg: "0 \<le> costs ?g"
    using greedy_subseq [of ?rem "rankNodes ctxt now"] mod(1)
    by (intro costs_nonneg) (auto simp: moderate_def dest: list_emb_set)
  have "wrap64 (costs ?g + nTokenCount node) = costs ?g + nTokenCount node"
    using fits nonneg nt assms(4) unfolding rem by (intro wrap64_id) auto
  then have used: "rTokensUsed r = costs ?g + nTokenCount node" using r(2) fill by simp
  have "subseq (map (\<lambda>x. nID (scNode x)) ?g) (map (\<lambda>x. nID (scNode x)) (rankNodes ctxt now))"
    by (rule subseq_map [OF greedy_subseq])
  moreover have "mset (map (\<lambda>x. nID (scNode x)) (rankNodes ctxt now)) = mset (map nID ctxt)"
    by (simp add: rankNodes_def multiset.map_comp comp_def)
  then have "distinct (map (\<lambda>x. nID (scNode x)) (rankNodes ctxt now))"
    using distinct_unseen [of "{anchor}" "as @ ds @ ss"] unfolding ctxt by (metis mset_eq_imp_distinct_iff)
  ultimately have dg: "distinct (map (\<lambda>x. nID (scNode x)) ?g)" by (metis distinct_subseq)
  have "set (map (\<lambda>x. nID (scNode x)) ?g) \<subseteq> set (map nID ctxt)"
    using subseq_elements [OF greedy_subseq, of ?rem "rankNodes ctxt now"] by (fastforce simp: rankNodes_def)
  then have na: "anchor \<notin> set (map (\<lambda>x. nID (scNode x)) ?g)"
    using set_unseen [of "{anchor}" "as @ ds @ ss"] unfolding ctxt by auto
  have "falling ?g" by (rule falling_subseq [OF greedy_subseq]) (simp add: rankNodes_def falling_sort)
  then have "falling (rev (rev ?g))" by simp
  moreover have "costs (rev ?g) = costs ?g" by (simp add: costs_def rev_map [symmetric])
  moreover have "rTokensUsed r \<le> max budget (nTokenCount node)" using used fits unfolding rem by linarith
  ultimately show ?thesis
    using r(1) fill nt(1) used dg na
    by (intro exI [of _ "rev ?g"] exI [of _ "\<lparr>scNode = node, scScore = scoreNode node 1 now\<rparr>"]) (auto simp: rev_map [symmetric])
qed

end

section \<open>The store's side of the interface\<close>

text \<open>The full-text index is SQLite's: what it returns for a query is the argument \<open>fts\<close>. An
  ancestors query that does not end is stopped by its context and reports that.\<close>

definition sql_query_store :: "(string \<Rightarrow> int \<Rightarrow> db \<Rightarrow> error + RankedNode list) \<Rightarrow> db QueryStore" where
  "sql_query_store fts =
     \<lparr>qs_GetNode = \<lambda>i d. GetNode d i,
      qs_GetAncestors = \<lambda>i d. (case GetAncestors d i of None \<Rightarrow> Inl (Driver ''interrupted'') | Some ns \<Rightarrow> Inr ns),
      qs_GetDescendants = \<lambda>i k d. Inr (GetDescendants d i k),
      qs_GetSiblings = \<lambda>i d. Inr (GetSiblings d i),
      qs_SearchRanked = fts,
      qs_GetDiffsSince = \<lambda>i d. Inr (GetDiffsSince d i)\<rparr>"

definition query_inv :: "db \<Rightarrow> bool" where
  "query_inv d \<longleftrightarrow> nodes_ok (t_nodes d) \<and> (\<exists>rank. ranked (t_nodes d) rank)
     \<and> (\<forall>r \<in> set (t_nodes d). 0 \<le> c_token_count r \<and> c_token_count r < 2 ^ 31)
     \<and> length (t_nodes d) < 2 ^ 29"

lemma nTokenCount_scan [simp]: "nTokenCount (scanNode r) = c_token_count r"
  by (simp add: scanNode_def)

lemma nID_scan [simp]: "nID (scanNode r) = c_id r"
  by (simp add: scanNode_def)

lemma ancestors_found:
  assumes "query_inv d" "GetAncestors d i = Some as"
  shows "\<exists>rs. as = map scanNode rs \<and> set rs \<subseteq> set (t_nodes d) \<and> length rs \<le> length (t_nodes d)"
proof -
  from assms(1) obtain rank where ok: "nodes_ok (t_nodes d)" "ranked (t_nodes d) rank" by (auto simp: query_inv_def)
  show ?thesis
  proof (cases "i \<in> set (ids (t_nodes d))")
    case True
    from ancestors_linked [OF ok True] assms(2) obtain rs where
      rs: "as = map scanNode rs" "set rs \<subseteq> set (t_nodes d)" "distinct (ids rs)" by (auto simp: GetAncestors_def)
    have "length rs = card (set (ids rs))" using distinct_card [OF rs(3)] unfolding ids_def by (simp only: length_map)
    also have "\<dots> \<le> card (set (ids (t_nodes d)))" using rs(2) by (intro card_mono) (auto simp: ids_def)
    also have "\<dots> \<le> length (t_nodes d)" using card_length [of "ids (t_nodes d)"] by (simp add: ids_def)
    finally show ?thesis using rs by blast
  next
    case False
    then have "ancestors (t_nodes d) i = Some []" by (subst ancestors.simps) (simp add: get_row_None [symmetric])
    with assms(2) show ?thesis by (auto simp: GetAncestors_def)
  qed
qed

interpretation sql_query: query_store "sql_query_store fts" query_inv for fts
proof
  fix s i n assume "query_inv s" "qs_GetNode (sql_query_store fts) i s = Inr n"
  then show "nID n = i \<and> 0 \<le> nTokenCount n \<and> nTokenCount n < 2 ^ 31"
    by (auto simp: sql_query_store_def GetNode_def query_inv_def split: option.splits dest: get_row_Some)
next
  fix s i k as ds ss
  assume inv: "query_inv s" and "qs_GetAncestors (sql_query_store fts) i s = Inr as"
    and d: "qs_GetDescendants (sql_query_store fts) i k s = Inr ds" "qs_GetSiblings (sql_query_store fts) i s = Inr ss"
  then have "GetAncestors s i = Some as" by (simp add: sql_query_store_def split: option.splits)
  from ancestors_found [OF inv this] obtain rs where rs: "as = map scanNode rs" "set rs \<subseteq> set (t_nodes s)" "length rs \<le> length (t_nodes s)" by blast
  from d have ds: "ds = GetDescendants s i k" "ss = GetSiblings s i" by (simp_all add: sql_query_store_def)
  have sel: "set (select_nodes P s) \<subseteq> scanNode ` set (t_nodes s)" "length (select_nodes P s) \<le> length (t_nodes s)" for P
    by (auto simp: select_nodes_def)
  have "set ds \<subseteq> scanNode ` set (t_nodes s)" "length ds \<le> length (t_nodes s)"
    using sel by (simp_all add: ds GetDescendants_def Let_def)
  moreover have "set ss \<subseteq> scanNode ` set (t_nodes s)" "length ss \<le> length (t_nodes s)"
    using sel unfolding ds GetSiblings_def by (auto split: option.splits dest: subsetD [OF sel(1)])
  moreover have "set as \<subseteq> scanNode ` set (t_nodes s)" using rs by auto
  ultimately have all: "set (as @ ds @ ss) \<subseteq> scanNode ` set (t_nodes s)" "length (as @ ds @ ss) \<le> 3 * length (t_nodes s)"
    using rs by auto
  have "3 * length (t_nodes s) < 2 ^ 31" using inv by (simp add: query_inv_def)
  with all inv show "(\<forall>n \<in> set (as @ ds @ ss). 0 \<le> nTokenCount n \<and> nTokenCount n < 2 ^ 31) \<and> length (as @ ds @ ss) < 2 ^ 31"
    by (auto simp: query_inv_def)
qed

text \<open>C17: fetching a node returns it in its context: the answer ends with the node itself, no node
  comes twice, the others come in order of rising score, the reported tokens are the sum over the answer,
  and they exceed the budget only where the node alone does. The database has unique identifiers,
  parents before children, and token counts and row count small enough for the sums.\<close>

theorem Fetch_in_context:
  assumes "query_inv d" "Fetch (sql_query_store fts) anchor budget depth now d = Inr r"
    and "- (2 ^ 62) \<le> budget" "budget < 2 ^ 63"
  shows "\<exists>before a. rNodes r = before @ [a] \<and> nID (scNode a) = anchor
    \<and> distinct (map (\<lambda>x. nID (scNode x)) (rNodes r))
    \<and> falling (rev before)
    \<and> rTokensUsed r = costs (rNodes r)
    \<and> rTokensUsed r \<le> max budget (nTokenCount (scNode a))"
  using sql_query.Fetch_result [OF assms] .

theorem Fetch_in_context_witness:
  "\<exists>r. Fetch (sql_query_store (\<lambda>q l d. Inr [])) ''a'' 100 0 0
      (empty_db\<lparr>t_nodes := [(sample_row ''a'' None)\<lparr>c_token_count := 7\<rparr>]\<rparr>) = Inr r \<and> rTokensUsed r = costs (rNodes r)"
proof -
  let ?d = "empty_db\<lparr>t_nodes := [(sample_row ''a'' None)\<lparr>c_token_count := 7\<rparr>]\<rparr>"
  have inv: "query_inv ?d" by (auto simp: query_inv_def nodes_ok_def fk_ok_def sample_row_def ranked_def)
  have "ancestors (t_nodes ?d) ''a'' = Some (t_nodes ?d)" by (subst ancestors.simps) (simp add: sample_row_def)
  then have "\<exists>r. Fetch (sql_query_store (\<lambda>q l d. Inr [])) ''a'' 100 0 0 ?d = Inr r"
    by (simp add: Fetch_def sql_query_store_def GetNode_def collectContext_def GetAncestors_def Let_def) (simp add: sample_row_def)
  then obtain r where r: "Fetch (sql_query_store (\<lambda>q l d. Inr [])) ''a'' 100 0 0 ?d = Inr r" ..
  from Fetch_in_context [OF inv r] have "rTokensUsed r = costs (rNodes r)" by auto
  with r show ?thesis by blast
qed

end
