(* ===== verification/Search.thy ===== *)
theory Search
  imports Query Paths
begin

text \<open>
  The package \<open>pkg/store\<close>, file \<open>search.go\<close>: rewriting a search query into the syntax of SQLite's
  full-text index. The index itself is SQLite's; what the rewriting promises is the text handed to it:
  ordinary words become barewords or quoted phrases joined by \<open>OR\<close>, and operators, groups, columns and
  phrases keep their meaning. Loops over an index are recursions on the rest of the string.
  \<open>needsFtsQuoting\<close> ranges over runes; every byte of a rune outside ASCII is itself not a bareword
  byte, so the model looks at bytes.
\<close>

section \<open>Characters\<close>

definition isSpace :: "char \<Rightarrow> bool" where
  "isSpace b = (b = SP \<or> b = TAB \<or> b = LF \<or> b = CR)"

definition bareword_char :: "char \<Rightarrow> bool" where
  "bareword_char c =
     (let n = of_char c :: nat
      in (97 \<le> n \<and> n \<le> 122) \<or> (65 \<le> n \<and> n \<le> 90) \<or> (48 \<le> n \<and> n \<le> 57) \<or> c = CHR ''_'')"

definition needsFtsQuoting :: "string \<Rightarrow> bool" where
  "needsFtsQuoting s = list_ex (\<lambda>c. \<not> bareword_char c) s"

definition quoteFTSToken :: "string \<Rightarrow> string" where
  "quoteFTSToken s = [DQ] @ ReplaceAll s [DQ] [DQ, DQ] @ [DQ]"

definition isFTSColumn :: "string \<Rightarrow> bool" where
  "isFTSColumn s = (s = ''label'' \<or> s = ''content'' \<or> s = ''node_type'')"

definition isFTSOperator :: "string \<Rightarrow> bool" where
  "isFTSOperator s = (s = ''OR'' \<or> s = ''AND'' \<or> s = ''NOT'')"

section \<open>Splitting a query\<close>

fun take_quoted :: "string \<Rightarrow> string \<times> string" where
  \<comment> \<open>up to and with the closing quote\<close>
  "take_quoted [] = ([], [])"
| "take_quoted (c # s) = (if c = DQ then ([c], s) else case take_quoted s of (t, r) \<Rightarrow> (c # t, r))"

fun take_plain :: "nat \<Rightarrow> string \<Rightarrow> string \<times> string" where
  \<comment> \<open>up to a space outside parentheses\<close>
  "take_plain depth [] = ([], [])"
| "take_plain depth (c # s) =
     (if c = CHR ''('' then (case take_plain (depth + 1) s of (t, r) \<Rightarrow> (c # t, r))
      else if c = CHR '')'' then (case take_plain (depth - 1) s of (t, r) \<Rightarrow> (c # t, r))
      else if depth = 0 \<and> isSpace c then ([], c # s)
      else (case take_plain depth s of (t, r) \<Rightarrow> (c # t, r)))"

definition take_token :: "string \<Rightarrow> string \<times> string" where
  "take_token s =
     (if hd s = DQ then (case take_quoted (tl s) of (t, r) \<Rightarrow> (DQ # t, r)) else take_plain 0 s)"

lemma take_quoted_append: "take_quoted s = (t, r) \<Longrightarrow> s = t @ r"
  by (induction s arbitrary: t r) (auto split: if_splits prod.splits)

lemma take_plain_append: "take_plain k s = (t, r) \<Longrightarrow> s = t @ r"
  by (induction k s arbitrary: t r rule: take_plain.induct) (auto split: if_splits prod.splits)

lemma take_token_append: "take_token s = (t, r) \<Longrightarrow> s \<noteq> [] \<Longrightarrow> s = t @ r"
  by (cases s) (auto simp: take_token_def dest: take_quoted_append take_plain_append split: if_splits prod.splits)

lemma take_token_nonempty: "take_token s = (t, r) \<Longrightarrow> s \<noteq> [] \<Longrightarrow> \<not> isSpace (hd s) \<Longrightarrow> t \<noteq> []"
  by (cases s) (auto simp: take_token_def split: if_splits prod.splits)

lemma dropWhile_space: "dropWhile isSpace q \<noteq> [] \<Longrightarrow> \<not> isSpace (hd (dropWhile isSpace q))"
  by (rule hd_dropWhile)

lemma splitFTSQuery_shrinks:
  assumes "s = dropWhile isSpace q" "s \<noteq> []" "take_token s = (t, r)"
  shows "length r < length q"
proof -
  have "s = t @ r" by (rule take_token_append [OF assms(3, 2)])
  moreover have "t \<noteq> []"
    using take_token_nonempty [OF assms(3, 2)] dropWhile_space [of q] assms(1, 2) by blast
  moreover have "length s \<le> length q" using assms(1) by (simp add: length_dropWhile_le)
  ultimately show ?thesis by (cases t) auto
qed

function splitFTSQuery :: "string \<Rightarrow> string list" where
  "splitFTSQuery q =
     (let s = dropWhile isSpace q
      in if s = [] then [] else case take_token s of (t, r) \<Rightarrow> t # splitFTSQuery r)"
  by pat_completeness auto

termination by (relation "measure length") (auto simp del: dropWhile_eq_Nil_conv dest: splitFTSQuery_shrinks [OF refl _ sym])

declare splitFTSQuery.simps [simp del]

lemma splitFTSQuery_token:
  assumes "t \<in> set (splitFTSQuery q)"
  shows "t \<noteq> [] \<and> length t \<le> length q \<and> \<not> isSpace (hd t)"
  using assms
proof (induction q rule: splitFTSQuery.induct)
  case (1 q)
  let ?s = "dropWhile isSpace q"
  show ?case
  proof (cases "?s = []")
    case True
    with 1(2) show ?thesis by (subst (asm) splitFTSQuery.simps) simp
  next
    case False
    obtain t' r where tr: "take_token ?s = (t', r)" by fastforce
    note app = take_token_append [OF tr False] take_token_nonempty [OF tr False dropWhile_space [OF False]]
    have "hd t' = hd ?s" using app by (metis hd_append2)
    moreover have "length t' \<le> length q" using app length_dropWhile_le [of isSpace q] by (metis length_append le_add1 le_trans)
    moreover have "t = t' \<or> t \<in> set (splitFTSQuery r)"
      using 1(2) False tr splitFTSQuery.simps [of q] by (simp only: Let_def if_False prod.case list.set(2) insert_iff)
    ultimately show ?thesis
      using 1(1) [OF refl False tr [symmetric]] app(2) dropWhile_space [OF False] splitFTSQuery_shrinks [OF refl False tr] by auto
  qed
qed

fun splitTopLevelComma_loop :: "string \<Rightarrow> nat \<Rightarrow> bool \<Rightarrow> (string \<times> string) option" where
  \<comment> \<open>around the first comma outside quotes and parentheses\<close>
  "splitTopLevelComma_loop [] depth inQuote = None"
| "splitTopLevelComma_loop (c # s) depth inQuote =
     (if c = CHR '','' \<and> \<not> inQuote \<and> depth = 0 then Some ([], s)
      else map_option (map_prod (Cons c) id)
             (splitTopLevelComma_loop s
                (if c = CHR ''('' \<and> \<not> inQuote then depth + 1
                 else if c = CHR '')'' \<and> \<not> inQuote then depth - 1 else depth)
                (if c = DQ then \<not> inQuote else inQuote)))"

definition splitTopLevelComma :: "string \<Rightarrow> string \<times> string \<times> bool" where
  "splitTopLevelComma s =
     (case splitTopLevelComma_loop s 0 False of
        Some (before, after) \<Rightarrow> (TrimSpace before, TrimSpace after, True)
      | None \<Rightarrow> (TrimSpace s, [], False))"

lemma splitTopLevelComma_loop_append:
  "splitTopLevelComma_loop s k q = Some (a, b) \<Longrightarrow> s = a @ CHR '','' # b"
  by (induction s k q arbitrary: a b rule: splitTopLevelComma_loop.induct) (auto split: if_splits)

lemma splitTopLevelComma_length: "splitTopLevelComma s = (a, b, ok) \<Longrightarrow> length a \<le> length s"
proof (cases "splitTopLevelComma_loop s 0 False")
  case None
  moreover assume "splitTopLevelComma s = (a, b, ok)"
  ultimately show ?thesis using length_TrimSpace [of s] by (simp add: splitTopLevelComma_def)
next
  case (Some ab)
  obtain x y where ab: "ab = (x, y)" by fastforce
  assume "splitTopLevelComma s = (a, b, ok)"
  with Some ab have "a = TrimSpace x" by (simp add: splitTopLevelComma_def)
  moreover have "length x \<le> length s"
    using splitTopLevelComma_loop_append [OF Some [unfolded ab]] by simp
  ultimately show ?thesis using length_TrimSpace [of x] by simp
qed

section \<open>Rewriting\<close>

definition inside :: "nat \<Rightarrow> string \<Rightarrow> string" where
  \<comment> \<open>the slice from \<open>k\<close> up to the last byte\<close>
  "inside k s = TrimSpace (take (length s - 1 - k) (drop k s))"

lemma length_inside: "inside k s \<noteq> [] \<Longrightarrow> length (inside k s) < length s"
proof -
  assume a: "inside k s \<noteq> []"
  have "length (inside k s) \<le> length s - 1 - k" using length_TrimSpace [of "take (length s - 1 - k) (drop k s)"] by (simp add: inside_def)
  moreover have "0 < length (inside k s)" using a by simp
  ultimately show ?thesis by linarith
qed

lemma near_shrinks:
  assumes "inside k s \<noteq> []" "(terms, distance, has) = splitTopLevelComma (inside k s)"
  shows "length terms < length s"
  using splitTopLevelComma_length [OF assms(2) [symmetric]] length_inside [OF assms(1)] by (rule le_less_trans)

function rewriteFTSToken :: "string \<Rightarrow> string"
and rewriteNearExpression :: "string \<Rightarrow> string"
and rewriteParenthesizedExpression :: "string \<Rightarrow> string"
and rewriteColumnExpression :: "string \<Rightarrow> string option"
and rewriteFTSExpressionTerms :: "string \<Rightarrow> string" where
  "rewriteFTSToken s =
     (if HasPrefix s [DQ] then s
      else if HasPrefix s ''NEAR('' \<and> HasSuffix s '')'' then rewriteNearExpression s
      else if HasPrefix s ''('' \<and> HasSuffix s '')'' then rewriteParenthesizedExpression s
      else case rewriteColumnExpression s of
             Some rewritten \<Rightarrow> rewritten
           | None \<Rightarrow>
               if HasSuffix s ''*'' \<and> 1 < length s then
                 (let stem = TrimSuffix s ''*''
                  in if needsFtsQuoting stem then quoteFTSToken stem @ ''*'' else s)
               else if needsFtsQuoting s then quoteFTSToken s
               else s)"
| "rewriteNearExpression s =
     (let inner = inside 5 s
      in if inner = [] then s
         else case splitTopLevelComma inner of
                (terms, distance, hasDistance) \<Rightarrow>
                  ''NEAR('' @ rewriteFTSExpressionTerms terms
                    @ (if hasDistance then '', '' @ distance else []) @ '')'')"
| "rewriteParenthesizedExpression s =
     (let inner = inside 1 s
      in if inner = [] then s else ''('' @ rewriteFTSExpressionTerms inner @ '')'')"
| "rewriteColumnExpression s =
     (case IndexByte s (CHR '':'') of
        None \<Rightarrow> None
      | Some idx \<Rightarrow>
          if idx = 0 \<or> idx = length s - 1 then None
          else if \<not> isFTSColumn (take idx s) then None
          else Some (take idx s @ '':'' @ rewriteFTSToken (drop (idx + 1) s)))"
| "rewriteFTSExpressionTerms s =
     Join (map (\<lambda>token. if isFTSOperator token then token else rewriteFTSToken token) (splitFTSQuery s)) '' ''"
  by pat_completeness auto

termination
proof (relation "measure (\<lambda>x. case x of Inl (Inl s) \<Rightarrow> 4 * length s + 2
      | Inl (Inr s) \<Rightarrow> 4 * length s + 1
      | Inr (Inl s) \<Rightarrow> 4 * length s + 1
      | Inr (Inr (Inl s)) \<Rightarrow> 4 * length s + 1
      | Inr (Inr (Inr s)) \<Rightarrow> 4 * length s + 3)", goal_cases)
  case 1 then show ?case by force
next case 2 then show ?case by force
next case 3 then show ?case by force
next case 4 then show ?case by force
next case (5 s inner x y)
  then show ?case by (clarsimp) (drule (1) near_shrinks, arith)
next case 6 then show ?case by (clarsimp) (drule length_inside, arith)
next case 7 then show ?case by (clarsimp) (drule IndexByte_SomeD, arith)
next case 8 then show ?case by (clarsimp) (drule splitFTSQuery_token, arith)
qed

declare rewriteFTSToken.simps [simp del] rewriteNearExpression.simps [simp del]
  rewriteParenthesizedExpression.simps [simp del] rewriteColumnExpression.simps [simp del]
  rewriteFTSExpressionTerms.simps [simp del]

fun rewriteQuery_loop :: "string list \<Rightarrow> bool \<Rightarrow> bool \<Rightarrow> string list" where
  "rewriteQuery_loop [] isFirst prevWasOperator = []"
| "rewriteQuery_loop (token # tokens) isFirst prevWasOperator =
     (let isOperator = isFTSOperator token
      in (if \<not> isFirst \<and> \<not> prevWasOperator \<and> \<not> isOperator then [''OR''] else [])
         @ [rewriteFTSToken token] @ rewriteQuery_loop tokens False isOperator)"

definition rewriteQuery :: "string \<Rightarrow> string" where
  "rewriteQuery q =
     (let q = TrimSpace q
      in if q = [] then q
         else let tokens = splitFTSQuery q
              in if length tokens = 0 then q else Join (rewriteQuery_loop tokens True False) '' '')"

lemma rewriteQuery_samples:
  "rewriteQuery ''LR-2026 budget'' = [DQ] @ ''LR-2026'' @ [DQ] @ '' OR budget''"
  "rewriteQuery ''foo AND label:bar*'' = ''foo AND label:bar*''"
  "rewriteQuery ''NEAR(a b, 5) (x OR y-z)'' = ''NEAR(a b, 5) OR (x OR '' @ [DQ] @ ''y-z'' @ [DQ] @ '')''"
  by code_simp+

section \<open>Nothing of a query is lost\<close>

lemma filter_dropWhile: "filter (\<lambda>c. \<not> P c) (dropWhile P s) = filter (\<lambda>c. \<not> P c) s"
  by (induction s) auto

text \<open>Splitting a query only drops spaces between tokens: the tokens hold every other byte, in
  order, and no token is empty or starts with a space.\<close>

theorem splitFTSQuery_complete:
  "filter (\<lambda>c. \<not> isSpace c) (concat (splitFTSQuery q)) = filter (\<lambda>c. \<not> isSpace c) q
   \<and> list_all (\<lambda>t. t \<noteq> [] \<and> \<not> isSpace (hd t)) (splitFTSQuery q)"
proof
  show "filter (\<lambda>c. \<not> isSpace c) (concat (splitFTSQuery q)) = filter (\<lambda>c. \<not> isSpace c) q"
  proof (induction q rule: splitFTSQuery.induct)
    case (1 q)
    let ?s = "dropWhile isSpace q"
    have drop: "filter (\<lambda>c. \<not> isSpace c) ?s = filter (\<lambda>c. \<not> isSpace c) q" by (rule filter_dropWhile)
    show ?case
    proof (cases "?s = []")
      case True
      then have "splitFTSQuery q = []" by (subst splitFTSQuery.simps) (simp only: Let_def simp_thms if_True)
      with drop True show ?thesis by simp
    next
      case False
      obtain t r where tr: "take_token ?s = (t, r)" by fastforce
      then have "splitFTSQuery q = t # splitFTSQuery r"
        using False by (subst splitFTSQuery.simps) (simp only: Let_def if_False prod.case)
      moreover have "?s = t @ r" by (rule take_token_append [OF tr False])
      ultimately show ?thesis
        using 1 [OF refl False tr [symmetric]] drop by (metis concat.simps(2) filter_append)
    qed
  qed
  show "list_all (\<lambda>t. t \<noteq> [] \<and> \<not> isSpace (hd t)) (splitFTSQuery q)"
    using splitFTSQuery_token by (auto simp: list_all_iff)
qed

section \<open>Queries of ordinary words\<close>

definition plain_char :: "char \<Rightarrow> bool" where
  "plain_char c \<longleftrightarrow> 33 \<le> (of_char c :: nat) \<and> (of_char c :: nat) \<le> 126
     \<and> c \<noteq> DQ \<and> c \<noteq> CHR ''('' \<and> c \<noteq> CHR '')'' \<and> c \<noteq> CHR '':'' \<and> c \<noteq> CHR ''*''"

definition plain_word :: "string \<Rightarrow> bool" where
  "plain_word w \<longleftrightarrow> w \<noteq> [] \<and> \<not> isFTSOperator w \<and> list_all plain_char w"

lemma plain_not_space: "plain_char c \<Longrightarrow> \<not> isSpace c \<and> \<not> ascii_space c"
proof -
  assume "plain_char c"
  then have "\<not> (of_char c :: nat) < 33" by (simp only: plain_char_def not_less)
  moreover have "isSpace c \<Longrightarrow> (of_char c :: nat) < 33" by (auto simp: isSpace_def char_defs)
  moreover have "ascii_space c \<Longrightarrow> (of_char c :: nat) < 33" by (auto simp: ascii_space_def)
  ultimately show ?thesis by blast
qed

lemma high_char: "128 \<le> (of_char c :: nat) \<Longrightarrow> \<not> plain_char c"
proof
  assume "128 \<le> (of_char c :: nat)" "plain_char c"
  then have "128 \<le> (126 :: nat)" unfolding plain_char_def by (blast intro: order_trans)
  then show False by simp
qed

lemma space_high:
  "space2 a b \<Longrightarrow> 128 \<le> (of_char a :: nat) \<and> 128 \<le> (of_char b :: nat)"
  "space3 a b c \<Longrightarrow> 128 \<le> (of_char a :: nat) \<and> 128 \<le> (of_char c :: nat)"
  by (auto simp: space2_def space3_def less_eq_char_def)

lemma space2_high: "space2 a b \<Longrightarrow> \<not> plain_char a \<and> \<not> plain_char b"
  using space_high(1) high_char by blast

lemma space3_high: "space3 a b c \<Longrightarrow> \<not> plain_char a \<and> \<not> plain_char c"
  using space_high(2) high_char by blast

lemma trim_left_plain: "s \<noteq> [] \<Longrightarrow> plain_char (hd s) \<Longrightarrow> trim_left s = s"
  by (cases s rule: trim_left.cases) (use plain_not_space space2_high space3_high in force)+

lemma trim_right_plain: "s \<noteq> [] \<Longrightarrow> plain_char (hd s) \<Longrightarrow> trim_right_rev s = s"
  by (cases s rule: trim_right_rev.cases) (use plain_not_space space2_high space3_high in force)+

lemma TrimSpace_plain: "s \<noteq> [] \<Longrightarrow> plain_char (hd s) \<Longrightarrow> plain_char (last s) \<Longrightarrow> TrimSpace s = s"
  using trim_right_plain [of "rev s"] by (simp add: TrimSpace_def trim_left_plain hd_rev)

lemma take_plain_word: "list_all plain_char w \<Longrightarrow> r = [] \<or> isSpace (hd r) \<Longrightarrow> take_plain 0 (w @ r) = (w, r)"
proof (induction w)
  case Nil
  have "isSpace c \<Longrightarrow> c \<noteq> CHR ''('' \<and> c \<noteq> CHR '')''" for c by (auto simp: isSpace_def char_defs)
  with Nil show ?case by (cases r) auto
next
  case (Cons c w)
  then show ?case using plain_not_space [of c] by (simp add: plain_char_def)
qed

lemma take_token_word:
  assumes "plain_word w" "r = [] \<or> isSpace (hd r)"
  shows "take_token (w @ r) = (w, r)"
proof -
  from assms(1) have "hd (w @ r) \<noteq> DQ" by (cases w) (auto simp: plain_word_def plain_char_def)
  with assms take_plain_word [of w r] show ?thesis by (simp add: take_token_def plain_word_def)
qed

lemma splitFTSQuery_space: "splitFTSQuery (SP # s) = splitFTSQuery s"
  by (subst (1 2) splitFTSQuery.simps) (simp add: isSpace_def)

lemma splitFTSQuery_Nil [simp]: "splitFTSQuery [] = []"
  by (subst splitFTSQuery.simps) simp

lemma splitFTSQuery_word:
  assumes "plain_word w" "r = [] \<or> isSpace (hd r)"
  shows "splitFTSQuery (w @ r) = w # splitFTSQuery r"
proof -
  from assms(1) have "w \<noteq> []" "\<not> isSpace (hd w)" using plain_not_space [of "hd w"] by (cases w; auto simp: plain_word_def)+
  then have "dropWhile isSpace (w @ r) = w @ r" "w @ r \<noteq> []" by (cases w; simp)+
  then show ?thesis
    using take_token_word [OF assms] by (subst splitFTSQuery.simps) (simp only: Let_def if_False prod.case)
qed

lemma splitFTSQuery_words: "list_all plain_word ws \<Longrightarrow> splitFTSQuery (Join ws [SP]) = ws"
proof (induction ws)
  case (Cons w ws)
  show ?case
  proof (cases "ws = []")
    case True
    with Cons splitFTSQuery_word [of w "[]"] show ?thesis by simp
  next
    case False
    have "splitFTSQuery (w @ SP # Join ws [SP]) = w # splitFTSQuery (SP # Join ws [SP])"
      using Cons.prems by (intro splitFTSQuery_word) (auto simp: isSpace_def)
    with Cons False show ?thesis by (simp add: Join_Cons splitFTSQuery_space)
  qed
qed simp

definition word_term :: "string \<Rightarrow> string" where
  "word_term w = (if needsFtsQuoting w then quoteFTSToken w else w)"

lemma rewriteFTSToken_word:
  assumes "plain_word w"
  shows "rewriteFTSToken w = word_term w"
proof -
  have no: "c \<notin> set w" if "\<not> plain_char c" for c
    using assms that by (auto simp: plain_word_def list_all_iff)
  have p: "\<not> plain_char DQ" "\<not> plain_char (CHR ''('')" "\<not> plain_char (CHR '':'')" "\<not> plain_char (CHR ''*'')"
    by (simp_all add: plain_char_def)
  have "w \<noteq> []" using assms by (simp add: plain_word_def)
  have "\<not> HasPrefix w [DQ]" "\<not> HasPrefix w ''(''" "\<not> HasSuffix w ''*''"
    using no [OF p(1)] no [OF p(2)] no [OF p(4)] \<open>w \<noteq> []\<close> by (auto dest: hd_in_set last_in_set)
  moreover have "\<not> HasPrefix w ''NEAR(''" using no [OF p(2)] by (auto simp: HasPrefix_iff)
  moreover have "rewriteColumnExpression w = None"
    using no [OF p(3)] by (subst rewriteColumnExpression.simps) (simp add: IndexByte_None_iff [symmetric])
  ultimately show ?thesis
    by (subst rewriteFTSToken.simps) (simp add: word_term_def del: HasPrefix_single HasSuffix_single)
qed

lemma rewriteQuery_loop_words:
  "list_all plain_word ws \<Longrightarrow> ws \<noteq> [] \<Longrightarrow>
    Join (rewriteQuery_loop ws first False) '' '' = (if first then [] else ''OR '') @ Join (map word_term ws) '' OR ''"
proof (induction ws arbitrary: first)
  case (Cons w ws)
  have w: "\<not> isFTSOperator w" "rewriteFTSToken w = word_term w"
    using Cons.prems by (simp_all add: plain_word_def rewriteFTSToken_word)
  show ?case
  proof (cases "ws = []")
    case False
    then have "rewriteQuery_loop ws False False \<noteq> []" by (cases ws) (simp_all add: Let_def)
    with Cons False w show ?thesis by (simp add: Let_def Join_Cons)
  qed (use w in simp)
qed simp

section \<open>Phrases read back\<close>

fun read_phrase_body :: "string \<Rightarrow> (string \<times> string) option" where
  \<comment> \<open>a string of the index's query language after its opening quote: a doubled quote stands for one\<close>
  "read_phrase_body [] = None"
| "read_phrase_body (c # s) =
     (if c \<noteq> DQ then map_option (map_prod (Cons c) id) (read_phrase_body s)
      else case s of
             [] \<Rightarrow> Some ([], [])
           | c' # s' \<Rightarrow> if c' = DQ then map_option (map_prod (Cons DQ) id) (read_phrase_body s') else Some ([], s))"

definition read_phrase :: "string \<Rightarrow> (string \<times> string) option" where
  "read_phrase s = (case s of [] \<Rightarrow> None | c # t \<Rightarrow> if c = DQ then read_phrase_body t else None)"

lemma ReplaceAll_char:
  "ReplaceAll (c # s) [a] new = (if c = a then new else [c]) @ ReplaceAll s [a] new"
  using ReplaceAll_prefix [of "a # s" "[a]" new] by (cases "c = a") (simp_all add: ReplaceAll_skip)

lemma read_phrase_body_quoted:
  "rest = [] \<or> hd rest \<noteq> DQ \<Longrightarrow> read_phrase_body (ReplaceAll s [DQ] [DQ, DQ] @ DQ # rest) = Some (s, rest)"
  by (induction s) (auto simp: ReplaceAll_char split: list.splits)

lemma read_phrase_quoted:
  "rest = [] \<or> hd rest \<noteq> DQ \<Longrightarrow> read_phrase (quoteFTSToken s @ rest) = Some (s, rest)"
  by (simp add: quoteFTSToken_def read_phrase_def read_phrase_body_quoted)

text \<open>A query of ordinary words is the disjunction of the words: each operand is the word itself
  where all its bytes may stand in a bareword, and otherwise a quoted phrase the index reads back as
  the word. Ordinary words are of visible ASCII characters without quotes, parentheses, colons and
  stars, and are not one of the three operators.\<close>

theorem rewriteQuery_words:
  assumes "list_all plain_word ws" "ws \<noteq> []"
  shows "rewriteQuery (Join ws [SP]) = Join (map word_term ws) '' OR ''
    \<and> list_all (\<lambda>w. (word_term w = w \<and> list_all bareword_char w) \<or> read_phrase (word_term w) = Some (w, [])) ws"
proof
  from assms obtain w vs where ws: "ws = w # vs" by (cases ws) auto
  let ?q = "Join ws [SP]"
  have w: "w \<noteq> []" "plain_char (hd w)" using assms(1) ws by (cases w; simp add: plain_word_def)+
  have "plain_word (last ws)" using assms by (metis last_in_set list_all_iff)
  then have "last ws \<noteq> []" "plain_char (last (last ws))"
    unfolding plain_word_def by (simp, metis last_in_set list_all_iff)
  then have "plain_char (last ?q)" using assms(2) by (simp add: last_Join)
  moreover have "?q \<noteq> []" "hd ?q = hd w" using w(1) ws by (cases vs; simp)+
  ultimately have "TrimSpace ?q = ?q" using w(2) by (intro TrimSpace_plain) auto
  then show "rewriteQuery ?q = Join (map word_term ws) '' OR ''"
    using assms \<open>?q \<noteq> []\<close> by (simp add: rewriteQuery_def Let_def splitFTSQuery_words rewriteQuery_loop_words)
  have "(word_term v = v \<and> list_all bareword_char v) \<or> read_phrase (word_term v) = Some (v, [])" for v
    using read_phrase_quoted [of "[]" v] by (auto simp: word_term_def needsFtsQuoting_def list_all_iff list_ex_iff)
  then show "list_all (\<lambda>w. (word_term w = w \<and> list_all bareword_char w) \<or> read_phrase (word_term w) = Some (w, [])) ws"
    by (simp add: list_all_iff)
qed

theorem rewriteQuery_words_witness:
  "rewriteQuery ''LR-2026 budget'' = [DQ] @ ''LR-2026'' @ [DQ] @ '' OR budget''"
proof -
  have "list_all plain_word [''LR-2026'', ''budget'']" by code_simp
  from rewriteQuery_words [OF this] have "rewriteQuery (Join [''LR-2026'', ''budget''] [SP])
      = Join (map word_term [''LR-2026'', ''budget'']) '' OR ''" by blast
  moreover have "Join [''LR-2026'', ''budget''] [SP] = ''LR-2026 budget''"
    "Join (map word_term [''LR-2026'', ''budget'']) '' OR '' = [DQ] @ ''LR-2026'' @ [DQ] @ '' OR budget''" by code_simp+
  ultimately show ?thesis by simp
qed

section \<open>Searching\<close>

text \<open>\<open>fts\<close> is the index: the identifiers of the matching rows with their rank, in rank order.
  The plain search loses that order, its outer statement selects from the table.\<close>

definition at_most :: "int \<Rightarrow> 'a list \<Rightarrow> 'a list" where
  \<comment> \<open>a negative \<open>LIMIT\<close> is none\<close>
  "at_most limit xs = (if limit < 0 then xs else take (nat limit) xs)"

definition store_Search :: "(string \<Rightarrow> db \<Rightarrow> error + (string \<times> real) list) \<Rightarrow> string \<Rightarrow> int \<Rightarrow> db \<Rightarrow> error + Node list" where
  "store_Search fts query limit d =
     bindR (fts (rewriteQuery query) d) (\<lambda>found.
       Inr (select_nodes (\<lambda>r. c_id r \<in> fst ` set (at_most limit found)) d))"

definition SearchRanked :: "(string \<Rightarrow> db \<Rightarrow> error + (string \<times> real) list) \<Rightarrow> string \<Rightarrow> int \<Rightarrow> db \<Rightarrow> error + RankedNode list" where
  "SearchRanked fts query limit d =
     bindR (fts (rewriteQuery query) d) (\<lambda>found.
       Inr (at_most limit (List.map_filter
         (\<lambda>(i, rank). map_option (\<lambda>r. \<lparr>rkNode = scanNode r, rkRank = rank\<rparr>) (get_row (t_nodes d) i)) found)))"

end
