(* ===== verification/Tools.thy ===== *)
theory Tools
  imports CompileDir Search
begin

text \<open>
  The package \<open>pkg/mcp/tools\<close>, the handlers of the MCP tools, and \<open>pkg/query/format.go\<close>, the texts
  they return. A handler takes its input and the state and returns the text or the error with the new
  state; the protocol library around it and the call log are left out. \<open>OpMu\<close> makes the writing
  handlers run one after the other, which a function on the state expresses. A failed read and a
  missing node are the same to \<open>HandleWrite\<close>, as in the code.
\<close>

section \<open>Text\<close>

definition round_half_even :: "real \<Rightarrow> int" where
  "round_half_even x =
     (let f = \<lfloor>x\<rfloor>; r = x - of_int f
      in if r < 1 / 2 then f else if r > 1 / 2 then f + 1 else if even f then f else f + 1)"

definition fmt_2f :: "real \<Rightarrow> string" where
  \<comment> \<open>\<open>%.2f\<close>\<close>
  "fmt_2f x =
     (let n = nat (round_half_even (\<bar>x\<bar> * 100))
      in (if x < 0 then ''-'' else []) @ itoa_nat (n div 100) @ ''.''
         @ (if n mod 100 < 10 then ''0'' else []) @ itoa_nat (n mod 100))"

fun Format_loop :: "bool \<Rightarrow> ScoredNode list \<Rightarrow> string" where
  "Format_loop isFirst [] = []"
| "Format_loop isFirst (sn # nodes) =
     (let n = scNode sn
      in (if isFirst then [] else [LF] @ ''---'' @ [LF, LF])
         @ ''['' @ nNodeType n @ ''] (score='' @ fmt_2f (scScore sn) @ '')'' @ [LF]
         @ nContent n @ [LF] @ Format_loop False nodes)"

definition query_Format :: "QResult \<Rightarrow> string" where
  "query_Format result = Format_loop True (rNodes result)"

definition FormatCompact :: "QResult \<Rightarrow> string" where
  "FormatCompact result =
     (if length (rNodes result) = 0 then ''no results''
      else concat (map (\<lambda>sn.
             let n = scNode sn
             in ''['' @ nNodeType n @ ''] '' @ nLabel n @ '' (id='' @ nID n @ '' file='' @ nSourceFile n
                @ '' score='' @ fmt_2f (scScore sn) @ '' temp='' @ fmt_2f (nTemperature n)
                @ '' tok='' @ Itoa (nTokenCount n) @ '')'' @ [LF]) (rNodes result)))"

lemma range_width_ge1: "1 \<le> range_width s"
  by (auto simp: range_width_def dest: rune_len_shape split: option.splits)

function firstLine_loop :: "string \<Rightarrow> nat \<Rightarrow> nat \<Rightarrow> string" where
  \<comment> \<open>from the rune that starts at byte \<open>i\<close>\<close>
  "firstLine_loop s maxLen i =
     (if length s \<le> i then (if maxLen < length s then take maxLen s else s)
      else if s ! i = LF then take i s
      else if maxLen \<le> i then take maxLen s
      else firstLine_loop s maxLen (i + range_width (drop i s)))"
  by pat_completeness auto

termination
proof (relation "measure (\<lambda>(s, maxLen, i). length s - i)", simp, goal_cases)
  case (1 s maxLen i)
  then show ?case using range_width_ge1 [of "drop i s"] by simp
qed

declare firstLine_loop.simps [simp del]

definition firstLine :: "string \<Rightarrow> nat \<Rightarrow> string" where
  "firstLine s maxLen = firstLine_loop s maxLen 0"

definition tools_truncate :: "string \<Rightarrow> nat \<Rightarrow> string" where
  "tools_truncate s maxLen =
     (if length s \<le> maxLen then s else take (back_to_rune s maxLen) s @ ''...'')"

section \<open>Reading handlers\<close>

definition boostResultNodes :: "'s NodeStore \<Rightarrow> Tracker option \<Rightarrow> QResult \<Rightarrow> 's \<Rightarrow> 's" where
  \<comment> \<open>an error is only logged\<close>
  "boostResultNodes ns tracker result s =
     (case tracker of
        None \<Rightarrow> s
      | Some t \<Rightarrow>
          if length (rNodes result) = 0 then s
          else (case RecordAccess ns t (map (\<lambda>sn. nID (scNode sn)) (rNodes result)) s of
                  Inl e \<Rightarrow> s
                | Inr s' \<Rightarrow> s'))"

definition HandleFetch :: "'s QueryStore \<Rightarrow> 's NodeStore \<Rightarrow> Tracker option \<Rightarrow> string \<Rightarrow> int \<Rightarrow> int \<Rightarrow> int \<Rightarrow> 's
    \<Rightarrow> (error + string) \<times> 's" where
  "HandleFetch q ns tracker anchor budget depth now s =
     (case Fetch q anchor budget depth now s of
        Inl e \<Rightarrow> (Inl (Errorf ''failed to fetch'' e), s)
      | Inr result \<Rightarrow> (Inr (query_Format result), boostResultNodes ns tracker result s))"

definition HandleSearch :: "'s QueryStore \<Rightarrow> 's NodeStore \<Rightarrow> Tracker option \<Rightarrow> string \<Rightarrow> int \<Rightarrow> int \<Rightarrow> 's
    \<Rightarrow> (error + string) \<times> 's" where
  "HandleSearch q ns tracker query budget now s =
     (case Query.Search q query budget now s of
        Inl e \<Rightarrow> (Inl (Errorf ''failed to search'' e), s)
      | Inr result \<Rightarrow> (Inr (FormatCompact result), boostResultNodes ns tracker result s))"

definition HandleDelta :: "'s QueryStore \<Rightarrow> int \<Rightarrow> 's \<Rightarrow> error + string" where
  "HandleDelta q since s =
     (case engine_Delta q since s of
        Inl e \<Rightarrow> Inl (Errorf ''failed to get delta'' e)
      | Inr drs \<Rightarrow>
          if length drs = 0 then Inr ''no changes''
          else Inr (concat (map (\<lambda>dr. ''['' @ drOp dr @ ''] '' @ drNodeID dr
                 @ '' (snapshot '' @ Itoa (SnapshotID dr) @ '')'' @ [LF]) drs)))"

definition history_entry :: "DiffRecord \<Rightarrow> string" where
  "history_entry dr =
     ''snapshot '' @ Itoa (SnapshotID dr) @ '': '' @ drOp dr @ [LF]
     @ (if drOldContent dr \<noteq> [] then ''  old: '' @ tools_truncate (drOldContent dr) 100 @ [LF] else [])
     @ (if drNewContent dr \<noteq> [] then ''  new: '' @ tools_truncate (drNewContent dr) 100 @ [LF] else [])"

definition HandleHistory :: "string \<Rightarrow> int \<Rightarrow> db \<Rightarrow> string" where
  "HandleHistory anchor depth d =
     (let drs = GetDiffsForNode d anchor;
          limit = (if depth \<le> 0 then 10 else depth);
          limit = (if int (length drs) < limit then int (length drs) else limit)
      in if length drs = 0 then ''no history for '' @ anchor
         else concat (map history_entry (take (nat limit) drs)))"

definition relSourcePath :: "string \<Rightarrow> string \<Rightarrow> string" where
  "relSourcePath source croot =
     (if croot = [] \<or> \<not> IsAbs source then source
      else case filepath_Rel croot source of
             Inl e \<Rightarrow> source
           | Inr rel \<Rightarrow> if HasPrefix rel ''..'' then source else rel)"

function writeTreeNode :: "(string \<Rightarrow> Node list) \<Rightarrow> Node \<Rightarrow> string \<Rightarrow> string \<Rightarrow> nat \<Rightarrow> nat \<Rightarrow> string" where
  "writeTreeNode children n parentSource croot depth maxDepth =
     concat (replicate depth ''  '') @ ''['' @ nNodeType n @ ''] '' @ nLabel n @ '' (id='' @ nID n
     @ (if nSourceFile n \<noteq> parentSource then '' file='' @ relSourcePath (nSourceFile n) croot else [])
     @ '' temp='' @ fmt_2f (nTemperature n) @ '' tok='' @ Itoa (nTokenCount n) @ '')'' @ [LF]
     @ (if maxDepth \<le> depth then []
        else concat (map (\<lambda>child. writeTreeNode children child (nSourceFile n) croot (depth + 1) maxDepth)
               (children (nID n))))"
  by pat_completeness auto

termination by (relation "measure (\<lambda>(children, n, parentSource, croot, depth, maxDepth). maxDepth - depth)") auto

declare writeTreeNode.simps [simp del]

definition HandleTree :: "string \<Rightarrow> int \<Rightarrow> db \<Rightarrow> error + string" where
  "HandleTree start depth d =
     (let maxDepth = nat (if depth \<le> 0 then 5 else depth);
          alln = GetAllNodes d
      in case BuildTree alln of
           (roots, childMap) \<Rightarrow>
             bindR (if start = [] then Inr roots
                    else case find (\<lambda>n. nID n = start) alln of
                           None \<Rightarrow> Inl (Driver (''failed to get root: node '' @ start @ '' not found''))
                         | Some n \<Rightarrow> Inr [n]) (\<lambda>roots.
               let text = concat (map (\<lambda>n. writeTreeNode childMap n [] (GetLatestCompileRoot d) 0 maxDepth) roots)
               in Inr (if text = [] then ''empty tree'' else text)))"

section \<open>Writing handlers\<close>

definition emitNodeChange :: "(string \<Rightarrow> 64 word) \<Rightarrow> (nat \<Rightarrow> attempt_env) \<Rightarrow> error \<Rightarrow> int \<Rightarrow> node_data \<Rightarrow> snapshot_map
    \<Rightarrow> string \<Rightarrow> db \<Rightarrow> error option \<times> db" where
  "emitNodeChange h env ctxErr now node prev msg d =
     (let roots = [CNode node []]
      in Emit env ctxErr now roots (Diff roots prev) (CursorHash h roots) msg [] d)"

definition write_target :: "(string \<Rightarrow> 64 word) \<Rightarrow> string \<Rightarrow> string \<Rightarrow> string" where
  "write_target h anchor payload = (if anchor = [] then IdentifyPayload h ''mcp:write'' payload else anchor)"

definition updated_node :: "Node \<Rightarrow> string \<Rightarrow> string \<Rightarrow> string \<Rightarrow> int \<Rightarrow> real option \<Rightarrow> node_data" where
  \<comment> \<open>metadata of the stored node, new content\<close>
  "updated_node e label content hash tokens temp =
     \<lparr>ID = nID e, ParentID = nParentID e, SourceFile = nSourceFile e, Label = label, Content = content, Hash = hash,
      Format = nFormat e, Temperature = temp, Depth = nDepth e, TokenCount = tokens, Kind = nNodeType e\<rparr>"

definition created_node :: "string \<Rightarrow> string \<Rightarrow> string \<Rightarrow> string \<Rightarrow> int \<Rightarrow> node_data" where
  "created_node i label content hash tokens =
     \<lparr>ID = i, ParentID = [], SourceFile = ''mcp:write'', Label = label, Content = content, Hash = hash,
      Format = FormatPlain, Temperature = None, Depth = 1, TokenCount = tokens, Kind = NodeText\<rparr>"

definition write_node :: "(string \<Rightarrow> 64 word) \<Rightarrow> string \<Rightarrow> string \<Rightarrow> db \<Rightarrow> node_data \<times> snapshot_map" where
  "write_node h anchor payload d =
     (let contentHash = ContentHash h payload;
          nodeID = write_target h anchor payload;
          tokenCount = Estimate payload;
          label = firstLine payload 80
      in case GetNode d nodeID of
           Inr existing \<Rightarrow>
             (updated_node existing label payload contentHash tokenCount None,
              [(nodeID, \<lparr>StHash = nContentHash existing, StContent = nContent existing\<rparr>)])
         | Inl _ \<Rightarrow> (created_node nodeID label payload contentHash tokenCount, []))"

definition HandleWrite :: "(string \<Rightarrow> 64 word) \<Rightarrow> (nat \<Rightarrow> attempt_env) \<Rightarrow> error \<Rightarrow> int \<Rightarrow> string \<Rightarrow> string \<Rightarrow> db
    \<Rightarrow> (error + string) \<times> db" where
  "HandleWrite h env ctxErr now anchor payload d =
     (let nodeID = write_target h anchor payload
      in case write_node h anchor payload d of
           (node, prev) \<Rightarrow>
             (case emitNodeChange h env ctxErr now node prev (''write:'' @ nodeID) d of
                (Some e, d') \<Rightarrow> (Inl (Errorf ''failed to write'' e), d')
              | (None, d') \<Rightarrow> (Inr (''wrote node '' @ nodeID @ '' ('' @ Itoa (Estimate payload) @ '' tokens)''), d')))"

definition arrow :: string where "arrow = [CHR 0xE2, CHR 0x86, CHR 0x92]"

definition HandleSummarize :: "(string \<Rightarrow> 64 word) \<Rightarrow> (nat \<Rightarrow> attempt_env) \<Rightarrow> error \<Rightarrow> int \<Rightarrow> real \<Rightarrow> string \<Rightarrow> string \<Rightarrow> real option
    \<Rightarrow> db \<Rightarrow> (error + string) \<times> db" where
  "HandleSummarize h env ctxErr now summarizeRebound nodeID summary temp d =
     (if (case temp of None \<Rightarrow> False | Some t \<Rightarrow> t < 0 \<or> 1 < t) then (Inl (Driver ''temperature must be in [0, 1]''), d)
      else case GetNode d nodeID of
        Inl e \<Rightarrow> (Inl (Errorf (''failed to get node: '' @ nodeID) e), d)
      | Inr existing \<Rightarrow>
          (let tokenCount = Estimate summary;
               prev = [(nodeID, \<lparr>StHash = nContentHash existing, StContent = nContent existing\<rparr>)];
               rebound = (case temp of None \<Rightarrow> summarizeRebound | Some t \<Rightarrow> t);
               node = updated_node existing (''Summary: '' @ firstLine summary 70) summary (ContentHash h summary) tokenCount (Some rebound)
           in case emitNodeChange h env ctxErr now node prev (''summarize:'' @ nodeID) d of
                (Some e, d') \<Rightarrow> (Inl (Errorf ''failed to summarize'' e), d')
              | (None, d') \<Rightarrow>
                  (Inr (''summarized node '' @ nodeID @ '' ('' @ Itoa (nTokenCount existing) @ '' '' @ arrow @ '' ''
                     @ Itoa tokenCount @ '' tokens)''), d')))"

section \<open>MemoryCompile\<close>

text \<open>\<open>evalSymlinks\<close> and \<open>stat\<close> (whether a path is a directory) are the file system's.\<close>

definition or_else :: "error + 'a \<Rightarrow> 'a \<Rightarrow> 'a" where
  "or_else r x = (case r of Inl e \<Rightarrow> x | Inr y \<Rightarrow> y)"

definition canonicalizePath :: "(string \<Rightarrow> error + string) \<Rightarrow> error + string \<Rightarrow> string \<Rightarrow> string \<Rightarrow> error + string" where
  "canonicalizePath evalSymlinks cwd input sourceDir =
     (if sourceDir = [] \<or> input = [] then Inr input
      else bindR (wrap_error (''failed to resolve: '' @ sourceDir) (filepath_Abs cwd sourceDir)) (\<lambda>absSource.
        let absSource = or_else (evalSymlinks absSource) absSource;
            inputWasRelative = (\<not> IsAbs input);
            candidate = (if inputWasRelative then filepath_Join absSource input else input)
        in bindR (wrap_error (''failed to resolve: '' @ input) (filepath_Abs cwd candidate)) (\<lambda>absInput.
          let absInput = or_else (evalSymlinks absInput) absInput
          in case filepath_Rel absSource absInput of
               Inl e \<Rightarrow> Inr (if inputWasRelative then absInput else input)
             | Inr rel \<Rightarrow>
                 if rel = ''..'' \<or> HasPrefix rel (''..'' @ osSeparator)
                 then Inr (if inputWasRelative then absInput else input)
                 else Inr (filepath_Join absSource rel))))"

definition HandleCompile :: "(string \<Rightarrow> 64 word) \<Rightarrow> (nat \<Rightarrow> attempt_env) \<Rightarrow> error \<Rightarrow> int \<Rightarrow> FS
    \<Rightarrow> (string \<Rightarrow> error + (string \<times> jvalue) list) \<Rightarrow> (string \<Rightarrow> string \<Rightarrow> error + ContextNode list)
    \<Rightarrow> (string \<Rightarrow> error + string) \<Rightarrow> (string \<Rightarrow> error + bool) \<Rightarrow> string \<Rightarrow> string \<Rightarrow> string \<Rightarrow> db \<Rightarrow> (error + string) \<times> db" where
  "HandleCompile h env ctxErr now fs unmarshal parseBytes evalSymlinks stat sourceDir input message d =
     (case canonicalizePath evalSymlinks (fs_cwd fs) input sourceDir of
        Inl e \<Rightarrow> (Inl (Errorf ''failed to canonicalize'' e), d)
      | Inr path \<Rightarrow>
          (let msg = (if message = [] then ''compile:'' @ path else message)
           in case stat path of
                Inl e \<Rightarrow> (Inl (Errorf ''failed to compile'' e), d)
              | Inr isDir \<Rightarrow>
                  (case (if isDir then CompileDir h env ctxErr now fs unmarshal parseBytes path msg \<lparr>doIgnore = None, doReseed = False\<rparr> d
                         else CompileFile h env ctxErr now fs parseBytes path msg Map.empty False d) of
                     (Inl e, d') \<Rightarrow> (Inl (Errorf ''failed to compile'' e), d')
                   | (Inr r, d') \<Rightarrow>
                       (Inr (''compiled: '' @ itoa_nat (Added r) @ '' added, '' @ itoa_nat (Modified r) @ '' modified, ''
                          @ itoa_nat (Removed' r) @ '' removed ('' @ itoa_nat (Total r) @ '' ops)''), d'))))"

section \<open>A single node change\<close>

text \<open>\<open>prev\<close> is what the table holds for the node.\<close>

definition prev_for :: "db \<Rightarrow> string \<Rightarrow> snapshot_map" where
  "prev_for d i = (case get_row (t_nodes d) i of None \<Rightarrow> []
     | Some r \<Rightarrow> [(i, \<lparr>StHash = c_content_hash r, StContent = c_content r\<rparr>)])"

lemma Diff_single:
  assumes "prev = prev_for d (ID node)"
  shows "Diff [CNode node []] prev =
    (if map_option c_content_hash (get_row (t_nodes d) (ID node)) = Some (Hash node) then [] else DiffFlat_step prev node)
    \<and> (\<forall>dl \<in> set (DiffFlat_step prev node). (Op dl = OpAdd \<or> Op dl = OpMod) \<and> NodeID dl = ID node)
    \<and> length (DiffFlat_step prev node) \<le> 1"
proof -
  have f: "flat_data [CNode node []] = [node]" by (simp add: flat_data_def)
  have "filter (\<lambda>i. i \<notin> {ID node}) (map fst prev) = []"
    using assms by (simp add: prev_for_def split: option.splits)
  with f have "Diff [CNode node []] prev = DiffFlat_step prev node" by (simp add: Diff_def DiffFlat_def)
  then show ?thesis using assms
    by (auto simp: DiffFlat_step_def prev_for_def split: option.splits)
qed

lemma emitNodeChange_effect:
  assumes ok: "db_ok d" and e: "emitNodeChange h env ctxErr now node (prev_for d (ID node)) msg d = (r, d')"
  shows "db_ok d' \<and> (r \<noteq> None \<longrightarrow> d' = d)
    \<and> (r = None \<longrightarrow> t_nodes d' =
         (if map_option c_content_hash (get_row (t_nodes d) (ID node)) = Some (Hash node) then t_nodes d
          else upsert_rows now (nodeFromContext node) (t_nodes d)))"
proof -
  let ?prev = "prev_for d (ID node)" and ?roots = "[CNode node []]"
  let ?same = "map_option c_content_hash (get_row (t_nodes d) (ID node)) = Some (Hash node)"
  note D = Diff_single [where d = d and node = node, OF refl]
  from e have em: "Emit env ctxErr now ?roots (Diff ?roots ?prev) (CursorHash h ?roots) msg [] d = (r, d')"
    by (simp add: emitNodeChange_def Let_def)
  note at = emit_all_or_nothing [OF em]
  show ?thesis
  proof (cases "r = None \<and> Diff ?roots ?prev \<noteq> []")
    case False
    with at have "d' = d" "r = None \<longrightarrow> Diff ?roots ?prev = []" by auto
    moreover have "?same" if "Diff ?roots ?prev = []"
    proof (rule ccontr)
      assume "\<not> ?same"
      with D that have "DiffFlat_step ?prev node = []" by presburger
      with \<open>\<not> ?same\<close> show False by (auto simp: DiffFlat_step_def prev_for_def split: option.splits if_splits)
    qed
    ultimately show ?thesis using ok by auto
  next
    case True
    with at have body: "emit_body now ?roots (Diff ?roots ?prev) (CursorHash h ?roots) msg [] d = Inr d'" by blast
    from True D have ns: "\<not> ?same" "Diff ?roots ?prev = DiffFlat_step ?prev node" by (auto split: if_splits)
    with True D obtain dl where dl: "Diff ?roots ?prev = [dl]" "Op dl = OpAdd \<or> Op dl = OpMod" "NodeID dl = ID node"
      by (cases "DiffFlat_step ?prev node") auto
    from emit_body_nodes [OF ok body] obtain d1 where d1: "apply_deltas now (buildNodeMap ?roots) [dl] d = Inr d1" "t_nodes d' = t_nodes d1"
      unfolding dl(1) by blast
    have "buildNodeMap ?roots (ID node) = Some (CNode node [])" by (simp add: buildNodeMap_def FlattenMap_def)
    with d1(1) dl(2,3) have "t_nodes d1 = upsert_rows now (nodeFromContext node) (t_nodes d)"
      by (auto simp: bindR_Inr_iff UpsertNodeTx_Inr)
    then show ?thesis using d1(2) True emit_body_ok [OF ok body] unfolding if_not_P [OF ns(1)] by simp
  qed
qed

lemma GetNode_row: "GetNode d i = Inr n \<longleftrightarrow> (\<exists>r. get_row (t_nodes d) i = Some r \<and> n = scanNode r)"
  by (auto simp: GetNode_def split: option.splits)

lemma write_node_prev:
  "write_node h anchor payload d = (node, prev) \<Longrightarrow>
    ID node = write_target h anchor payload \<and> prev = prev_for d (ID node)
    \<and> Content node = payload \<and> Hash node = ContentHash h payload \<and> Temperature node = None
    \<and> (\<forall>old. GetNode d (ID node) = Inr old \<longrightarrow> ParentID node = nParentID old \<and> SourceFile node = nSourceFile old \<and> Depth node = nDepth old)"
proof -
  assume w: "write_node h anchor payload d = (node, prev)"
  let ?i = "write_target h anchor payload"
  show ?thesis
  proof (cases "get_row (t_nodes d) ?i")
    case None
    then have "GetNode d ?i = Inl NoRows" by (simp add: GetNode_def)
    with w None show ?thesis by (auto simp: write_node_def Let_def created_node_def prev_for_def)
  next
    case (Some r)
    then have "GetNode d ?i = Inr (scanNode r)" "nID (scanNode r) = ?i" by (auto simp: GetNode_def scanNode_def dest: get_row_Some)
    with w Some show ?thesis
      by (auto simp: write_node_def Let_def updated_node_def prev_for_def scanNode_def)
  qed
qed

lemma upserted_GetNode:
  assumes "t_nodes d' = upsert_rows now (nodeFromContext node) (t_nodes d)"
  shows "\<exists>n. GetNode d' (ID node) = Inr n \<and> nContent n = Content node \<and> nContentHash n = Hash node
    \<and> nParentID n = ParentID node \<and> nSourceFile n = SourceFile node
    \<and> nTemperature n = (case Temperature node of Some t \<Rightarrow> t
        | None \<Rightarrow> (case GetNode d (ID node) of Inr old \<Rightarrow> nTemperature old | Inl e \<Rightarrow> 0.5))"
    "i \<noteq> ID node \<Longrightarrow> get_row (t_nodes d') i = get_row (t_nodes d) i"
  using assms
  by (auto simp: GetNode_def get_row_upsert scanNode_def insert_row_def update_row_def nodeFromContext_def parentIDParam_def
      split: option.splits)

text \<open>One node changed, as both writing handlers do: stored unless the stored hash is the new one.\<close>

lemma emitNodeChange_cases:
  assumes "db_ok d" "emitNodeChange h env ctxErr now node (prev_for d (ID node)) msg d = (r, d')"
  obtains (failed) e where "r = Some e" "d' = d"
  | (unchanged) row where "r = None" "get_row (t_nodes d) (ID node) = Some row" "c_content_hash row = Hash node"
      "t_nodes d' = t_nodes d" "db_ok d'"
  | (changed) "r = None" "map_option c_content_hash (get_row (t_nodes d) (ID node)) \<noteq> Some (Hash node)"
      "t_nodes d' = upsert_rows now (nodeFromContext node) (t_nodes d)" "db_ok d'"
proof (cases r)
  case (Some e)
  then show ?thesis using emitNodeChange_effect [OF assms] failed by blast
next
  case None
  note eff = emitNodeChange_effect [OF assms]
  show ?thesis
  proof (cases "map_option c_content_hash (get_row (t_nodes d) (ID node)) = Some (Hash node)")
    case True
    with eff None have "t_nodes d' = t_nodes d" by presburger
    then show ?thesis using True None eff unchanged by auto
  next
    case False
    with eff None have "t_nodes d' = upsert_rows now (nodeFromContext node) (t_nodes d)" by presburger
    then show ?thesis using False None eff changed by auto
  qed
qed

lemma emitNodeChange_fair:
  assumes "db_ok d" "ParentID node = []" "ID node \<noteq> []" "CursorHash h [CNode node []] \<notin> s_cursor_hash ` set (t_snapshots d)"
    and "\<forall>row. get_row (t_nodes d) (ID node) = Some row \<longrightarrow> c_content_hash row \<noteq> Hash node \<and> c_parent_id row = None"
  shows "\<exists>d'. emitNodeChange h fair_env ctxErr now node (prev_for d (ID node)) msg d = (None, d')"
proof -
  let ?roots = "[CNode node []]" and ?prev = "prev_for d (ID node)"
  have f: "flat_data ?roots = [node]" by (simp add: flat_data_def)
  have "prev_of_table ?prev (t_nodes d)" "parents_stable [node] ?prev (t_nodes d)" "hash_faithful [node] ?prev"
    using assms(2,5) by (cases "get_row (t_nodes d) (ID node)"; simp add: prev_of_table_def parents_stable_def hash_faithful_def
        prev_for_def view_def row_state_def parentIDParam_def)+
  with assms have "emit_ready ?roots ?prev (CursorHash h ?roots) d" unfolding emit_ready_def f by simp
  moreover have "DiffFlat_step ?prev node \<noteq> []"
    using assms(5) by (auto simp: DiffFlat_step_def prev_for_def split: option.splits)
  then have ne: "Diff ?roots ?prev \<noteq> []" by (simp add: Diff_def DiffFlat_def f)
  ultimately obtain d' where "emit_body now ?roots (Diff ?roots ?prev) (CursorHash h ?roots) msg [] d = Inr d'"
    using emit_effect by blast
  from Emit_fair [OF this ne] show ?thesis by (auto simp: emitNodeChange_def Let_def)
qed

lemma emitNodeChange_fresh:
  assumes "ID node \<noteq> []" "ParentID node = []"
  shows "\<exists>d'. emitNodeChange h fair_env ctxErr now node (prev_for empty_db (ID node)) msg empty_db = (None, d')"
  using assms by (intro emitNodeChange_fair db_ok_empty) (simp_all add: empty_db_def)



text \<open>C31: what MemorySummarize does: an error leaves the store alone, and a temperature outside the range is one.
  On success the node existed. If its content hash is the summary's, no row changes, so the temperature does
  not either; otherwise the node holds the summary with its parent and source file kept and the given
  temperature, or the configured rebound, and no other node changes.\<close>

theorem HandleSummarize_effect:
  assumes "db_ok d" "HandleSummarize h env ctxErr now rebound i summary temp d = (res, d')"
  shows "db_ok d' \<and> (\<forall>e. res = Inl e \<longrightarrow> d' = d)
    \<and> (\<forall>t. temp = Some t \<longrightarrow> t < 0 \<or> 1 < t \<longrightarrow> (\<exists>e. res = Inl e))
    \<and> (\<forall>msg. res = Inr msg \<longrightarrow>
        (\<exists>old. GetNode d i = Inr old
          \<and> (nContentHash old = ContentHash h summary \<longrightarrow> t_nodes d' = t_nodes d)
          \<and> (nContentHash old \<noteq> ContentHash h summary \<longrightarrow>
              (\<exists>n. GetNode d' i = Inr n \<and> nContent n = summary \<and> nParentID n = nParentID old
                \<and> nSourceFile n = nSourceFile old \<and> nTemperature n = (case temp of None \<Rightarrow> rebound | Some t \<Rightarrow> t))))
        \<and> (\<forall>j. j \<noteq> i \<longrightarrow> get_row (t_nodes d') j = get_row (t_nodes d) j))"
proof (cases "case temp of None \<Rightarrow> False | Some t \<Rightarrow> t < 0 \<or> 1 < t")
  case True
  with assms show ?thesis by (auto simp: HandleSummarize_def)
next
  case False
  then have range: "\<forall>t. temp = Some t \<longrightarrow> \<not> (t < 0 \<or> 1 < t)" by auto
  show ?thesis
  proof (cases "get_row (t_nodes d) i")
    case None
    with assms range show ?thesis by (auto simp: HandleSummarize_def GetNode_def split: if_splits)
  next
    case (Some row)
    let ?t = "case temp of None \<Rightarrow> rebound | Some t \<Rightarrow> t"
    define node where "node = updated_node (scanNode row) (''Summary: '' @ firstLine summary 70) summary
      (ContentHash h summary) (Estimate summary) (Some ?t)"
    have old: "GetNode d i = Inr (scanNode row)" "nID (scanNode row) = i"
      using Some get_row_Some [OF Some] by (auto simp: GetNode_def scanNode_def)
    have node: "ID node = i" "Content node = summary" "Hash node = ContentHash h summary" "Temperature node = Some ?t"
      "ParentID node = nParentID (scanNode row)" "SourceFile node = nSourceFile (scanNode row)"
      using get_row_Some [OF Some] by (simp_all add: node_def updated_node_def scanNode_def)
    have prev: "[(i, \<lparr>StHash = nContentHash (scanNode row), StContent = nContent (scanNode row)\<rparr>)] = prev_for d (ID node)"
      using Some by (simp add: prev_for_def node scanNode_def)
    obtain r d1 where em: "emitNodeChange h env ctxErr now node (prev_for d (ID node)) (''summarize:'' @ i) d = (r, d1)" by fastforce
    from assms(2) em have res: "d1 = d'" "r = None \<longleftrightarrow> (\<exists>msg. res = Inr msg)"
      unfolding HandleSummarize_def if_not_P [OF False] old(1) sum.case Let_def prev node_def [symmetric]
      by (auto split: option.splits)
    from assms(1) em [unfolded res(1)] show ?thesis
    proof (cases rule: emitNodeChange_cases)
      case (failed e)
      then show ?thesis using res(2) assms(1) range by auto
    next
      case (unchanged row')
      then show ?thesis using res(2) old range Some node by (auto simp: scanNode_def)
    next
      case changed
      from upserted_GetNode(1) [OF changed(3)] obtain n where "GetNode d' i = Inr n" "nContent n = summary"
        "nParentID n = ParentID node" "nSourceFile n = SourceFile node" "nTemperature n = ?t"
        unfolding node by auto
      with upserted_GetNode(2) [OF changed(3)] changed(1,2,4) res(2) old range Some node show ?thesis
        by (auto simp: scanNode_def)
    qed
  qed
qed

definition note_row :: row where
  "note_row = insert_row 5 (nodeFromContext (zero_data\<lparr>ID := ''a'', Content := ''a long story'', Hash := ''t''\<rparr>))"

lemma note_row: "c_id note_row = ''a''" "c_parent_id note_row = None" "c_content_hash note_row = ''t''"
  by (simp_all add: note_row_def insert_row_def nodeFromContext_def parentIDParam_def zero_data_def)

definition note_db :: db where
  "note_db = empty_db\<lparr>t_nodes := [note_row]\<rparr>"

lemma note_db: "db_ok note_db" "GetNode note_db ''a'' = Inr (scanNode note_row)" "get_row (t_nodes note_db) ''a'' = Some note_row"
  "t_snapshots note_db = []"
  using db_ok_empty note_row
  by (simp_all add: note_db_def db_ok_def nodes_ok_def history_ok_def empty_db_def fk_ok_def GetNode_def get_row_def)

lemma note_hash: "ContentHash len_hash ''short'' \<noteq> ''t''"
  by code_simp

lemma summarize_note:
  "\<exists>msg d'. HandleSummarize len_hash fair_env NoRows now rebound ''a'' ''short'' (Some (9 / 10)) note_db = (Inr msg, d')"
proof -
  define node where "node = updated_node (scanNode note_row) (''Summary: '' @ firstLine ''short'' 70) ''short''
    (ContentHash len_hash ''short'') (Estimate ''short'') (Some (9 / 10))"
  have n: "ID node = ''a''" "ParentID node = []" "Hash node = ContentHash len_hash ''short''"
    using note_row by (simp_all add: node_def updated_node_def scanNode_def)
  have prev: "[(''a'', \<lparr>StHash = nContentHash (scanNode note_row), StContent = nContent (scanNode note_row)\<rparr>)] = prev_for note_db (ID node)"
    using n note_db(3) by (simp add: prev_for_def scanNode_def)
  have "\<exists>d'. emitNodeChange len_hash fair_env NoRows now node (prev_for note_db (ID node)) (''summarize:'' @ ''a'') note_db = (None, d')"
    by (rule emitNodeChange_fair [OF note_db(1)]) (use n note_row note_db note_hash in auto)
  then show ?thesis
    unfolding HandleSummarize_def Let_def note_db(2) sum.case option.case prev node_def [symmetric] by auto
qed

theorem HandleSummarize_effect_witness:
  "\<exists>msg d' n. HandleSummarize len_hash fair_env NoRows 9 (4 / 10) ''a'' ''short'' (Some (9 / 10)) note_db = (Inr msg, d')
     \<and> GetNode d' ''a'' = Inr n \<and> nContent n = ''short'' \<and> nTemperature n = 9 / 10"
proof -
  obtain msg d' where run: "HandleSummarize len_hash fair_env NoRows 9 (4 / 10) ''a'' ''short'' (Some (9 / 10)) note_db = (Inr msg, d')"
    using summarize_note by blast
  from HandleSummarize_effect [OF note_db(1) run] run note_db(2) note_hash note_row show ?thesis by (auto simp: scanNode_def)
qed

section \<open>Labels of written nodes\<close>

lemma range_width_no_LF:
  assumes "i < length s" "s ! i \<noteq> LF" "LF \<notin> set (take i s)"
  shows "LF \<notin> set (take (i + range_width (drop i s)) s)"
proof
  assume "LF \<in> set (take (i + range_width (drop i s)) s)"
  then obtain j where j: "j < i + range_width (drop i s)" "j < length s" "s ! j = LF"
    by (auto simp: in_set_conv_nth)
  have "\<not> j < i" using assms(3) j by (auto simp: in_set_conv_nth)
  with j assms(2) have "i < j" by (cases "i = j") auto
  with j(1) obtain n where n: "rune_len (drop i s) = Some n" "j - i < n" by (auto simp: range_width_def split: option.splits)
  with rune_len_shape [OF n(1)] \<open>i < j\<close> have "cont_byte (drop i s ! (j - i))" by simp
  then have "cont_byte (s ! j)" using \<open>i < j\<close> j(2) by simp
  with j(3) show False by (simp add: cont_byte_def LF_def)
qed

lemma range_width_le4: "range_width s \<le> 4"
  by (auto simp: range_width_def dest: rune_len_shape split: option.splits)

lemma firstLine_loop_spec:
  "i \<le> m + 3 \<Longrightarrow> LF \<notin> set (take i s) \<Longrightarrow>
    prefix (firstLine_loop s m i) s \<and> LF \<notin> set (firstLine_loop s m i) \<and> length (firstLine_loop s m i) \<le> m + 3"
proof (induction s m i rule: firstLine_loop.induct)
  case (1 s m i)
  have no: "LF \<notin> set (take k s)" if "k \<le> i" for k
    using 1(3) set_take_subset_set_take [OF that, of s] by blast
  consider (over) "length s \<le> i" | (line) "i < length s" "s ! i = LF" | (cut) "i < length s" "s ! i \<noteq> LF" "m \<le> i"
    | (step) "i < length s" "s ! i \<noteq> LF" "i < m" by linarith
  then show ?case
  proof cases
    case over
    then have "LF \<notin> set s" using 1(3) by simp
    then show ?thesis using over by (subst (1 2 3) firstLine_loop.simps) (auto simp: take_is_prefix dest: in_set_takeD)
  next
    case line
    then show ?thesis using 1(2,3) by (subst (1 2 3) firstLine_loop.simps) (auto simp: take_is_prefix)
  next
    case cut
    then show ?thesis using no [of m] by (subst (1 2 3) firstLine_loop.simps) (auto simp: take_is_prefix)
  next
    case step
    have "i + range_width (drop i s) \<le> m + 3" using step range_width_le4 [of "drop i s"] by linarith
    from 1(1) [OF _ step(2) _ this range_width_no_LF [OF step(1,2) 1(3)]] step
    show ?thesis by (subst (1 2 3) firstLine_loop.simps) simp
  qed
qed

text \<open>The label MemoryWrite derives is a prefix of the payload without a line feed, at most three bytes
  longer than the limit (a rune may start just before the limit and be followed by the line feed).\<close>

theorem firstLine_spec:
  "prefix (firstLine s maxLen) s \<and> LF \<notin> set (firstLine s maxLen) \<and> length (firstLine s maxLen) \<le> maxLen + 3"
  unfolding firstLine_def by (rule firstLine_loop_spec) simp_all

end
