(* ===== verification/Rescan.thy ===== *)
theory Rescan
  imports CompileDir
begin

text \<open>
  The package \<open>pkg/mcp\<close>, files \<open>rescan.go\<close> and \<open>initial.go\<close>, and the filter of \<open>NotifyColdNodes\<close>: the
  loop that keeps the store in step with the files. Its state is the record \<open>RescanLoop\<close>; the map of
  modification times is an association list, whose order stands for the order of the map. Times are
  integers. The walk sees a tree as \<open>FS\<close> gives it and a modification time for each file, absent where
  \<open>Info\<close> fails. What the code logs at the end of a scan is the outcome the model returns.
\<close>

record RescanLoop =
  rl_dir :: string
  rl_interval :: int
  rl_settle :: int
  rl_modTimes :: "(string \<times> int) list"
  rl_ignore :: "Matcher option"

definition defaultRescanInterval :: int where
  \<comment> \<open>nanoseconds\<close>
  "defaultRescanInterval = 30 * 1000000000"

definition defaultSettleTime :: int where
  "defaultSettleTime = 500 * 1000000"

definition NewRescanLoop :: "(string \<Rightarrow> error + string option) \<Rightarrow> string \<Rightarrow> int \<Rightarrow> error + RescanLoop" where
  "NewRescanLoop openFile dir interval =
     bindR (wrap_error (''failed to load: '' @ ignore_FileName) (ignore_Load openFile dir)) (\<lambda>matcher.
       Inr \<lparr>rl_dir = dir, rl_interval = (if interval \<le> 0 then defaultRescanInterval else interval),
            rl_settle = defaultSettleTime, rl_modTimes = [], rl_ignore = matcher\<rparr>)"

section \<open>The walk\<close>

record scan_state =
  sc_changed :: "string list"
  sc_seen :: "string list"
  sc_pending :: "(string \<times> int) list"

definition scan_file :: "RescanLoop \<Rightarrow> (string \<Rightarrow> int option) \<Rightarrow> int \<Rightarrow> string \<Rightarrow> scan_state \<Rightarrow> scan_state" where
  \<comment> \<open>the callback on a file that is neither ignored nor unsupported\<close>
  "scan_file r mtimes now path st =
     (let st = st\<lparr>sc_seen := sc_seen st @ [path]\<rparr>
      in case mtimes path of
           None \<Rightarrow> st
         | Some mtime \<Rightarrow>
             if now - mtime < rl_settle r then st
             else (case map_of (rl_modTimes r) path of
                     Some prev \<Rightarrow>
                       if prev < mtime
                       then st\<lparr>sc_changed := sc_changed st @ [path], sc_pending := AList.update path mtime (sc_pending st)\<rparr>
                       else st
                   | None \<Rightarrow> st\<lparr>sc_changed := sc_changed st @ [path], sc_pending := AList.update path mtime (sc_pending st)\<rparr>))"

fun scan_entry :: "RescanLoop \<Rightarrow> (string \<Rightarrow> int option) \<Rightarrow> int \<Rightarrow> string \<Rightarrow> string \<Rightarrow> fsentry \<Rightarrow> scan_state \<Rightarrow> error + scan_state"
and scan_list :: "RescanLoop \<Rightarrow> (string \<Rightarrow> int option) \<Rightarrow> int \<Rightarrow> string \<Rightarrow> (string \<times> fsentry) list \<Rightarrow> scan_state \<Rightarrow> error + scan_state" where
  "scan_entry r mtimes now path name FFile st =
     (let rel = (case filepath_Rel (rl_dir r) path of Inl _ \<Rightarrow> [] | Inr p \<Rightarrow> p)
      in Inr (if rel = ignore_FileName then st
              else if \<not> Supported path then st
              else if Match (rl_ignore r) rel False then st
              else scan_file r mtimes now path st))"
| "scan_entry r mtimes now path name (FDir es) st =
     (let rel = (case filepath_Rel (rl_dir r) path of Inl _ \<Rightarrow> [] | Inr p \<Rightarrow> p)
      in if path \<noteq> rl_dir r \<and> ShouldSkipDir name then Inr st
         else if Match (rl_ignore r) rel True then Inr st
         else scan_list r mtimes now path es st)"
| "scan_entry r mtimes now path name (FUnreadable e) st =
     (let rel = (case filepath_Rel (rl_dir r) path of Inl _ \<Rightarrow> [] | Inr p \<Rightarrow> p)
      in if path \<noteq> rl_dir r \<and> ShouldSkipDir name then Inr st
         else if Match (rl_ignore r) rel True then Inr st
         else Inl e)"
| "scan_list r mtimes now path [] st = Inr st"
| "scan_list r mtimes now path ((n, e) # es) st =
     bindR (scan_entry r mtimes now (filepath_Join path n) n e st) (scan_list r mtimes now path es)"

definition no_scan :: scan_state where
  "no_scan = \<lparr>sc_changed = [], sc_seen = [], sc_pending = []\<rparr>"

definition scan_walk :: "RescanLoop \<Rightarrow> FS \<Rightarrow> (string \<Rightarrow> int option) \<Rightarrow> int \<Rightarrow> error + scan_state" where
  "scan_walk r fs mtimes now =
     bindR (fs_root fs (rl_dir r)) (\<lambda>tree. scan_entry r mtimes now (rl_dir r) [] tree no_scan)"

section \<open>Deleted files\<close>

definition rem_node :: "Node \<Rightarrow> node_data" where
  \<comment> \<open>only the hash is set\<close>
  "rem_node n = zero_data\<lparr>Hash := ''rem:'' @ nID n @ '':'' @ nContentHash n\<rparr>"

definition rem_delta :: "Node \<Rightarrow> Delta" where
  "rem_delta n = \<lparr>NodeID = nID n, OldHash = nContentHash n, NewHash = [], OldContent = nContent n, NewContent = [], Op = OpRem\<rparr>"

definition reconcileDeleted :: "(string \<Rightarrow> 64 word) \<Rightarrow> (nat \<Rightarrow> attempt_env) \<Rightarrow> error \<Rightarrow> int \<Rightarrow> string list \<Rightarrow> db \<Rightarrow> error option \<times> db" where
  "reconcileDeleted h env ctxErr now deleted d =
     (if length deleted = 0 then (None, d)
      else (let nodes = GetNodesByFiles d deleted
            in if length nodes = 0 then (None, d)
               else Emit env ctxErr now [] (map rem_delta nodes) (CursorHashFlat h (map rem_node nodes))
                      (''rescan: purged '' @ itoa_nat (length deleted) @ '' files'') [] d))"

section \<open>One scan\<close>

datatype scan_outcome = WalkAborted error | NoChanges | CompileFailed error | Applied Result

definition rescan_options :: "string list \<Rightarrow> string \<Rightarrow> compile_options" where
  "rescan_options changed dir =
     \<lparr>oPaths = changed, oMessage = ''rescan'', oCompileRoot = dir, oTemps = Map.empty, oFullRescan = False\<rparr>"

definition forget :: "RescanLoop \<Rightarrow> string list \<Rightarrow> RescanLoop" where
  \<comment> \<open>the entries of files the walk did not see are deleted\<close>
  "forget r seen = r\<lparr>rl_modTimes := filter (\<lambda>(p, t). p \<in> set seen) (rl_modTimes r)\<rparr>"

definition deleted_files :: "RescanLoop \<Rightarrow> string list \<Rightarrow> string list" where
  "deleted_files r seen =
     map (\<lambda>p. case filepath_Rel (rl_dir r) p of Inl _ \<Rightarrow> p | Inr rel \<Rightarrow> rel)
       (filter (\<lambda>p. p \<notin> set seen) (map fst (rl_modTimes r)))"

definition scan :: "(string \<Rightarrow> 64 word) \<Rightarrow> (nat \<Rightarrow> attempt_env) \<Rightarrow> (nat \<Rightarrow> attempt_env) \<Rightarrow> error \<Rightarrow> FS \<Rightarrow> (string \<Rightarrow> int option)
    \<Rightarrow> (string \<Rightarrow> string \<Rightarrow> error + ContextNode list) \<Rightarrow> int \<Rightarrow> RescanLoop \<Rightarrow> db \<Rightarrow> scan_outcome \<times> RescanLoop \<times> db" where
  \<comment> \<open>the engine's behaviour in the two transactions is \<open>env1\<close> and \<open>env2\<close>\<close>
  "scan h env1 env2 ctxErr fs mtimes parseBytes now r d =
     (case scan_walk r fs mtimes now of
        Inl e \<Rightarrow> (WalkAborted e, r, d)
      | Inr st \<Rightarrow>
          (let deleted = deleted_files r (sc_seen st);
               r = forget r (sc_seen st);
               d = snd (reconcileDeleted h env1 ctxErr now deleted d)
           in if length (sc_changed st) = 0 then (NoChanges, r, d)
              else case Compile h env2 ctxErr now (fs_read fs) parseBytes (rescan_options (sc_changed st) (rl_dir r)) d of
                     (Inl e, d) \<Rightarrow> (CompileFailed e, r, d)
                   | (Inr result, d) \<Rightarrow>
                       (Applied result,
                        r\<lparr>rl_modTimes := foldl (\<lambda>m (p, t). AList.update p t m) (rl_modTimes r) (sc_pending st)\<rparr>, d)))"

record tick_env =
  tk_env1 :: "nat \<Rightarrow> attempt_env"
  tk_env2 :: "nat \<Rightarrow> attempt_env"
  tk_fs :: FS
  tk_mtimes :: "string \<Rightarrow> int option"
  tk_now :: int

fun rescan_Run :: "(string \<Rightarrow> 64 word) \<Rightarrow> error \<Rightarrow> (string \<Rightarrow> string \<Rightarrow> error + ContextNode list) \<Rightarrow> tick_env list
    \<Rightarrow> RescanLoop \<Rightarrow> db \<Rightarrow> RescanLoop \<times> db" where
  \<comment> \<open>the start and the ticks before the context is done\<close>
  "rescan_Run h ctxErr parseBytes [] r d = (r, d)"
| "rescan_Run h ctxErr parseBytes (k # ks) r d =
     (case scan h (tk_env1 k) (tk_env2 k) ctxErr (tk_fs k) (tk_mtimes k) parseBytes (tk_now k) r d of
        (out, r, d) \<Rightarrow> rescan_Run h ctxErr parseBytes ks r d)"

section \<open>The first compilation and cold nodes\<close>

definition MaybeInitialCompile :: "(string \<Rightarrow> 64 word) \<Rightarrow> (nat \<Rightarrow> attempt_env) \<Rightarrow> error \<Rightarrow> int \<Rightarrow> FS
    \<Rightarrow> (string \<Rightarrow> error + (string \<times> jvalue) list) \<Rightarrow> (string \<Rightarrow> string \<Rightarrow> error + ContextNode list)
    \<Rightarrow> error + unit \<Rightarrow> string \<Rightarrow> db \<Rightarrow> error option \<times> db" where
  \<comment> \<open>\<open>stat\<close>: whether the statistics can be read\<close>
  "MaybeInitialCompile h env ctxErr now fs unmarshal parseBytes stat dir d =
     (case stat of
        Inl e \<Rightarrow> (Some (Errorf ''failed to stat'' e), d)
      | Inr _ \<Rightarrow>
          if 0 < NodeCount (GetStats d) then (None, d)
          else (case CompileDir h env ctxErr now fs unmarshal parseBytes dir ''initial'' \<lparr>doIgnore = None, doReseed = False\<rparr> d of
                  (Inl e, d') \<Rightarrow> (Some (Errorf ''failed to compile'' e), d')
                | (Inr result, d') \<Rightarrow> (None, d')))"

definition NotifyColdNodes :: "real \<Rightarrow> (Node list \<Rightarrow> nat) \<Rightarrow> Node list \<Rightarrow> string list" where
  \<comment> \<open>\<open>sent\<close>: how many sessions a warning about these nodes reaches\<close>
  "NotifyColdNodes notifyThreshold sent cold =
     (let toNotify = filter (\<lambda>n. nTemperature n < notifyThreshold) cold
      in if length toNotify = 0 then []
         else if sent toNotify = 0 then []
         else map nID toNotify)"

section \<open>The scan sees what CompileDir selects\<close>

lemma scan_walk_entry:
  "scan_entry r mtimes now path name e st =
     (case walk_entry (rl_ignore r) (rl_dir r) path name e of Inl err \<Rightarrow> Inl err
      | Inr ps \<Rightarrow> Inr (fold (scan_file r mtimes now) ps st))"
  "scan_list r mtimes now path es st =
     (case walk_list (rl_ignore r) (rl_dir r) path es of Inl err \<Rightarrow> Inl err
      | Inr ps \<Rightarrow> Inr (fold (scan_file r mtimes now) ps st))"
proof (induction r mtimes now path name e st and r mtimes now path es st rule: scan_entry_scan_list.induct)
  case (5 r mtimes now path n e es st)
  then show ?case
    by (cases "walk_entry (rl_ignore r) (rl_dir r) (filepath_Join path n) n e";
        cases "walk_list (rl_ignore r) (rl_dir r) path es") simp_all
qed (auto simp: Let_def)

definition due :: "RescanLoop \<Rightarrow> (string \<Rightarrow> int option) \<Rightarrow> int \<Rightarrow> string \<Rightarrow> bool" where
  \<comment> \<open>the file has settled and is newer than what was last compiled\<close>
  "due r mtimes now p =
     (case mtimes p of None \<Rightarrow> False
      | Some t \<Rightarrow> rl_settle r \<le> now - t \<and> (case map_of (rl_modTimes r) p of None \<Rightarrow> True | Some prev \<Rightarrow> prev < t))"

lemma scan_file_due:
  "scan_file r mtimes now p st =
     (if due r mtimes now p
      then st\<lparr>sc_seen := sc_seen st @ [p], sc_changed := sc_changed st @ [p],
              sc_pending := AList.update p (the (mtimes p)) (sc_pending st)\<rparr>
      else st\<lparr>sc_seen := sc_seen st @ [p]\<rparr>)"
  by (auto simp: scan_file_def due_def Let_def split: option.splits)

lemma scan_files:
  "sc_seen (fold (scan_file r mtimes now) ps st) = sc_seen st @ ps
   \<and> sc_changed (fold (scan_file r mtimes now) ps st) = sc_changed st @ filter (due r mtimes now) ps
   \<and> map_of (sc_pending (fold (scan_file r mtimes now) ps st))
     = (\<lambda>p. if p \<in> set ps \<and> due r mtimes now p then mtimes p else map_of (sc_pending st) p)"
proof (induction ps arbitrary: st)
  case (Cons p ps)
  have "due r mtimes now p \<Longrightarrow> mtimes p = Some (the (mtimes p))" by (simp add: due_def split: option.splits)
  with Cons show ?case by (auto simp: scan_file_due update_conv')
qed simp

lemma walk_to_scan:
  "scan_walk r fs mtimes now =
     (case bindR (fs_root fs (rl_dir r)) (walk_entry (rl_ignore r) (rl_dir r) (rl_dir r) []) of
        Inl e \<Rightarrow> Inl e | Inr ps \<Rightarrow> Inr (fold (scan_file r mtimes now) ps no_scan))"
  by (cases "fs_root fs (rl_dir r)") (simp_all add: scan_walk_def scan_walk_entry)

lemma scan_walk_Inr:
  assumes "scan_walk r fs mtimes now = Inr st"
  shows "bindR (fs_root fs (rl_dir r)) (walk_entry (rl_ignore r) (rl_dir r) (rl_dir r) []) = Inr (sc_seen st)"
    and "sc_changed st = filter (due r mtimes now) (sc_seen st)"
    and "map_of (sc_pending st) = (\<lambda>p. if p \<in> set (sc_changed st) then mtimes p else None)"
proof -
  from assms obtain ps where ps: "bindR (fs_root fs (rl_dir r)) (walk_entry (rl_ignore r) (rl_dir r) (rl_dir r) []) = Inr ps"
    "st = fold (scan_file r mtimes now) ps no_scan" by (auto simp: walk_to_scan split: sum.splits)
  from scan_files [of r mtimes now ps no_scan] ps(2) have st: "sc_seen st = ps" "sc_changed st = filter (due r mtimes now) ps"
    "map_of (sc_pending st) = (\<lambda>p. if p \<in> set ps \<and> due r mtimes now p then mtimes p else None)"
    by (auto simp: no_scan_def)
  from st(1) ps(1) show "bindR (fs_root fs (rl_dir r)) (walk_entry (rl_ignore r) (rl_dir r) (rl_dir r) []) = Inr (sc_seen st)" by simp
  from st show "sc_changed st = filter (due r mtimes now) (sc_seen st)" by simp
  from st show "map_of (sc_pending st) = (\<lambda>p. if p \<in> set (sc_changed st) then mtimes p else None)" by auto
qed

lemma scan_walk_again:
  assumes "scan_walk r fs mtimes now = Inr st" "rl_dir r2 = rl_dir r" "rl_ignore r2 = rl_ignore r"
  obtains st2 where "scan_walk r2 fs mtimes2 now2 = Inr st2" "sc_seen st2 = sc_seen st"
    "sc_changed st2 = filter (due r2 mtimes2 now2) (sc_seen st)"
proof -
  note w = scan_walk_Inr(1) [OF assms(1)]
  then have "scan_walk r2 fs mtimes2 now2 = Inr (fold (scan_file r2 mtimes2 now2) (sc_seen st) no_scan)"
    by (simp add: walk_to_scan assms(2,3))
  with that scan_files [of r2 mtimes2 now2 "sc_seen st" no_scan] show ?thesis by (simp add: no_scan_def)
qed


section \<open>What a scan leaves to the next one\<close>

lemma map_of_forget: "map_of (filter (\<lambda>(q, t). q \<in> S) m) p = (if p \<in> S then map_of m p else None)"
  by (induction m) auto

lemma map_of_copy: "map_of (foldl (\<lambda>m (p, t). AList.update p t m) m0 upd) = map_of m0 ++ map_of (rev upd)"
  by (induction upd arbitrary: m0) (auto simp: update_conv' map_add_def split: option.splits)

lemma pending_distinct: "distinct (map fst (sc_pending st)) \<Longrightarrow> distinct (map fst (sc_pending (fold (scan_file r mtimes now) ps st)))"
  by (induction ps arbitrary: st) (auto simp: scan_file_due distinct_update)

lemma scan_pending:
  assumes "scan_walk r fs mtimes now = Inr st"
  shows "map_of (foldl (\<lambda>m (p, t). AList.update p t m) m0 (sc_pending st)) p
    = (if p \<in> set (sc_changed st) then mtimes p else map_of m0 p)"
proof -
  from assms obtain ps where "st = fold (scan_file r mtimes now) ps no_scan" by (auto simp: walk_to_scan split: sum.splits)
  then have "distinct (map fst (sc_pending st))" using pending_distinct by (simp add: no_scan_def)
  then have "map_of (rev (sc_pending st)) = (\<lambda>p. if p \<in> set (sc_changed st) then mtimes p else None)"
    using scan_walk_Inr(3) [OF assms] by (simp add: map_of_rev_distinct)
  moreover have "p \<in> set (sc_changed st) \<Longrightarrow> mtimes p \<noteq> None"
    using scan_walk_Inr(2) [OF assms] by (auto simp: due_def split: option.splits)
  ultimately show ?thesis by (auto simp: map_of_copy map_add_def split: option.splits)
qed

lemma forget_fields [simp]: "rl_dir (forget r S) = rl_dir r" "rl_ignore (forget r S) = rl_ignore r" "rl_settle (forget r S) = rl_settle r"
  "map_of (rl_modTimes (forget r S)) p = (if p \<in> set S then map_of (rl_modTimes r) p else None)"
  by (simp_all add: forget_def map_of_forget)

lemma due_forget [simp]: "p \<in> set S \<Longrightarrow> due (forget r S) mtimes now p = due r mtimes now p"
  by (cases "mtimes p") (simp_all add: due_def)

lemma scan_cases:
  assumes "scan h env1 env2 ctxErr fs mtimes parseBytes now r d = (out, r', d')"
  obtains (aborted) e where "scan_walk r fs mtimes now = Inl e" "out = WalkAborted e" "r' = r" "d' = d"
  | (quiet) st where "scan_walk r fs mtimes now = Inr st" "sc_changed st = []" "out = NoChanges" "r' = forget r (sc_seen st)"
      "d' = snd (reconcileDeleted h env1 ctxErr now (deleted_files r (sc_seen st)) d)"
  | (failed) st e d1 where "scan_walk r fs mtimes now = Inr st" "sc_changed st \<noteq> []" "out = CompileFailed e" "r' = forget r (sc_seen st)"
      "d1 = snd (reconcileDeleted h env1 ctxErr now (deleted_files r (sc_seen st)) d)"
      "Compile h env2 ctxErr now (fs_read fs) parseBytes (rescan_options (sc_changed st) (rl_dir r)) d1 = (Inl e, d')"
  | (applied) st res d1 where "scan_walk r fs mtimes now = Inr st" "sc_changed st \<noteq> []" "out = Applied res"
      "r' = (forget r (sc_seen st))\<lparr>rl_modTimes := foldl (\<lambda>m (p, t). AList.update p t m) (rl_modTimes (forget r (sc_seen st))) (sc_pending st)\<rparr>"
      "d1 = snd (reconcileDeleted h env1 ctxErr now (deleted_files r (sc_seen st)) d)"
      "Compile h env2 ctxErr now (fs_read fs) parseBytes (rescan_options (sc_changed st) (rl_dir r)) d1 = (Inr res, d')"
proof (cases "scan_walk r fs mtimes now")
  case (Inl e)
  with assms have "out = WalkAborted e" "r' = r" "d' = d" by (simp_all add: scan_def)
  with aborted [OF Inl] show ?thesis by blast
next
  case (Inr st)
  define d1 where "d1 = snd (reconcileDeleted h env1 ctxErr now (deleted_files r (sc_seen st)) d)"
  show ?thesis
  proof (cases "sc_changed st = []")
    case True
    with assms Inr have "out = NoChanges" "r' = forget r (sc_seen st)" "d' = d1" by (simp_all add: scan_def Let_def d1_def)
    with quiet [OF Inr True] d1_def show ?thesis by blast
  next
    case False
    obtain res d2 where c: "Compile h env2 ctxErr now (fs_read fs) parseBytes (rescan_options (sc_changed st) (rl_dir r)) d1 = (res, d2)"
      by fastforce
    note s = assms [unfolded scan_def Inr Let_def sum.case d1_def [symmetric] forget_fields(1) c prod.case]
    show ?thesis
    proof (cases res)
      case (Inl e)
      with s False have "out = CompileFailed e" "r' = forget r (sc_seen st)" "d' = d2" by simp_all
      with failed [OF \<open>scan_walk r fs mtimes now = Inr st\<close> False _ _ d1_def] c Inl show ?thesis by blast
    next
      case (Inr x)
      with s False have "out = Applied x" "d' = d2"
        "r' = (forget r (sc_seen st))\<lparr>rl_modTimes := foldl (\<lambda>m (p, t). AList.update p t m) (rl_modTimes (forget r (sc_seen st))) (sc_pending st)\<rparr>"
        by simp_all
      with applied [OF \<open>scan_walk r fs mtimes now = Inr st\<close> False _ _ d1_def] c Inr show ?thesis by blast
    qed
  qed
qed

lemma scan_records:
  assumes "scan h env1 env2 ctxErr fs mtimes parseBytes now r d = (out, r', d')"
    and "scan_walk r fs mtimes now = Inr st" "now \<le> later"
  shows "map_of (rl_modTimes r') p =
      (if p \<notin> set (sc_seen st) then None
       else if due r mtimes now p \<and> (\<exists>res. out = Applied res) then mtimes p
       else map_of (rl_modTimes r) p)
    \<and> (p \<in> set (sc_seen st) \<and> due r mtimes now p \<and> (\<nexists>res. out = Applied res) \<longrightarrow> due r' mtimes later p)"
proof -
  note changed = scan_walk_Inr(2) [OF assms(2)]
  from assms(1) show ?thesis
  proof (cases rule: scan_cases)
    case (aborted e)
    then show ?thesis using assms(2) by simp
  next
    case (quiet st')
    then have st: "st' = st" using assms(2) by simp
    with quiet changed have "p \<in> set (sc_seen st) \<Longrightarrow> \<not> due r mtimes now p" by (auto simp: filter_empty_conv)
    with quiet st show ?thesis by auto
  next
    case (failed st' e d1)
    then have st: "st' = st" using assms(2) by simp
    have "due r' mtimes later p" if "p \<in> set (sc_seen st)" "due r mtimes now p"
      using that failed(4) st assms(3) by (auto simp: due_def split: option.splits)
    with failed st show ?thesis by auto
  next
    case (applied st' res d1)
    then have st: "st' = st" using assms(2) by simp
    with applied(3,4) scan_pending [OF applied(1)] changed show ?thesis by (auto simp: due_def split: option.splits)
  qed
qed

text \<open>C9: no edit is lost: a file that was due when the walk saw it is recorded with its modification time if the
  scan's compilation succeeded, and otherwise is due for every later scan. The record of any other file the
  walk saw is kept, and a file it did not see is forgotten.\<close>

theorem scan_loses_no_edit:
  assumes "scan h env1 env2 ctxErr fs mtimes parseBytes now r d = (out, r', d')"
    and "scan_walk r fs mtimes now = Inr st" "now \<le> later"
  shows "map_of (rl_modTimes r') p =
      (if p \<notin> set (sc_seen st) then None
       else if due r mtimes now p \<and> (\<exists>res. out = Applied res) then mtimes p
       else map_of (rl_modTimes r) p)
    \<and> (p \<in> set (sc_seen st) \<and> due r mtimes now p \<and> (\<nexists>res. out = Applied res) \<longrightarrow> due r' mtimes later p)"
  using scan_records [OF assms] .

section \<open>A scan with nothing to do\<close>

lemma forget_nothing: "fst ` set (rl_modTimes r) \<subseteq> set S \<Longrightarrow> forget r S = r"
proof -
  assume "fst ` set (rl_modTimes r) \<subseteq> set S"
  then have "filter (\<lambda>(p, t). p \<in> set S) (rl_modTimes r) = rl_modTimes r" by (auto simp: filter_id_conv)
  then show ?thesis by (simp add: forget_def)
qed

lemma deleted_nothing: "fst ` set (rl_modTimes r) \<subseteq> set S \<Longrightarrow> deleted_files r S = []"
  by (auto simp: deleted_files_def filter_empty_conv)

lemma reconcile_nothing [simp]: "reconcileDeleted h env ctxErr now [] d = (None, d)"
  by (simp add: reconcileDeleted_def)

lemma quiet_scan:
  assumes "scan_walk r fs mtimes now = Inr st" "fst ` set (rl_modTimes r) \<subseteq> set (sc_seen st)"
    and "\<forall>p \<in> set (sc_seen st). \<not> due r mtimes now p"
  shows "scan h env1 env2 ctxErr fs mtimes parseBytes now r d = (NoChanges, r, d)"
  using assms scan_walk_Inr(2) [OF assms(1)]
  by (simp add: scan_def Let_def forget_nothing deleted_nothing filter_empty_conv)

lemma scan_keys:
  assumes "scan h env1 env2 ctxErr fs mtimes parseBytes now r d = (out, r', d')" "scan_walk r fs mtimes now = Inr st"
  shows "fst ` set (rl_modTimes r') \<subseteq> set (sc_seen st)" "rl_dir r' = rl_dir r" "rl_ignore r' = rl_ignore r" "rl_settle r' = rl_settle r"
proof -
  from assms(1) have "rl_dir r' = rl_dir r \<and> rl_ignore r' = rl_ignore r \<and> rl_settle r' = rl_settle r"
    by (cases rule: scan_cases) simp_all
  then show "rl_dir r' = rl_dir r" "rl_ignore r' = rl_ignore r" "rl_settle r' = rl_settle r" by simp_all
  show "fst ` set (rl_modTimes r') \<subseteq> set (sc_seen st)"
  proof
    fix p
    assume "p \<in> fst ` set (rl_modTimes r')"
    then have "map_of (rl_modTimes r') p \<noteq> None" by (simp add: map_of_eq_None_iff)
    with scan_records [OF assms order_refl, of p] show "p \<in> set (sc_seen st)" by (auto split: if_splits)
  qed
qed

text \<open>C11: the loop settles: when a scan has compiled what changed, or found nothing, and every file it saw had
  settled, then scanning the same files again later changes neither the loop nor the store, whatever the
  engine would do.\<close>

theorem scan_settles:
  assumes "scan h env1 env2 ctxErr fs mtimes parseBytes now r d = (out, r', d')"
    and "out = NoChanges \<or> (\<exists>res. out = Applied res)" "scan_walk r fs mtimes now = Inr st"
    and "\<forall>p \<in> set (sc_seen st). \<forall>t. mtimes p = Some t \<longrightarrow> rl_settle r \<le> now - t"
  shows "scan h env3 env4 ctxErr fs mtimes parseBytes later r' d' = (NoChanges, r', d')"
proof -
  note keys = scan_keys [OF assms(1, 3)]
  have not_due: "\<not> due r' mtimes later p" if p: "p \<in> set (sc_seen st)" for p
  proof (cases "mtimes p")
    case (Some t)
    with assms(4) p have settled: "rl_settle r \<le> now - t" by simp
    show ?thesis
    proof (cases "due r mtimes now p")
      case True
      then have "sc_changed st \<noteq> []" using scan_walk_Inr(2) [OF assms(3)] p by (auto simp: filter_empty_conv)
      with assms(1-3) have "\<exists>res. out = Applied res" by (cases rule: scan_cases) auto
      with scan_records [OF assms(1, 3) order_refl, of p] p True Some show ?thesis by (simp add: due_def)
    next
      case False
      with Some settled have "map_of (rl_modTimes r) p \<noteq> None \<and> t \<le> the (map_of (rl_modTimes r) p)"
        by (auto simp: due_def split: option.splits)
      with scan_records [OF assms(1, 3) order_refl, of p] p False Some show ?thesis
        by (auto simp: due_def split: option.splits)
    qed
  qed (simp add: due_def)
  obtain st2 where st2: "scan_walk r' fs mtimes later = Inr st2" "sc_seen st2 = sc_seen st"
    using scan_walk_again [OF assms(3) keys(2,3)] by blast
  show ?thesis by (rule quiet_scan [OF st2(1)]) (use keys(1) st2(2) not_due in auto)
qed

section \<open>Deleted files\<close>

definition rows_of_files :: "string list \<Rightarrow> db \<Rightarrow> string set" where
  "rows_of_files files d = c_id ` {x \<in> set (t_nodes d). c_source_file x \<in> set files}"

lemma GetNodesByFiles_ids: "files \<noteq> [] \<Longrightarrow> nID ` set (GetNodesByFiles d files) = rows_of_files files d"
  by (auto simp: GetNodesByFiles_def select_nodes_def rows_of_files_def scanNode_def image_iff)

lemma purge_body:
  assumes "db_ok d" "files \<noteq> []" "hash \<notin> s_cursor_hash ` set (t_snapshots d)"
  shows "\<exists>d'. emit_body now [] (map rem_delta (GetNodesByFiles d files)) hash m [] d = Inr d' \<and> db_ok d'
    \<and> set (t_nodes d') \<subseteq> set (t_nodes d) \<and> (\<forall>x \<in> set (t_nodes d'). c_source_file x \<notin> set files)
    \<and> (\<forall>i. \<not> below (t_nodes d) (rows_of_files files d) i \<longrightarrow> get_row (t_nodes d') i = get_row (t_nodes d) i)"
proof -
  let ?ns = "GetNodesByFiles d files" and ?ds = "map rem_delta (GetNodesByFiles d files)"
  let ?rows = "foldl (\<lambda>rows i. delete_cascade [i] rows) (t_nodes d) (map NodeID ?ds)"
  have ids: "set (map NodeID ?ds) = rows_of_files files d"
    using GetNodesByFiles_ids [OF assms(2)] by (simp add: rem_delta_def image_image)
  have ok: "nodes_ok (t_nodes d)" using assms(1) by (simp add: db_ok_def)
  note del = delete_list [OF ok, of "map NodeID ?ds"]
  have "apply_deltas now (buildNodeMap []) ?ds d = Inr (d\<lparr>t_nodes := ?rows\<rparr>)"
    by (rule apply_removals) (simp add: rem_delta_def)
  from record_transaction [OF assms(3) this, of m "[]"] obtain d' where
    d': "emit_body now [] ?ds hash m [] d = Inr d'" "t_nodes d' = ?rows" by blast
  have "c_source_file x \<notin> set files" if x: "x \<in> set (t_nodes d')" for x
  proof
    assume "c_source_file x \<in> set files"
    moreover have "x \<in> set (t_nodes d)" using del x d'(2) by auto
    ultimately have "c_id x \<in> set (map NodeID ?ds)" unfolding ids by (auto simp: rows_of_files_def)
    with del have "get_row (t_nodes d') (c_id x) = None" unfolding d'(2) by blast
    with x show False by (auto simp: get_row_None ids_def)
  qed
  with del d' emit_body_ok [OF assms(1) d'(1)] show ?thesis unfolding ids by (intro exI [of _ d'] conjI) auto
qed

text \<open>C32: purging deleted files removes exactly what is left of them: on an engine that does not refuse, and
  unless the same removal is already recorded, no node of a deleted file remains, and every node that is
  neither in one nor below a node of one is as it was.\<close>

theorem purge_exact:
  assumes "db_ok d" "files \<noteq> []"
    and "CursorHashFlat h (map rem_node (GetNodesByFiles d files)) \<notin> s_cursor_hash ` set (t_snapshots d)"
  shows "\<exists>d'. reconcileDeleted h fair_env ctxErr now files d = (None, d') \<and> db_ok d'
    \<and> set (t_nodes d') \<subseteq> set (t_nodes d) \<and> (\<forall>x \<in> set (t_nodes d'). c_source_file x \<notin> set files)
    \<and> (\<forall>i. \<not> below (t_nodes d) (rows_of_files files d) i \<longrightarrow> get_row (t_nodes d') i = get_row (t_nodes d) i)"
proof (cases "GetNodesByFiles d files = []")
  case True
  then have "\<forall>x \<in> set (t_nodes d). c_source_file x \<notin> set files"
    using assms(2) by (auto simp: GetNodesByFiles_def select_nodes_def filter_empty_conv)
  with True assms show ?thesis by (simp add: reconcileDeleted_def)
next
  case False
  let ?m = "''rescan: purged '' @ itoa_nat (length files) @ '' files''"
  from purge_body [OF assms, of now ?m] obtain d' where
    d': "emit_body now [] (map rem_delta (GetNodesByFiles d files)) (CursorHashFlat h (map rem_node (GetNodesByFiles d files))) ?m [] d = Inr d'"
    "db_ok d'" "set (t_nodes d') \<subseteq> set (t_nodes d)" "\<forall>x \<in> set (t_nodes d'). c_source_file x \<notin> set files"
    "\<forall>i. \<not> below (t_nodes d) (rows_of_files files d) i \<longrightarrow> get_row (t_nodes d') i = get_row (t_nodes d) i" by blast
  have "reconcileDeleted h fair_env ctxErr now files d = (None, d')"
    using Emit_fair [OF d'(1), of ctxErr] False assms(2) by (simp add: reconcileDeleted_def Let_def)
  with d' show ?thesis by blast
qed


section \<open>Examples\<close>

definition watch :: "(string \<times> int) list \<Rightarrow> RescanLoop" where
  "watch m = \<lparr>rl_dir = ''/v'', rl_interval = 1, rl_settle = 5, rl_modTimes = m, rl_ignore = None\<rparr>"

lemma watch_walk:
  "scan_walk (watch []) sample_fs (\<lambda>p. Some 3) 10 = Inr \<lparr>sc_changed = [''/v/a.md''], sc_seen = [''/v/a.md''], sc_pending = [(''/v/a.md'', 3)]\<rparr>"
  "scan_walk (watch [(''/v/a.md'', 3), (''/v/b.md'', 3)]) sample_fs (\<lambda>p. Some 3) 10 = Inr \<lparr>sc_changed = [], sc_seen = [''/v/a.md''], sc_pending = []\<rparr>"
  by code_simp+

lemma first_scan:
  assumes "Compile h env2 ctxErr 10 (fs_read sample_fs) parseBytes (rescan_options [''/v/a.md''] ''/v'') d = (res, d')"
  shows "\<exists>r'. scan h env1 env2 ctxErr sample_fs (\<lambda>p. Some 3) parseBytes 10 (watch []) d
    = ((case res of Inl e \<Rightarrow> CompileFailed e | Inr x \<Rightarrow> Applied x), r', d')"
proof -
  have "rl_dir (watch []) = ''/v''" "deleted_files (watch []) [''/v/a.md''] = []" by (simp_all add: watch_def deleted_files_def)
  with assms show ?thesis by (simp add: scan_def watch_walk Let_def split: sum.splits)
qed

theorem scan_loses_no_edit_witness:
  "\<exists>e r'. scan len_hash fair_env fair_env NoRows sample_fs (\<lambda>p. Some 3) (\<lambda>p data. Inl NoRows) 10 (watch []) empty_db = (CompileFailed e, r', empty_db)
     \<and> due r' (\<lambda>p. Some 3) 99 ''/v/a.md''"
proof -
  have f: "compile_files (compile_file (fs_read sample_fs) (\<lambda>p data. Inl NoRows) Map.empty) [''/v/a.md''] = Inl (Errorf (''failed to parse: /v/a.md'') NoRows)"
    by (simp add: compile_file_def sample_fs_def)
  obtain e r' where s: "scan len_hash fair_env fair_env NoRows sample_fs (\<lambda>p. Some 3) (\<lambda>p data. Inl NoRows) 10 (watch []) empty_db = (CompileFailed e, r', empty_db)"
  proof -
    have "Compile len_hash fair_env NoRows 10 (fs_read sample_fs) (\<lambda>p data. Inl NoRows) (rescan_options [''/v/a.md''] ''/v'') empty_db
        = (Inl (Errorf (''failed to parse: /v/a.md'') NoRows), empty_db)"
      unfolding Compile_def rescan_options_def compile_options.simps f by simp
    from first_scan [OF this] that show thesis by auto
  qed
  have "due (watch []) (\<lambda>p. Some 3) 10 ''/v/a.md''" by code_simp
  with scan_loses_no_edit [OF s watch_walk(1), of 99 "''/v/a.md''"] s show ?thesis by auto
qed

theorem scan_settles_witness:
  "\<exists>res r'. scan len_hash fair_env fair_env NoRows sample_fs (\<lambda>p. Some 3) (\<lambda>p data. Inr []) 10 (watch []) empty_db = (Applied res, r', empty_db)
     \<and> scan len_hash fair_env fair_env NoRows sample_fs (\<lambda>p. Some 3) (\<lambda>p data. Inr []) 40 r' empty_db = (NoChanges, r', empty_db)"
proof -
  have c: "Compile len_hash fair_env NoRows 10 (fs_read sample_fs) (\<lambda>p data. Inr []) (rescan_options [''/v/a.md''] ''/v'') empty_db
      = (Inr (countResult []), empty_db)"
    by (simp add: Compile_def compile_file_def sample_fs_def rescan_options_def compile_roots_def Let_def buildPrevState_def
        loadPrevNodes_def GetNodesByFiles_def Emit_def DiffFlat_def flat_data_def Transform_def uniqueFilesFlat_def)
  obtain res r' where s: "scan len_hash fair_env fair_env NoRows sample_fs (\<lambda>p. Some 3) (\<lambda>p data. Inr []) 10 (watch []) empty_db = (Applied res, r', empty_db)"
    using first_scan [OF c, of fair_env] by auto
  have "scan len_hash fair_env fair_env NoRows sample_fs (\<lambda>p. Some 3) (\<lambda>p data. Inr []) 40 r' empty_db = (NoChanges, r', empty_db)"
    by (rule scan_settles [OF s _ watch_walk(1)]) (auto simp: watch_def)
  with s show ?thesis by blast
qed

definition stale_row :: row where
  "stale_row = insert_row 5 (nodeFromContext (zero_data\<lparr>ID := ''n1'', SourceFile := ''b.md'', Content := ''old'', Hash := ''t''\<rparr>))"

lemma stale_row [simp]: "c_id stale_row = ''n1''" "c_parent_id stale_row = None" "c_content_hash stale_row = ''t''" "c_source_file stale_row = ''b.md''"
  by (simp_all add: stale_row_def insert_row_def nodeFromContext_def parentIDParam_def zero_data_def)

lemma stale_db_ok: "db_ok (empty_db\<lparr>t_nodes := [stale_row]\<rparr>)"
  by (simp add: db_ok_def nodes_ok_def history_ok_def empty_db_def fk_ok_def)

theorem purge_exact_witness:
  "\<exists>d'. reconcileDeleted len_hash fair_env NoRows 9 [''b.md''] (empty_db\<lparr>t_nodes := [stale_row]\<rparr>) = (None, d') \<and> t_nodes d' = []"
proof -
  let ?d = "empty_db\<lparr>t_nodes := [stale_row]\<rparr>"
  have "CursorHashFlat len_hash (map rem_node (GetNodesByFiles ?d [''b.md''])) \<notin> s_cursor_hash ` set (t_snapshots ?d)"
    by (simp add: empty_db_def)
  from purge_exact [OF stale_db_ok _ this, of NoRows 9] obtain d' where
    d': "reconcileDeleted len_hash fair_env NoRows 9 [''b.md''] ?d = (None, d')"
    "set (t_nodes d') \<subseteq> {stale_row}" "\<forall>x \<in> set (t_nodes d'). c_source_file x \<notin> set [''b.md'']" by auto
  from d'(2,3) have "t_nodes d' = []" by (cases "t_nodes d'") auto
  with d'(1) show ?thesis by blast
qed

definition refusing :: "nat \<Rightarrow> attempt_env" where
  "refusing k = \<lparr>begin_error = Some NoRows, commit_error = None, sleep_done = True\<rparr>"


end
