(* ===== verification/Incremental.thy ===== *)
theory Incremental
  imports Rescan
begin

text \<open>
  Compiling only what changed, as the rescan loop does: the previous state is what the store holds of the
  files compiled, so other files must stay as they are. That rests on identifiers telling files apart
  and on every node's ancestors being of its own file, as the parsers build them.
\<close>

section \<open>The rows of the files compiled\<close>

definition file_chains :: "chain set \<Rightarrow> bool" where
  \<comment> \<open>a node's ancestors are of its file\<close>
  "file_chains X \<longleftrightarrow> (\<forall>x \<in> X. tl x \<noteq> [] \<longrightarrow> tl x \<in> X \<and> fst (hd (tl x)) = fst (hd x))"

definition ids_of_files :: "string set \<Rightarrow> db \<Rightarrow> string set" where
  "ids_of_files F d = c_id ` {x \<in> set (t_nodes d). c_source_file x \<in> F}"

lemma ids_of_filesE:
  assumes "i \<in> ids_of_files F d"
  obtains x where "x \<in> set (t_nodes d)" "c_id x = i" "c_source_file x \<in> F"
  using assms by (auto simp: ids_of_files_def)

lemma below_same_file:
  assumes "tracked h X C rows" "inj_on (idof (IdentifyNode h)) X" "file_chains X"
    and "S \<subseteq> c_id ` {x \<in> set rows. c_source_file x \<in> F}"
  shows "below rows S i \<Longrightarrow> i \<in> c_id ` {x \<in> set rows. c_source_file x \<in> F}"
proof (induction rule: below.induct)
  case (below_base i)
  with assms(4) show ?case by blast
next
  case (below_step r p)
  then obtain q where q: "q \<in> set rows" "c_source_file q \<in> F" "c_id q = p" by blast
  from assms(1) below_step.hyps(1) obtain x where x: "x \<in> X" "c_parent_id r = parentIDParam (idof (IdentifyNode h) (tl x))"
    "c_source_file r = fst (hd x)" by (auto simp: tracked_def)
  from assms(1) q(1) obtain y where y: "y \<in> X" "p = idof (IdentifyNode h) y" "c_source_file q = fst (hd y)"
    using q(3) by (auto simp: tracked_def)
  have p: "p = idof (IdentifyNode h) (tl x)" "p \<noteq> []"
    using below_step.hyps(2) x(2) by (auto simp: parentIDParam_def split: if_splits)
  then have "tl x \<noteq> []" by auto
  with assms(3) x(1) have up: "tl x \<in> X" "fst (hd (tl x)) = fst (hd x)" by (auto simp: file_chains_def)
  with p y assms(2) have "tl x = y" by (auto dest: inj_onD)
  with up(2) x(3) y(3) q(2) have "c_source_file r \<in> F" by simp
  with below_step.hyps(1) show ?case by blast
qed

section \<open>Compiling some files\<close>

lemma partial_prev:
  assumes "nodes_ok (t_nodes d)"
  shows "fst ` set (buildPrevState d flat False croot) = ids_of_files (SourceFile ` set flat) d"
  by (simp add: dom_buildPrevState [OF assms]) (auto simp: prev_rows_def ids_def ids_of_files_def)

lemma partial_ready:
  assumes inv: "compile_inv h X C croot d" and cf: "collision_free h X C" "forest_in h X C croot roots"
    and "hash \<notin> s_cursor_hash ` set (t_snapshots d)"
  shows "emit_ready (Transform h roots croot) (buildPrevState d (flat_data (Transform h roots croot)) False croot) hash d"
proof -
  let ?flat = "flat_data (Transform h roots croot)"
  let ?prev = "buildPrevState d ?flat False croot"
  have tr: "tracked h X C (t_nodes d)" and ok: "nodes_ok (t_nodes d)"
    using inv by (simp_all add: compile_inv_def db_ok_def)
  have table: "prev_of_table ?prev (t_nodes d)" by (rule prev_of_table_build [OF ok])
  have "hash_faithful ?flat ?prev"
    by (rule tracked_hash_faithful [OF cf tr]) (rule prev_of_tableD [OF table])
  moreover have "parents_stable ?flat ?prev (t_nodes d)"
    by (rule tracked_parents_stable [OF cf tr]) (auto simp: partial_prev [OF ok] ids_of_files_def ids_def)
  ultimately show ?thesis
    using compile_distinct [OF cf] Transform_parents_first table inv assms(4)
    by (simp add: emit_ready_def compile_inv_def)
qed

lemma partial_view:
  fixes roots croot h
  defines "ns \<equiv> Transform h roots croot"
  assumes inv: "compile_inv h X C croot d" and "file_chains X"
    and cf: "collision_free h X C" "forest_in h X C croot roots"
    and body: "emit_body now ns (Diff ns (buildPrevState d (flat_data ns) False croot)) hash m croot d = Inr d'"
    and i: "i \<notin> ID ` set (flat_data ns)"
  shows "view (t_nodes d') i = (if i \<in> ids_of_files (SourceFile ` set (flat_data ns)) d then None else view (t_nodes d) i)"
proof -
  let ?flat = "flat_data ns" and ?F = "SourceFile ` set (flat_data ns)"
  have ok: "nodes_ok (t_nodes d)" and tr: "tracked h X C (t_nodes d)" using inv by (simp_all add: compile_inv_def db_ok_def)
  have ready: "emit_ready ns (buildPrevState d ?flat False croot) hash d"
    unfolding ns_def by (rule partial_ready [OF inv cf emit_body_fresh [OF body]])
  note e = emit_view [OF ready body, unfolded partial_prev [OF ok]]
  have "inj_on (idof (IdentifyNode h)) X" using cf(1) by (simp add: collision_free_def)
  note same = below_same_file [OF tr this \<open>file_chains X\<close>, of "ids_of_files ?F d - ID ` set ?flat" ?F i]
  show ?thesis
  proof (cases "i \<in> ids_of_files ?F d")
    case True
    with e(2) i show ?thesis by simp
  next
    case False
    then have "\<not> below (t_nodes d) (ids_of_files ?F d - ID ` set ?flat) i"
      using same by (auto simp: ids_of_files_def)
    with e(3) i False show ?thesis by simp
  qed
qed

lemma partial_sync:
  fixes roots croot h
  defines "ns \<equiv> Transform h roots croot"
  assumes inv: "compile_inv h X C croot d" and "file_chains X"
    and cf: "collision_free h X C" "forest_in h X C croot roots"
    and "oCompileRoot opts = croot" "\<not> oFullRescan opts"
    and "compile_roots h env ctxErr now opts roots d = (Inr r, d')"
  shows "view (t_nodes d') i =
    (case map_of (SnapshotFromNodes ns) i of Some st \<Rightarrow> Some st
     | None \<Rightarrow> if i \<in> ids_of_files (SourceFile ` set (flat_data ns)) d then None else view (t_nodes d) i)"
proof -
  let ?flat = "flat_data ns"
  let ?prev = "buildPrevState d ?flat False croot"
  have ok: "nodes_ok (t_nodes d)" and tr: "tracked h X C (t_nodes d)" using inv by (simp_all add: compile_inv_def db_ok_def)
  have dist: "distinct (map ID ?flat)" unfolding ns_def by (rule compile_distinct [OF cf])
  from compile_roots_cases [OF assms(8)] assms(6,7)
  consider "Diff ns ?prev = []" "d' = d"
    | hash m where "emit_body now ns (Diff ns ?prev) hash m croot d = Inr d'"
    unfolding ns_def by auto
  then show ?thesis
  proof cases
    case 1
    have table: "prev_of_table ?prev (t_nodes d)" by (rule prev_of_table_build [OF ok])
    have "hash_faithful ?flat ?prev"
      unfolding ns_def by (rule tracked_hash_faithful [OF cf tr]) (rule prev_of_tableD [OF table [unfolded ns_def]])
    from apply_DiffFlat [OF dist distinct_buildPrevState this] 1(1) have prev: "map_of ?prev = states ?flat"
      by (simp add: Diff_def)
    have "ids_of_files (SourceFile ` set ?flat) d = dom (map_of ?prev)"
      by (simp add: dom_map_of_conv_image_fst partial_prev [OF ok])
    with prev_of_tableD [OF table] 1(2) show ?thesis
      by (auto simp: Snapshot_states [OF dist] prev split: option.splits)
  next
    case (2 hash m)
    show ?thesis
    proof (cases "i \<in> ID ` set ?flat")
      case True
      have ready: "emit_ready ns ?prev hash d"
        unfolding ns_def by (rule partial_ready [OF inv cf emit_body_fresh [OF 2]])
      from emit_view(1) [OF ready 2] True states_member [OF dist] show ?thesis
        by (auto simp: Snapshot_states [OF dist])
    next
      case False
      from partial_view [OF inv \<open>file_chains X\<close> cf 2 [unfolded ns_def], folded ns_def, OF False] False show ?thesis
        by (simp add: Snapshot_states [OF dist] states_None)
    qed
  qed
qed

text \<open>C5: compiling only some files synchronises the database with just those files: from any database that
  earlier compilations, removals and temperature updates can produce, a compilation without the full rescan
  flag that reports success leaves every node of the compiled forest with its content and hash, removes
  every other node stored for those files, and leaves every node of every other file as it was; one
  that reports an error changes nothing.\<close>

theorem Compile_incremental:
  assumes "reachable h X C croot d" "file_chains X" "collision_free h X C" "forest_in h X C croot roots"
    and "oCompileRoot opts = croot" "\<not> oFullRescan opts"
    and "compile_roots h env ctxErr now opts roots d = (res, d')"
  shows "(\<forall>r. res = Inr r \<longrightarrow> (\<forall>i. view (t_nodes d') i =
      (case map_of (SnapshotFromNodes (Transform h roots croot)) i of Some st \<Rightarrow> Some st
       | None \<Rightarrow> if i \<in> ids_of_files (SourceFile ` set (flat_data (Transform h roots croot))) d then None
                 else view (t_nodes d) i)))
    \<and> (\<forall>e. res = Inl e \<longrightarrow> d' = d)"
proof -
  note inv = reachable_inv [OF assms(1)]
  have "\<forall>e. res = Inl e \<longrightarrow> d' = d" using compile_roots_cases [OF assms(7)] by auto
  with partial_sync [OF inv assms(2-6)] assms(7) show ?thesis by blast
qed

text \<open>Files that have become empty have no node that names them, so compiling only those changes nothing.\<close>

lemma emptied_file_keeps_nodes:
  "\<not> oFullRescan opts \<Longrightarrow>
    compile_roots h env ctxErr now opts [] d = (Inr \<lparr>Added = 0, Modified = 0, Removed' = 0, Total = 0\<rparr>, d)"
  by (simp add: compile_roots_def Let_def Transform_def flat_data_def buildPrevState_def loadPrevNodes_def
      GetNodesByFiles_def uniqueFilesFlat_def DiffFlat_def Emit_def countResult_def)

section \<open>A forest in two parts\<close>

lemma map_nodes_append: "map_nodes f (xs @ ys) = map_nodes f xs @ map_nodes f ys"
  by (induction f xs rule: map_nodes.induct) simp_all

lemma compressPrefix_append:
  "croot \<noteq> [] \<Longrightarrow> compressPrefix (xs @ ys) croot = compressPrefix xs croot @ compressPrefix ys croot"
  by (simp add: compressPrefix_def prefix_to_strip_root Let_def map_nodes_append)

definition root_files :: "ContextNode list \<Rightarrow> string set" where
  "root_files ns = (\<lambda>n. SourceFile (nd n)) ` set ns"

lemma root_files_simps [simp]: "root_files [] = {}" "root_files (CNode n cs # ns) = insert (SourceFile n) (root_files ns)"
  by (simp_all add: root_files_def)

lemma root_files_flat: "root_files ns \<subseteq> SourceFile ` set (flat_data ns)"
  by (induction ns rule: forest_induct) auto

lemma wire_top_cong:
  "(\<And>f. f \<in> root_files ns \<Longrightarrow> pf f = pf' f) \<Longrightarrow> wireIdentity ident [] pf i ns = wireIdentity ident [] pf' i' ns"
proof (induction ns arbitrary: pf pf' rule: forest_induct)
  case (Node n cs ns)
  have "wireIdentity ident [] (pf(SourceFile n := pf (SourceFile n) + 1)) i ns
      = wireIdentity ident [] (pf'(SourceFile n := pf (SourceFile n) + 1)) i' ns"
    by (rule Node.IH(2)) (use Node.prems in simp)
  with Node.prems [of "SourceFile n"] show ?case by (simp add: Let_def)
qed simp

lemma wire_top_append:
  "root_files xs \<inter> root_files ys = {} \<Longrightarrow>
    wireIdentity ident [] pf i (xs @ ys) = wireIdentity ident [] pf i xs @ wireIdentity ident [] pf i ys"
proof (induction xs arbitrary: pf rule: forest_induct)
  case (Node n cs ns)
  have "wireIdentity ident [] (pf(SourceFile n := k)) i ys = wireIdentity ident [] pf i ys" for k
    by (rule wire_top_cong) (use Node.prems in auto)
  with Node.IH(2) Node.prems show ?case by (simp add: Let_def)
qed simp

abbreviation files_of :: "ContextNode list \<Rightarrow> string set" where
  "files_of ns \<equiv> SourceFile ` set (flat_data ns)"

lemma Transform_append:
  assumes "croot \<noteq> []" "files_of (Transform h xs croot) \<inter> files_of (Transform h ys croot) = {}"
  shows "Transform h (xs @ ys) croot = Transform h xs croot @ Transform h ys croot"
proof -
  let ?m = "\<lambda>ns. map_nodes (enrich h) (compressPrefix (map_nodes compress ns) croot)"
  have "set (map SourceFile (flat_data (?m xs))) \<inter> set (map SourceFile (flat_data (?m ys))) = {}"
    using assms(2) unfolding set_map Transform_eq by (metis flat_sources_wire set_map)
  then have "root_files (?m xs) \<inter> root_files (?m ys) = {}"
    using root_files_flat [of "?m xs"] root_files_flat [of "?m ys"] by auto
  from wire_top_append [OF this, of "IdentifyNode h" "\<lambda>_. 0" 0] show ?thesis
    by (simp add: Transform_eq map_nodes_append compressPrefix_append [OF assms(1)])
qed

section \<open>Compiling the changed files is compiling everything\<close>

lemma same_id_same_file:
  assumes "collision_free h X C" "forest_in h X C croot ns" "n \<in> set (flat_data (Transform h ns croot))"
    and "x \<in> X" "ID n = idof (IdentifyNode h) x"
  shows "SourceFile n = fst (hd x)"
proof -
  from Transform_chain [OF assms(3)] assms(2) obtain y where "y \<in> X" "ID n = idof (IdentifyNode h) y" "SourceFile n = fst (hd y)"
    by (auto simp: forest_in_def)
  with assms(1,4,5) show ?thesis by (auto simp: collision_free_def dest: inj_onD)
qed

lemma row_of_forest:
  assumes "tracked h X C rows" "collision_free h X C" "forest_in h X C croot ns"
    and "n \<in> set (flat_data (Transform h ns croot))" "r \<in> set rows" "c_id r = ID n"
  shows "c_source_file r = SourceFile n"
proof -
  from assms(1,5) obtain x where "x \<in> X" "c_id r = idof (IdentifyNode h) x" "c_source_file r = fst (hd x)"
    by (auto simp: tracked_def)
  with same_id_same_file [OF assms(2-4), of x] assms(6) show ?thesis by simp
qed

lemma ids_of_files_node:
  assumes "tracked h X C (t_nodes d)" "collision_free h X C" "forest_in h X C croot ns"
    and "n \<in> set (flat_data (Transform h ns croot))"
  shows "ID n \<in> ids_of_files F d \<longleftrightarrow> view (t_nodes d) (ID n) \<noteq> None \<and> SourceFile n \<in> F"
proof -
  note sf = row_of_forest [OF assms]
  show ?thesis
  proof
    assume "ID n \<in> ids_of_files F d"
    then obtain x where x: "x \<in> set (t_nodes d)" "c_id x = ID n" "c_source_file x \<in> F" by (auto simp: ids_of_files_def)
    then have "ID n \<in> set (ids (t_nodes d))" unfolding ids_def set_map by (metis imageI)
    then have "view (t_nodes d) (ID n) \<noteq> None" by (auto simp: view_def get_row_None)
    with sf [OF x(1,2)] x(3) show "view (t_nodes d) (ID n) \<noteq> None \<and> SourceFile n \<in> F" by simp
  next
    assume r: "view (t_nodes d) (ID n) \<noteq> None \<and> SourceFile n \<in> F"
    then obtain x where x: "x \<in> set (t_nodes d)" "c_id x = ID n" by (auto simp: view_def dest: get_row_Some)
    from sf [OF this] x r have "x \<in> {x \<in> set (t_nodes d). c_source_file x \<in> F}" by simp
    then show "ID n \<in> ids_of_files F d" unfolding ids_of_files_def x(2) [symmetric] by (rule imageI)
  qed
qed

lemma ids_disjoint:
  assumes "collision_free h X C" "forest_in h X C croot xs" "forest_in h X C croot ys"
    and "files_of (Transform h xs croot) \<inter> files_of (Transform h ys croot) = {}"
  shows "ID ` set (flat_data (Transform h xs croot)) \<inter> ID ` set (flat_data (Transform h ys croot)) = {}"
proof -
  have False if n: "n \<in> set (flat_data (Transform h xs croot))" "m \<in> set (flat_data (Transform h ys croot))" "ID n = ID m" for n m
  proof -
    from Transform_chain [OF n(2)] assms(3) obtain x where x: "x \<in> X" "ID m = idof (IdentifyNode h) x" "SourceFile m = fst (hd x)"
      by (auto simp: forest_in_def)
    with same_id_same_file [OF assms(1,2) n(1)] n(3) have "SourceFile n = SourceFile m" by simp
    with n(1,2) assms(4) show False by (metis IntI empty_iff image_eqI)
  qed
  then show ?thesis by blast
qed

lemma states_append: "states (xs @ ys) i = (case states xs i of None \<Rightarrow> states ys i | Some st \<Rightarrow> Some st)"
  by (simp add: states_def map_add_def split: option.split)

lemma states_Some_iff: "states flat i \<noteq> None \<longleftrightarrow> i \<in> ID ` set flat"
  using dom_states [of flat] by blast

lemma append_snapshot:
  assumes "croot \<noteq> []" "collision_free h X C" "forest_in h X C croot xs" "forest_in h X C croot ys"
    and "files_of (Transform h xs croot) \<inter> files_of (Transform h ys croot) = {}"
  shows "map_of (SnapshotFromNodes (Transform h (xs @ ys) croot)) i =
    (case states (flat_data (Transform h xs croot)) i of
       None \<Rightarrow> states (flat_data (Transform h ys croot)) i | Some st \<Rightarrow> Some st)"
proof -
  let ?x = "flat_data (Transform h xs croot)" and ?y = "flat_data (Transform h ys croot)"
  have flat: "flat_data (Transform h (xs @ ys) croot) = ?x @ ?y"
    by (simp add: Transform_append [OF assms(1,5)] flat_data_append)
  have "distinct (map ID (?x @ ?y))"
    using compile_distinct [OF assms(2,3)] compile_distinct [OF assms(2,4)] ids_disjoint [OF assms(2-5)] by simp
  from Snapshot_states [OF this [folded flat]] show ?thesis by (simp add: flat states_append)
qed

lemma incremental_full:
  assumes "reachable h X C croot d" "file_chains X" "collision_free h X C" "croot \<noteq> []"
    and "forest_in h X C croot rest" "forest_in h X C croot old" "forest_in h X C croot new"
    and "files_of (Transform h rest croot) \<inter> files_of (Transform h new croot) = {}"
    and "files_of (Transform h old croot) \<subseteq> files_of (Transform h new croot)"
    and "view (t_nodes d) = map_of (SnapshotFromNodes (Transform h (rest @ old) croot))"
    and "oCompileRoot opts = croot" "\<not> oFullRescan opts"
    and "compile_roots h env ctxErr now opts new d = (Inr r, d')"
  shows "view (t_nodes d') i = map_of (SnapshotFromNodes (Transform h (rest @ new) croot)) i"
proof -
  let ?rest = "flat_data (Transform h rest croot)" and ?old = "flat_data (Transform h old croot)" and ?new = "flat_data (Transform h new croot)"
  note inv = reachable_inv [OF assms(1)]
  then have tr: "tracked h X C (t_nodes d)" by (simp add: compile_inv_def)
  have old_rest: "files_of (Transform h rest croot) \<inter> files_of (Transform h old croot) = {}" using assms(8,9) by blast
  note before = append_snapshot [OF assms(4,3,5,6) old_rest, of i]
  note after = append_snapshot [OF assms(4,3,5,7,8), of i]
  have new: "map_of (SnapshotFromNodes (Transform h new croot)) i = states ?new i"
    by (simp add: Snapshot_states [OF compile_distinct [OF assms(3,7)]])
  note here = partial_sync [OF inv assms(2,3,7,11,12,13), of i, unfolded new]
  have apart: "i \<notin> ID ` set ?new" if "i \<in> ID ` set ?rest"
    using that ids_disjoint [OF assms(3,5,7,8)] by blast
  show "view (t_nodes d') i = map_of (SnapshotFromNodes (Transform h (rest @ new) croot)) i"
  proof (cases "i \<in> ID ` set ?new")
    case True
    then have "states ?rest i = None" using apart by (auto intro: states_None)
    moreover have "states ?new i \<noteq> None" using True states_Some_iff by blast
    ultimately show ?thesis using here after by auto
  next
    case out: False
    have rest: "i \<notin> ids_of_files (files_of (Transform h new croot)) d" if "i \<in> ID ` set ?rest"
      using that assms(8) by (auto simp: ids_of_files_node [OF tr assms(3,5)])
    have "i \<in> ids_of_files (files_of (Transform h new croot)) d \<longleftrightarrow> view (t_nodes d) i \<noteq> None" if "i \<in> ID ` set ?old"
      using that assms(9) by (auto simp: ids_of_files_node [OF tr assms(3,6)])
    with out here after before rest states_Some_iff [of ?old i] states_Some_iff [of ?rest i] assms(10) show ?thesis
      by (auto simp: states_None split: option.splits if_splits)
  qed
qed

text \<open>Compiling what changed is as good as compiling everything: when the store mirrors a directory
  and some of its files are edited or added, compiling those files alone leaves the store as compiling
  the whole new directory would. The files compiled must be the ones that differ, and each must still have a
  node: of a file that has become empty the old nodes stay.\<close>

theorem Compile_incremental_is_full:
  assumes "reachable h X C croot d" "file_chains X" "collision_free h X C" "croot \<noteq> []"
    and "forest_in h X C croot rest" "forest_in h X C croot old" "forest_in h X C croot new"
    and "files_of (Transform h rest croot) \<inter> files_of (Transform h new croot) = {}"
    and "files_of (Transform h old croot) \<subseteq> files_of (Transform h new croot)"
    and "view (t_nodes d) = map_of (SnapshotFromNodes (Transform h (rest @ old) croot))"
    and "oCompileRoot opts = croot" "\<not> oFullRescan opts"
    and "compile_roots h env ctxErr now opts new d = (Inr r, d')"
  shows "view (t_nodes d') = map_of (SnapshotFromNodes (Transform h (rest @ new) croot))"
  using incremental_full [OF assms] by (rule ext)

section \<open>The rescan loop and the store\<close>

definition tick_in :: "(string \<Rightarrow> 64 word) \<Rightarrow> chain set \<Rightarrow> string set \<Rightarrow> (string \<Rightarrow> string \<Rightarrow> error + ContextNode list)
    \<Rightarrow> RescanLoop \<Rightarrow> tick_env \<Rightarrow> bool" where
  \<comment> \<open>whatever part of the files of this tick is compiled, the hash is trusted on it\<close>
  "tick_in h X C parseBytes r k \<longleftrightarrow>
     (\<forall>seen P roots. select_paths (tk_fs k) \<lparr>doIgnore = Some (rl_ignore r), doReseed = False\<rparr> (rl_dir r) = Inr seen \<longrightarrow>
        compile_files (compile_file (fs_read (tk_fs k)) parseBytes Map.empty) (filter P seen) = Inr roots \<longrightarrow>
        forest_in h X C (rl_dir r) roots)"

lemma reconcile_reachable:
  assumes "reachable h X C croot d"
  shows "reachable h X C croot (snd (reconcileDeleted h env ctxErr now deleted d))"
proof -
  have "\<forall>dl \<in> set (map rem_delta ns). Op dl = OpRem" for ns by (simp add: rem_delta_def)
  from reach_purge [OF assms this] assms show ?thesis by (simp add: reconcileDeleted_def Let_def)
qed

lemma scan_reachable:
  assumes "scan h (tk_env1 k) (tk_env2 k) ctxErr (tk_fs k) (tk_mtimes k) parseBytes (tk_now k) r d = (out, r', d')"
    and "reachable h X C (rl_dir r) d" "tick_in h X C parseBytes r k"
  shows "reachable h X C (rl_dir r) d' \<and> rl_dir r' = rl_dir r \<and> rl_ignore r' = rl_ignore r"
proof -
  have compiled: "reachable h X C (rl_dir r) d2"
    if walk: "scan_walk r (tk_fs k) (tk_mtimes k) (tk_now k) = Inr st"
      and c: "Compile h (tk_env2 k) ctxErr (tk_now k) (fs_read (tk_fs k)) parseBytes (rescan_options (sc_changed st) (rl_dir r)) d1 = (res, d2)"
      and r: "reachable h X C (rl_dir r) d1" for st res d1 d2
  proof (cases "compile_files (compile_file (fs_read (tk_fs k)) parseBytes Map.empty) (sc_changed st)")
    case (Inl e)
    with c r show ?thesis by (simp add: Compile_def rescan_options_def)
  next
    case (Inr roots)
    note w = scan_walk_Inr [OF walk]
    have "forest_in h X C (rl_dir r) roots"
      using assms(3) w(1) Inr unfolding tick_in_def select_paths_def w(2) by auto
    from reach_compile [OF r this, of "rescan_options (sc_changed st) (rl_dir r)"] c Inr show ?thesis
      by (simp add: Compile_def rescan_options_def) (metis snd_conv)
  qed
  note gone = reconcile_reachable [OF assms(2)]
  from assms(1) show ?thesis
  proof (cases rule: scan_cases)
    case (failed st e d1)
    with compiled [OF failed(1) failed(6)] gone show ?thesis by simp
  next
    case (applied st res d1)
    with compiled [OF applied(1) applied(6)] gone show ?thesis by simp
  qed (use assms(2) gone in simp_all)
qed

lemma rescan_Run_reachable:
  assumes "reachable h X C (rl_dir r) d" "\<forall>k \<in> set ks. tick_in h X C parseBytes r k"
    and "rescan_Run h ctxErr parseBytes ks r d = (r', d')"
  shows "reachable h X C (rl_dir r) d'"
  using assms
proof (induction ks arbitrary: r d)
  case (Cons k ks)
  obtain out r1 d1 where s: "scan h (tk_env1 k) (tk_env2 k) ctxErr (tk_fs k) (tk_mtimes k) parseBytes (tk_now k) r d = (out, r1, d1)"
    by (cases "scan h (tk_env1 k) (tk_env2 k) ctxErr (tk_fs k) (tk_mtimes k) parseBytes (tk_now k) r d") auto
  from scan_reachable [OF s Cons.prems(1)] Cons.prems(2) have one: "reachable h X C (rl_dir r) d1" "rl_dir r1 = rl_dir r" "rl_ignore r1 = rl_ignore r"
    by auto
  then have "\<forall>k \<in> set ks. tick_in h X C parseBytes r1 k" using Cons.prems(2) by (simp add: tick_in_def)
  from Cons.IH [unfolded one(2), of r1, unfolded one(2), OF one(1) this] Cons.prems(3) show ?case by (simp add: s)
qed simp


section \<open>Witnesses\<close>

text \<open>A directory of two files, of which one is edited.\<close>

definition other_file :: "ContextNode list" where
  "other_file = [CNode (zero_data\<lparr>SourceFile := ''/v/b'', Content := ''z''\<rparr>) []]"

definition edit_chains :: "chain set" where
  "edit_chains = {[(''a'', 0)], [(''b'', 0)]}"

definition edit_texts :: "string set" where
  "edit_texts = {''x'', ''y'', ''z''}"

lemma edit_hash: "collision_free sum_hash edit_chains edit_texts" "file_chains edit_chains"
proof -
  have "idof (IdentifyNode sum_hash) [(''a'', 0)] \<noteq> idof (IdentifyNode sum_hash) [(''b'', 0)]" by code_simp
  moreover have "distinct (map sum_hash [''x'', ''y'', ''z''])" by code_simp
  ultimately show "collision_free sum_hash edit_chains edit_texts"
    by (auto simp: collision_free_def edit_chains_def edit_texts_def)
  show "file_chains edit_chains" by (simp add: file_chains_def edit_chains_def)
qed

lemma edit_chains:
  "forest_chains other_file ''/v'' = [[(''b'', 0)]]"
  "forest_chains (other_file @ one_file ''x'') ''/v'' = [[(''b'', 0)], [(''a'', 0)]]"
  by code_simp+

lemma edit_data:
  "map (\<lambda>n. (SourceFile n, Content n)) (flat_data (Transform sum_hash other_file ''/v'')) = [(''b'', ''z'')]"
  "map (\<lambda>n. (SourceFile n, Content n)) (flat_data (Transform sum_hash (one_file ''x'') ''/v'')) = [(''a'', ''x'')]"
  "map (\<lambda>n. (SourceFile n, Content n)) (flat_data (Transform sum_hash (one_file ''y'') ''/v'')) = [(''a'', ''y'')]"
  "map (\<lambda>n. (SourceFile n, Content n)) (flat_data (Transform sum_hash (other_file @ one_file ''x'') ''/v'')) = [(''b'', ''z''), (''a'', ''x'')]"
  by code_simp+

lemma sources_contents:
  "map (\<lambda>n. (SourceFile n, Content n)) flat = ps \<Longrightarrow> SourceFile ` set flat = fst ` set ps \<and> Content ` set flat = snd ` set ps"
  by (auto simp: image_iff)

lemmas edit_sets = edit_data [THEN sources_contents, THEN conjunct1, simplified]
  edit_data [THEN sources_contents, THEN conjunct2, simplified]

lemma edit_forests:
  "forest_in sum_hash edit_chains edit_texts ''/v'' other_file"
  "forest_in sum_hash edit_chains edit_texts ''/v'' (one_file ''x'')"
  "forest_in sum_hash edit_chains edit_texts ''/v'' (one_file ''y'')"
  "forest_in sum_hash edit_chains edit_texts ''/v'' (other_file @ one_file ''x'')"
  unfolding forest_in_def edit_chains one_file_chains edit_sets
  by (simp_all add: edit_chains_def edit_texts_def)

definition part_options :: compile_options where
  "part_options = scan_options\<lparr>oFullRescan := False\<rparr>"

lemma part_options: "oCompileRoot part_options = ''/v''" "\<not> oFullRescan part_options"
  by (simp_all add: part_options_def scan_options_def)

lemma first_compile:
  assumes "collision_free h X C" "forest_in h X C ''/v'' ns"
  obtains r d1 where "compile_roots h fair_env NoRows 0 scan_options ns empty_db = (Inr r, d1)"
    "reachable h X C ''/v'' d1"
    "view (t_nodes d1) = map_of (SnapshotFromNodes (Transform h ns ''/v''))"
    "s_cursor_hash ` set (t_snapshots d1) \<subseteq> {CursorHashFlat h (flat_data (Transform h ns ''/v''))}"
proof -
  let ?ns = "Transform h ns ''/v''"
  have o: "oCompileRoot scan_options = ''/v''" "oFullRescan scan_options" by (simp_all add: scan_options_def)
  have "CursorHashFlat h (flat_data ?ns) \<notin> s_cursor_hash ` set (t_snapshots empty_db)" by (simp add: empty_db_def)
  from compile_succeeds [OF compile_inv_empty list.distinct(2) assms o this, of NoRows 0]
  obtain r d1 where c: "compile_roots h fair_env NoRows 0 scan_options ns empty_db = (Inr r, d1)"
    and s: "Diff ?ns (buildPrevState empty_db (flat_data ?ns) True ''/v'') \<noteq> [] \<longrightarrow>
      s_cursor_hash ` set (t_snapshots d1) = insert (CursorHashFlat h (flat_data ?ns)) (s_cursor_hash ` set (t_snapshots empty_db))"
    by blast
  have "s_cursor_hash ` set (t_snapshots d1) \<subseteq> {CursorHashFlat h (flat_data ?ns)}"
  proof (cases "Diff ?ns (buildPrevState empty_db (flat_data ?ns) True ''/v'') = []")
    case True
    with c have "d1 = empty_db" by (simp add: compile_roots_def Let_def Diff_def Emit_def o)
    then show ?thesis by (simp add: empty_db_def)
  next
    case False
    with s show ?thesis by (simp add: empty_db_def)
  qed
  moreover have "reachable h X C ''/v'' d1"
    using reach_compile [OF reach_empty assms(2) o(1)] c by (metis snd_conv)
  moreover have "view (t_nodes d1) = map_of (SnapshotFromNodes ?ns)"
    using compile_step_inv [OF compile_inv_empty list.distinct(2) assms o c] by simp
  ultimately show ?thesis using that c by blast
qed

lemma second_compile:
  assumes "reachable h X C ''/v'' d1" "collision_free h X C" "forest_in h X C ''/v'' new"
    and "s_cursor_hash ` set (t_snapshots d1) \<subseteq> {CursorHashFlat h (flat_data (Transform h ns ''/v''))}"
    and "CursorHashFlat h (flat_data (Transform h new ''/v'')) \<noteq> CursorHashFlat h (flat_data (Transform h ns ''/v''))"
    and "oCompileRoot opts = ''/v''" "\<not> oFullRescan opts"
  obtains r d2 where "compile_roots h fair_env NoRows 9 opts new d1 = (Inr r, d2)"
proof -
  have "CursorHashFlat h (flat_data (Transform h new ''/v'')) \<notin> s_cursor_hash ` set (t_snapshots d1)"
    using assms(4,5) by blast
  from ready_succeeds [OF partial_ready [OF reachable_inv [OF assms(1)] assms(2,3) this] assms(6), of NoRows 9]
  show ?thesis using that assms(7) by auto
qed

lemma edit_cursor: "CursorHashFlat sum_hash (flat_data (Transform sum_hash (one_file ''y'') ''/v''))
    \<noteq> CursorHashFlat sum_hash (flat_data (Transform sum_hash (other_file @ one_file ''x'') ''/v''))"
  by code_simp

lemmas edit_first = first_compile [OF edit_hash(1) edit_forests(4)]
lemmas edit_second = second_compile [OF _ edit_hash(1) edit_forests(3) _ edit_cursor part_options]

theorem Compile_incremental_witness:
  "\<exists>r d1 r' d2. compile_roots sum_hash fair_env NoRows 0 scan_options (other_file @ one_file ''x'') empty_db = (Inr r, d1)
     \<and> compile_roots sum_hash fair_env NoRows 9 part_options (one_file ''y'') d1 = (Inr r', d2)
     \<and> view (t_nodes d2) (idof (IdentifyNode sum_hash) [(''b'', 0)]) = view (t_nodes d1) (idof (IdentifyNode sum_hash) [(''b'', 0)])"
proof -
  let ?i = "idof (IdentifyNode sum_hash) [(''b'', 0)]"
  obtain r d1 where c: "compile_roots sum_hash fair_env NoRows 0 scan_options (other_file @ one_file ''x'') empty_db = (Inr r, d1)"
    and r: "reachable sum_hash edit_chains edit_texts ''/v'' d1"
    and s: "s_cursor_hash ` set (t_snapshots d1) \<subseteq> {CursorHashFlat sum_hash (flat_data (Transform sum_hash (other_file @ one_file ''x'') ''/v''))}"
    by (rule edit_first)
  obtain r' d2 where c2: "compile_roots sum_hash fair_env NoRows 9 part_options (one_file ''y'') d1 = (Inr r', d2)"
    by (rule edit_second [OF r s])
  from Compile_incremental [OF r edit_hash(2,1) edit_forests(3) part_options c2]
  have "view (t_nodes d2) ?i = (case map_of (SnapshotFromNodes (Transform sum_hash (one_file ''y'') ''/v'')) ?i of Some st \<Rightarrow> Some st
     | None \<Rightarrow> if ?i \<in> ids_of_files (files_of (Transform sum_hash (one_file ''y'') ''/v'')) d1 then None else view (t_nodes d1) ?i)"
    by blast
  moreover have "map_of (SnapshotFromNodes (Transform sum_hash (one_file ''y'') ''/v'')) ?i = None" by code_simp
  moreover have "idof (IdentifyNode sum_hash) [(''a'', 0)] \<noteq> ?i" by code_simp
  then have "?i \<notin> ids_of_files {''a''} d1"
  proof (rule contrapos_nn)
    assume "?i \<in> ids_of_files {''a''} d1"
    then obtain x where x: "x \<in> set (t_nodes d1)" "c_id x = ?i" "c_source_file x = ''a''"
      by (rule ids_of_filesE) (simp only: singleton_iff)
    from reachable_inv [OF r] x(1) obtain c where c: "c \<in> edit_chains" "c_id x = idof (IdentifyNode sum_hash) c" "c_source_file x = fst (hd c)"
      unfolding compile_inv_def tracked_def by blast
    from c(1) consider "c = [(''a'', 0)]" | "c = [(''b'', 0)]" unfolding edit_chains_def by blast
    then show "idof (IdentifyNode sum_hash) [(''a'', 0)] = ?i"
    proof cases
      case 1
      show ?thesis using c(2) x(2) unfolding 1 by (rule trans [OF sym])
    next
      case 2
      then have "fst (hd c) = ''b''" by simp
      with c(3) x(3) have "''a'' = ''b''" by (metis singletonD)
      then show ?thesis by simp
    qed
  qed
  ultimately have "view (t_nodes d2) ?i = view (t_nodes d1) ?i" unfolding edit_sets(3) by (simp only: option.case if_False)
  with c c2 show ?thesis by blast
qed

theorem Compile_incremental_is_full_witness:
  "\<exists>r d1 r' d2. compile_roots sum_hash fair_env NoRows 0 scan_options (other_file @ one_file ''x'') empty_db = (Inr r, d1)
     \<and> compile_roots sum_hash fair_env NoRows 9 part_options (one_file ''y'') d1 = (Inr r', d2)
     \<and> view (t_nodes d2) = map_of (SnapshotFromNodes (Transform sum_hash (other_file @ one_file ''y'') ''/v''))"
proof -
  obtain r d1 where c: "compile_roots sum_hash fair_env NoRows 0 scan_options (other_file @ one_file ''x'') empty_db = (Inr r, d1)"
    and r: "reachable sum_hash edit_chains edit_texts ''/v'' d1"
    and v: "view (t_nodes d1) = map_of (SnapshotFromNodes (Transform sum_hash (other_file @ one_file ''x'') ''/v''))"
    and s: "s_cursor_hash ` set (t_snapshots d1) \<subseteq> {CursorHashFlat sum_hash (flat_data (Transform sum_hash (other_file @ one_file ''x'') ''/v''))}"
    by (rule edit_first)
  obtain r' d2 where c2: "compile_roots sum_hash fair_env NoRows 9 part_options (one_file ''y'') d1 = (Inr r', d2)"
    by (rule edit_second [OF r s])
  have "view (t_nodes d2) = map_of (SnapshotFromNodes (Transform sum_hash (other_file @ one_file ''y'') ''/v''))"
    by (rule Compile_incremental_is_full [OF r edit_hash(2,1) list.distinct(2) edit_forests(1,2,3) _ _ v part_options c2])
       (simp_all add: edit_sets)
  with c c2 show ?thesis by blast
qed

text \<open>A tick on which the only file cannot be parsed.\<close>

definition bad_tick :: tick_env where
  "bad_tick = \<lparr>tk_env1 = fair_env, tk_env2 = fair_env, tk_fs = sample_fs, tk_mtimes = (\<lambda>p. Some 3), tk_now = 10\<rparr>"

lemma bad_tick_in: "tick_in h X C (\<lambda>p data. Inl NoRows) (watch []) bad_tick"
proof -
  have "select_paths sample_fs \<lparr>doIgnore = Some None, doReseed = False\<rparr> ''/v'' = Inr [''/v/a.md'']" by code_simp
  then have "select_paths (tk_fs bad_tick) \<lparr>doIgnore = Some (rl_ignore (watch [])), doReseed = False\<rparr> (rl_dir (watch [])) = Inr [''/v/a.md'']"
    by (simp add: bad_tick_def watch_def)
  then show ?thesis
    by (auto simp: tick_in_def compile_file_def bad_tick_def sample_fs_def forest_in_def forest_chains_def Transform_def compressPrefix_def
        split: if_splits)
qed


end
