(* ===== verification/Values.thy ===== *)
theory Values
  imports Ast Utf8 Tables
begin

text \<open>
  The package \<open>pkg/parser\<close>, files \<open>split.go\<close>, \<open>json.go\<close>, \<open>yaml.go\<close> and \<open>toon.go\<close>: from decoded
  values to context nodes. The decoders are third-party code and arguments of the model: a JSON
  decoder yields the values of a stream and the error it ends with, absent at the end of the input.
  A decoded value is a \<open>gvalue\<close>: the map is an association list with distinct keys, whose order
  stands for the order of the Go map, and a scalar other than a string or \<open>nil\<close> carries the text
  \<open>fmt.Sprint\<close> gives it. What \<open>yaml.Unmarshal\<close> yields may hold maps with other keys; such a key is
  represented by its text, too.
\<close>

datatype gvalue = GNull | GString string | GScalar string | GArr "gvalue list" | GMap "(string \<times> gvalue) list"

section \<open>Rendering\<close>

fun formatScalar :: "gvalue \<Rightarrow> string" where
  "formatScalar GNull = ''null''"
| "formatScalar (GString x) = x"
| "formatScalar (GScalar t) = t"
| "formatScalar v = []"   \<comment> \<open>not called on these\<close>

definition sorted_entries :: "(string \<times> gvalue) list \<Rightarrow> (string \<times> gvalue) list" where
  \<comment> \<open>\<open>sortedKeys\<close>, each key with its value\<close>
  "sorted_entries m = sort_key fst m"

lemma set_sorted_entries [simp]: "set (sorted_entries m) = set m"
  by (simp add: sorted_entries_def)

lemma size_entry: "(k, v) \<in> set m \<Longrightarrow> size v < Suc (size_list (size_prod (\<lambda>_. 0) size) m)"
  by (induction m) auto

lemma size_item: "v \<in> set xs \<Longrightarrow> size v < Suc (size_list size xs)"
  by (induction xs) auto

function (sequential) writeValue :: "gvalue \<Rightarrow> string \<Rightarrow> string"
and writeMap :: "(string \<times> gvalue) list \<Rightarrow> string \<Rightarrow> string"
and writeList :: "gvalue list \<Rightarrow> string \<Rightarrow> string" where
  "writeValue (GMap x) indent = (if length x = 0 then '' {}'' else [LF] @ writeMap x (indent @ ''  ''))"
| "writeValue (GArr x) indent = (if length x = 0 then '' []'' else [LF] @ writeList x indent)"
| "writeValue v indent = [SP] @ formatScalar v"
| "writeMap m indent = Join (map (\<lambda>(k, v). indent @ k @ '':'' @ writeValue v indent) (sorted_entries m)) [LF]"
| "writeList items indent = Join (map (\<lambda>v. indent @ ''-'' @ writeValue v indent) items) [LF]"
  by pat_completeness auto

termination
  by (relation "measure (\<lambda>x. case x of Inl (v, s) \<Rightarrow> 2 * size v
      | Inr (Inl (m, s)) \<Rightarrow> Suc (2 * size_list (size_prod (\<lambda>_. 0) size) m)
      | Inr (Inr (xs, s)) \<Rightarrow> Suc (2 * size_list size xs))")
     (auto dest: size_entry size_item)

definition renderMap :: "string \<Rightarrow> (string \<times> gvalue) list \<Rightarrow> string" where
  "renderMap key m =
     (if key \<noteq> [] then
        key @ '':'' @ (if length m = 0 then [] else [LF] @ writeMap m ''  '')
      else writeMap m [])"

definition renderList :: "string \<Rightarrow> gvalue list \<Rightarrow> string" where
  "renderList key items =
     (if key \<noteq> [] then
        key @ '':'' @ (if length items = 0 then '' []'' else [LF] @ writeList items [])
      else writeList items [])"

section \<open>TOON\<close>

fun isScalar :: "gvalue \<Rightarrow> bool" where
  "isScalar (GMap m) = False"
| "isScalar (GArr xs) = False"
| "isScalar v = True"

fun friendly_object :: "(string \<times> gvalue) list \<Rightarrow> gvalue \<Rightarrow> bool" where
  "friendly_object frst (GMap m) = (length m = length frst \<and> list_all (\<lambda>(k, v). map_of frst k \<noteq> None \<and> isScalar v) m)"
| "friendly_object frst v = False"

fun isToonFriendly :: "gvalue list \<Rightarrow> bool" where
  "isToonFriendly [] = False"
| "isToonFriendly (GMap frst # items) = list_all (friendly_object frst) (GMap frst # items)"
| "isToonFriendly items = list_all isScalar items"

definition ToonSavingsThreshold :: real where "ToonSavingsThreshold = 15 / 100"

definition beatsPlain :: "string \<Rightarrow> string \<Rightarrow> bool" where
  "beatsPlain plain encoded =
     (if length plain = 0 then False
      else ToonSavingsThreshold \<le> (real (length plain) - real (length encoded)) / real (length plain))"

definition tryToonList :: "(gvalue \<Rightarrow> error + string) \<Rightarrow> string \<Rightarrow> gvalue list \<Rightarrow> string \<Rightarrow> string option" where
  "tryToonList marshal key items plain =
     (if \<not> isToonFriendly items then None
      else case marshal (if key \<noteq> [] then GMap [(key, GArr items)] else GArr items) of
             Inl e \<Rightarrow> None
           | Inr encoded \<Rightarrow>
               (let encoded = TrimRight encoded [LF]
                in if \<not> beatsPlain plain encoded then None else Some encoded))"

section \<open>Nodes\<close>

fun promotes :: "gvalue \<Rightarrow> bool" where
  "promotes (GMap x) = (MaxInlineFields \<le> length x)"
| "promotes (GArr x) = (MaxInlineFields \<le> length x)"
| "promotes v = False"

definition kv_node :: "string \<Rightarrow> string \<Rightarrow> int \<Rightarrow> node_data" where
  "kv_node path content depth =
     zero_data\<lparr>SourceFile := path, Kind := NodeKV, Content := content, Depth := depth, Format := FormatPlain\<rparr>"

definition buildList :: "(gvalue \<Rightarrow> error + string) \<Rightarrow> string \<Rightarrow> string \<Rightarrow> gvalue list \<Rightarrow> int \<Rightarrow> ContextNode" where
  "buildList marshal path key items depth =
     (let plain = renderList key items;
          (content, format) = (case tryToonList marshal key items plain of
                                 Some encoded \<Rightarrow> (encoded, FormatToon) | None \<Rightarrow> (plain, FormatPlain))
      in CNode (zero_data\<lparr>SourceFile := path, Kind := NodeList, Content := content, Depth := depth, Format := format\<rparr>) [])"

function (sequential) buildNode :: "(gvalue \<Rightarrow> error + string) \<Rightarrow> string \<Rightarrow> string \<Rightarrow> gvalue \<Rightarrow> int \<Rightarrow> ContextNode"
and buildMap :: "(gvalue \<Rightarrow> error + string) \<Rightarrow> string \<Rightarrow> string \<Rightarrow> (string \<times> gvalue) list \<Rightarrow> int \<Rightarrow> ContextNode" where
  "buildNode marshal path key (GMap m) depth = buildMap marshal path key m depth"
| "buildNode marshal path key (GArr items) depth = buildList marshal path key items depth"
| "buildNode marshal path key v depth =
     (let content = formatScalar v;
          content = (if key \<noteq> [] then key @ '': '' @ content else content)
      in CNode (kv_node path content depth) [])"
| "buildMap marshal path key m depth =
     CNode (kv_node path (renderMap key (filter (\<lambda>(k, v). \<not> promotes v) (sorted_entries m))) depth)
       (map (\<lambda>(k, v). buildNode marshal path k v (depth + 1)) (filter (\<lambda>(k, v). promotes v) (sorted_entries m)))"
  by pat_completeness auto

termination
  by (relation "measure (\<lambda>x. case x of Inl (f, p, k, v, d) \<Rightarrow> 2 * size v
      | Inr (f, p, k, m, d) \<Rightarrow> Suc (2 * size_list (size_prod (\<lambda>_. 0) size) m))")
     (auto dest: size_entry)

declare buildMap.simps [simp del] writeMap.simps [simp del] writeList.simps [simp del]

section \<open>Files\<close>

definition parse_json :: "(gvalue \<Rightarrow> error + string) \<Rightarrow> (string \<Rightarrow> gvalue list \<times> error option) \<Rightarrow> string \<Rightarrow> string
    \<Rightarrow> error + ContextNode list" where
  \<comment> \<open>the first value of the stream; what follows it is not looked at\<close>
  "parse_json marshal decode path data =
     (case decode data of
        ([], Some e) \<Rightarrow> Inl (Errorf (''failed to parse: json '' @ path) e)
      | ([], None) \<Rightarrow> Inl (Errorf (''failed to parse: json '' @ path) (Driver ''EOF''))
      | (v # vs, _) \<Rightarrow> Inr (if v = GNull then [] else [buildNode marshal path [] v 1]))"

definition parse_lines :: "(gvalue \<Rightarrow> error + string) \<Rightarrow> (string \<Rightarrow> gvalue list \<times> error option) \<Rightarrow> string \<Rightarrow> string
    \<Rightarrow> error + ContextNode list" where
  "parse_lines marshal decode path data =
     (case decode data of
        (records, Some e) \<Rightarrow> Inl (Errorf (''failed to parse: jsonl '' @ path) e)
      | (records, None) \<Rightarrow>
          Inr (if length records = 0 then [] else [buildNode marshal path [] (GArr records) 1]))"

datatype yvalue = YNull | YString string | YScalar string | YArr "yvalue list"
  | YMap "(string \<times> yvalue) list" | YAnyMap "(string \<times> yvalue) list"

fun normalize :: "yvalue \<Rightarrow> gvalue" where
  "normalize YNull = GNull"
| "normalize (YString x) = GString x"
| "normalize (YScalar t) = GScalar t"
| "normalize (YArr xs) = GArr (map normalize xs)"
| "normalize (YMap m) = GMap (map (\<lambda>(k, v). (k, normalize v)) m)"
| "normalize (YAnyMap m) = GMap (foldl (\<lambda>out (k, v). AList.update k v out) [] (map (\<lambda>(k, v). (k, normalize v)) m))"

definition parse_yaml :: "(gvalue \<Rightarrow> error + string) \<Rightarrow> (string \<Rightarrow> error + yvalue) \<Rightarrow> string \<Rightarrow> string
    \<Rightarrow> error + ContextNode list" where
  "parse_yaml marshal unmarshal path data =
     (case unmarshal data of
        Inl e \<Rightarrow> Inl (Errorf (''failed to parse: yaml '' @ path) e)
      | Inr y \<Rightarrow>
          (let v = normalize y
           in Inr (if v = GNull then [] else [buildNode marshal path [] v 1])))"

definition parse_toon :: "(gvalue \<Rightarrow> error + string) \<Rightarrow> (string \<Rightarrow> error + gvalue) \<Rightarrow> string \<Rightarrow> string
    \<Rightarrow> error + ContextNode list" where
  "parse_toon marshal decode path data =
     (case decode data of
        Inl e \<Rightarrow> Inl (Errorf (''failed to parse: toon '' @ path) e)
      | Inr v \<Rightarrow> Inr (if v = GNull then [] else [buildNode marshal path [] v 1]))"

section \<open>Every node is placed\<close>

text \<open>Nodes leave the parser with their path, depth and format set and the transformer's fields empty.\<close>

fun well_placed :: "string \<Rightarrow> int \<Rightarrow> ContextNode \<Rightarrow> bool" where
  "well_placed path d (CNode n cs) =
     (SourceFile n = path \<and> Depth n = d \<and> Format n \<in> {FormatPlain, FormatToon} \<and> Kind n \<in> {NodeKV, NodeList}
      \<and> ID n = [] \<and> ParentID n = [] \<and> Label n = [] \<and> Hash n = [] \<and> Temperature n = None
      \<and> list_all (well_placed path (d + 1)) cs)"

lemma buildList_placed: "well_placed path d (buildList marshal path key items d)"
  by (simp add: buildList_def Let_def zero_data_def split: option.splits)

lemma kv_placed: "well_placed path d (CNode (kv_node path content d) cs) = list_all (well_placed path (d + 1)) cs"
  by (simp add: kv_node_def zero_data_def)

lemma buildNode_placed:
  "well_placed path d (buildNode marshal path key v d)"
  "well_placed path d (buildMap marshal path key m d)"
proof (induction marshal path key v d and marshal path key m d rule: buildNode_buildMap.induct)
  case (4 marshal path key m depth)
  then show ?case unfolding buildMap.simps kv_placed by (auto simp: list_all_iff simp del: well_placed.simps)
qed (simp_all add: Let_def kv_placed buildList_placed del: well_placed.simps)

text \<open>Every node built from a decoded value carries the file's path, the depth of its level, one of the
  two formats and node types such a file has, and leaves the fields the transformer fills empty.\<close>

theorem buildNode_well_placed:
  "well_placed path depth (buildNode marshal path key v depth)"
  by (rule buildNode_placed(1))

text \<open>An array is rendered as TOON only if it is uniform and the encoding saves at least fifteen percent;
  otherwise as plain text. So the content is never longer than the plain rendering.\<close>

theorem buildList_saves:
  "case buildList marshal path key items depth of CNode n cs \<Rightarrow>
     cs = [] \<and> length (Content n) \<le> length (renderList key items)
     \<and> (Format n = FormatPlain \<and> Content n = renderList key items
        \<or> Format n = FormatToon \<and> isToonFriendly items \<and> 100 * length (Content n) \<le> 85 * length (renderList key items))"
proof (cases "tryToonList marshal key items (renderList key items)")
  case None
  then show ?thesis by (simp add: buildList_def Let_def zero_data_def)
next
  case (Some enc)
  let ?p = "renderList key items"
  from Some have f: "isToonFriendly items" "beatsPlain ?p enc" by (auto simp: tryToonList_def Let_def split: if_splits sum.splits)
  then have len: "0 < length ?p" "15 / 100 \<le> (real (length ?p) - real (length enc)) / real (length ?p)"
    by (auto simp: beatsPlain_def ToonSavingsThreshold_def split: if_splits)
  then have "15 / 100 * real (length ?p) \<le> real (length ?p) - real (length enc)" by (simp add: pos_le_divide_eq)
  then have "100 * length enc \<le> 85 * length ?p" by linarith
  with Some f show ?thesis by (simp add: buildList_def Let_def zero_data_def)
qed

section \<open>Nothing of the value is lost\<close>

inductive occurs :: "gvalue \<Rightarrow> string \<Rightarrow> bool" where
  occurs_null: "occurs GNull ''null''"
| occurs_string: "occurs (GString s) s"
| occurs_scalar: "occurs (GScalar s) s"
| occurs_item: "v \<in> set xs \<Longrightarrow> occurs v t \<Longrightarrow> occurs (GArr xs) t"
| occurs_value: "(k, v) \<in> set m \<Longrightarrow> occurs v t \<Longrightarrow> occurs (GMap m) t"
| occurs_key: "(k, v) \<in> set m \<Longrightarrow> occurs (GMap m) k"

inductive_simps occurs_simps: "occurs GNull t" "occurs (GString s) t" "occurs (GScalar s) t" "occurs (GArr xs) t" "occurs (GMap m) t"

lemma sublist_Join: "x \<in> set xs \<Longrightarrow> sublist t x \<Longrightarrow> sublist t (Join xs sep')"
proof -
  assume a: "x \<in> set xs" "sublist t x"
  have "sublist x (Join xs sep')" using a(1)
  proof (induction xs sep' rule: Join.induct)
    case (3 y z xs sep')
    then show ?case by (cases "x = y") (auto intro: sublist_order.order_trans simp: sublist_append)
  qed auto
  with a(2) show ?thesis by (rule sublist_order.order_trans)
qed

lemma sublist_mid: "sublist t u \<Longrightarrow> sublist t (p @ u @ q)"
  by (meson sublist_appendI sublist_order.order_trans)

lemma sublist_right: "sublist t u \<Longrightarrow> sublist t (p @ u)"
  using sublist_mid [of t u p "[]"] by simp

lemma sublist_left: "sublist t u \<Longrightarrow> sublist t (u @ q)"
  using sublist_mid [of t u "[]" q] by simp

lemma sublist_tail: "sublist t u \<Longrightarrow> sublist t (c # u)"
  using sublist_right [of t u "[c]"] by simp

lemmas sublist_intros = sublist_right sublist_tail

lemma written:
  "occurs v t \<Longrightarrow> sublist t (writeValue v indent)"
  "occurs (GMap m) t \<Longrightarrow> sublist t (writeMap m indent)"
  "occurs (GArr xs) t \<Longrightarrow> sublist t (writeList xs indent)"
proof (induction v indent and m indent and xs indent rule: writeValue_writeMap_writeList.induct)
  case (1 m indent)
  then show ?case by (auto simp: occurs_simps intro: sublist_tail)
next
  case (2 xs indent)
  then show ?case by (auto simp: occurs_simps intro: sublist_tail)
next
  case (4 m indent)
  from 4(2) obtain k v where kv: "(k, v) \<in> set m" "occurs v t \<or> t = k" by (auto simp: occurs_simps)
  have "sublist t (indent @ k @ '':'' @ writeValue v indent)"
    using kv(2)
  proof
    assume "occurs v t"
    with kv(1) 4(1) have "sublist t (writeValue v indent)" by auto
    then show ?thesis using sublist_right [of t _ "indent @ k @ '':''"] by simp
  next
    assume "t = k"
    then show ?thesis by (auto intro: sublist_appendI)
  qed
  then show ?case unfolding writeMap.simps using kv(1) by (intro sublist_Join) (auto intro: image_eqI [of _ _ "(k, v)"])
next
  case (5 xs indent)
  from 5(2) obtain v where v: "v \<in> set xs" "occurs v t" by (auto simp: occurs_simps)
  then have "sublist t (indent @ ''-'' @ writeValue v indent)"
    using 5(1) by (auto intro!: sublist_right sublist_tail)
  then show ?case unfolding writeList.simps using v(1) by (intro sublist_Join) auto
qed (auto simp: occurs_simps intro: sublist_tail)

lemma rendered_list: "occurs (GArr xs) t \<Longrightarrow> sublist t (renderList key xs)"
  using written(3) [of xs t "[]"] by (auto simp: renderList_def occurs_simps intro!: sublist_right sublist_tail)

lemma rendered_map: "occurs (GMap m) t \<Longrightarrow> sublist t (renderMap key m)"
  using written(2) [of m t] by (auto simp: renderMap_def occurs_simps intro!: sublist_right sublist_tail)

lemma key_first: "sublist key (renderMap key m)" "sublist key (renderList key xs)"
  by (auto simp: renderMap_def renderList_def)

definition found :: "string \<Rightarrow> ContextNode \<Rightarrow> bool" where
  \<comment> \<open>in the content of a node of the tree\<close>
  "found t n \<longleftrightarrow> (\<exists>x \<in> set (flat_data [n]). sublist t (Content x))"

lemma found_CNode: "found t (CNode n cs) \<longleftrightarrow> sublist t (Content n) \<or> (\<exists>c \<in> set cs. found t c)"
proof -
  have un: "set (flat_data cs) = (\<Union>c \<in> set cs. set (flat_data [c]))" for cs
  proof (induction cs)
    case (Cons c cs)
    have "set (flat_data (c # cs)) = set (flat_data [c]) \<union> set (flat_data cs)"
      using flat_data_append [of "[c]" cs] by (metis append_Cons append_Nil set_append)
    also have "\<dots> = (\<Union>c \<in> set (c # cs). set (flat_data [c]))"
      unfolding Cons.IH by (simp only: list.set UN_insert)
    finally show ?case .
  qed (simp add: flat_data_def)
  have "set (flat_data [CNode n cs]) = insert n (\<Union>c \<in> set cs. set (flat_data [c]))"
    using un [of cs] by (simp only: flat_data_simps append_Nil2 list.set)
  then show ?thesis unfolding found_def by (simp only: bex_simps bex_UN)
qed

definition no_toon :: "(gvalue \<Rightarrow> error + string) \<Rightarrow> bool" where
  "no_toon marshal \<longleftrightarrow> (\<forall>key items. tryToonList marshal key items (renderList key items) = None)"

lemma plain_list:
  "no_toon marshal \<Longrightarrow> buildList marshal path key xs d
    = CNode (zero_data\<lparr>SourceFile := path, Kind := NodeList, Content := renderList key xs, Depth := d, Format := FormatPlain\<rparr>) []"
  by (simp add: no_toon_def buildList_def Let_def)

lemma found_key_map: "found key (buildMap marshal path key m d)"
  by (simp add: buildMap.simps found_CNode kv_node_def key_first)

lemma found_key: "no_toon marshal \<Longrightarrow> found key (buildNode marshal path key v d)"
  by (cases v) (auto simp: found_key_map plain_list found_CNode kv_node_def key_first Let_def)

lemma found_buildNode:
  "no_toon marshal \<Longrightarrow> occurs v t \<Longrightarrow> found t (buildNode marshal path key v d)"
  "no_toon marshal \<Longrightarrow> occurs (GMap m) t \<Longrightarrow> found t (buildMap marshal path key m d)"
proof (induction marshal path key v d and marshal path key m d rule: buildNode_buildMap.induct)
  case (2 marshal path key items depth)
  then show ?case by (simp add: plain_list found_CNode rendered_list)
next
  case (4 marshal path key m depth)
  from 4(3) obtain k v where kv: "(k, v) \<in> set m" "occurs v t \<or> t = k" by (auto simp: occurs_simps)
  show ?case
  proof (cases "promotes v")
    case True
    then have "found t (buildNode marshal path k v (depth + 1))" using 4(1,2) kv found_key by auto
    with kv True show ?thesis unfolding buildMap.simps found_CNode by force
  next
    case False
    then have "occurs (GMap (filter (\<lambda>(k, v). \<not> promotes v) (sorted_entries m))) t"
      using kv by (auto simp: occurs_simps)
    then show ?thesis unfolding buildMap.simps found_CNode by (simp add: kv_node_def rendered_map)
  qed
qed (auto simp: Let_def found_CNode kv_node_def occurs_simps intro: sublist_intros)



end
