(* ===== verification/Markdown.thy ===== *)
theory Markdown
  imports Values
begin

text \<open>
  The package \<open>pkg/parser\<close>, files \<open>markdown.go\<close> and \<open>preamble.go\<close>: from a Markdown document to context
  nodes. The Markdown parser is third-party code and an argument of the model; the documents it yields
  are the datatype \<open>mdnode\<close>, with a constructor for each type of the syntax tree the code tells apart and
  \<open>MOther\<close> for the rest. Its walk visits a container before and after its children. The code builds the
  tree of nodes through pointers on a stack; the model's pointers are paths of child indices into
  the forest built so far, so that adding a child through one is seen through every other.
\<close>

section \<open>The preamble\<close>

fun bytes_Cut :: "string \<Rightarrow> string \<Rightarrow> (string \<times> string) option" where
  "bytes_Cut s p =
     (if HasPrefix s p then Some ([], drop (length p) s)
      else case s of [] \<Rightarrow> None
        | c # t \<Rightarrow> (case bytes_Cut t p of None \<Rightarrow> None | Some (b, a) \<Rightarrow> Some (c # b, a)))"

declare bytes_Cut.simps [simp del]

datatype preambleKind = preambleNone | preambleYaml | preambleToml

definition hasDelimLine :: "string \<Rightarrow> string \<Rightarrow> bool" where
  "hasDelimLine data delim = (HasPrefix data (delim @ [LF]) \<or> HasPrefix data (delim @ [CR, LF]))"

definition trimLeadingNewline :: "string \<Rightarrow> string" where
  "trimLeadingNewline b =
     (if HasPrefix b [CR, LF] then drop 2 b else if HasPrefix b [LF] then drop 1 b else b)"

definition splitAtDelim :: "string \<Rightarrow> string \<Rightarrow> preambleKind \<Rightarrow> string \<times> string \<times> preambleKind" where
  "splitAtDelim data delim kind =
     (let after = trimLeadingNewline (drop (length delim) data)
      in case bytes_Cut after ([LF] @ delim) of
           None \<Rightarrow> ([], data, preambleNone)
         | Some (front, rest) \<Rightarrow>
             if length rest = 0 then (front, [], kind)
             else if HasPrefix rest [CR, LF] then (front, drop 2 rest, kind)
             else if HasPrefix rest [LF] then (front, drop 1 rest, kind)
             else ([], data, preambleNone))"

definition splitPreamble :: "string \<Rightarrow> string \<times> string \<times> preambleKind" where
  "splitPreamble data =
     (if hasDelimLine data ''---'' then splitAtDelim data ''---'' preambleYaml
      else if hasDelimLine data ''+++'' then splitAtDelim data ''+++'' preambleToml
      else ([], data, preambleNone))"

definition preambleNode :: "(gvalue \<Rightarrow> error + string) \<Rightarrow> (string \<Rightarrow> error + yvalue) \<Rightarrow> string \<Rightarrow> string \<Rightarrow> preambleKind
    \<Rightarrow> error + ContextNode option" where
  "preambleNode marshal unmarshal path front kind =
     (case kind of
        preambleYaml \<Rightarrow>
          (case parse_yaml marshal unmarshal path front of
             Inl e \<Rightarrow> Inl (Errorf (''failed to parse: preamble '' @ path) e)
           | Inr [] \<Rightarrow> Inr None
           | Inr (rt # _) \<Rightarrow> Inr (Some (CNode ((nd rt)\<lparr>Kind := NodePreamble\<rparr>) (Children rt))))
      | preambleToml \<Rightarrow>
          Inr (Some (CNode (zero_data\<lparr>SourceFile := path, Kind := NodePreamble, Content := TrimSpace front,
                 Depth := 1, Format := FormatPlain\<rparr>) []))
      | preambleNone \<Rightarrow> Inr None)"

section \<open>Text of a document\<close>

datatype mdnode =
    MText string | MCode string | MSoftbreak | MHardbreak
  | MLink string string "mdnode list" | MImage string string "mdnode list"
  | MHeading int "mdnode list" | MCodeBlock string string
  | MList "mdnode list" | MTable "mdnode list" | MTableRow "mdnode list"
  | MHTMLBlock string | MHorizontalRule | MOther "mdnode list"

fun GetChildren' :: "mdnode \<Rightarrow> mdnode list" where
  "GetChildren' (MLink d t cs) = cs"
| "GetChildren' (MImage d t cs) = cs"
| "GetChildren' (MHeading l cs) = cs"
| "GetChildren' (MList cs) = cs"
| "GetChildren' (MTable cs) = cs"
| "GetChildren' (MTableRow cs) = cs"
| "GetChildren' (MOther cs) = cs"
| "GetChildren' n = []"

definition writeLinkTail :: "string \<Rightarrow> string \<Rightarrow> string" where
  "writeLinkTail dest title =
     '']('' @ dest @ (if 0 < length title then [SP, DQ] @ title @ [DQ] else []) @ '')''"

fun walk_text :: "mdnode \<Rightarrow> string" where
  \<comment> \<open>what the walk writes\<close>
  "walk_text (MText lit) = lit"
| "walk_text (MCode lit) = lit"
| "walk_text MSoftbreak = [SP]"
| "walk_text MHardbreak = [LF]"
| "walk_text (MLink dest title cs) = ''['' @ concat (map walk_text cs) @ writeLinkTail dest title"
| "walk_text (MImage dest title cs) = ''!['' @ concat (map walk_text cs) @ writeLinkTail dest title"
| "walk_text (MHeading l cs) = concat (map walk_text cs)"
| "walk_text (MList cs) = concat (map walk_text cs)"
| "walk_text (MTable cs) = concat (map walk_text cs)"
| "walk_text (MTableRow cs) = concat (map walk_text cs)"
| "walk_text (MOther cs) = concat (map walk_text cs)"
| "walk_text n = []"

definition extractText :: "mdnode \<Rightarrow> string" where
  "extractText n = TrimSpace (walk_text n)"

definition extractListText :: "mdnode list \<Rightarrow> string" where
  "extractListText items =
     Join (map (\<lambda>text. ''- '' @ text) (filter (\<lambda>text. text \<noteq> []) (map extractText items))) [LF]"

fun table_rows :: "mdnode \<Rightarrow> string list" where
  "table_rows (MTableRow cs) = [Join (map extractText cs) [TAB]]"
| "table_rows (MLink d t cs) = concat (map table_rows cs)"
| "table_rows (MImage d t cs) = concat (map table_rows cs)"
| "table_rows (MHeading l cs) = concat (map table_rows cs)"
| "table_rows (MList cs) = concat (map table_rows cs)"
| "table_rows (MTable cs) = concat (map table_rows cs)"
| "table_rows (MOther cs) = concat (map table_rows cs)"
| "table_rows n = []"

definition extractTableText :: "mdnode \<Rightarrow> string" where
  "extractTableText tbl = Join (table_rows tbl) [LF]"

definition block_node :: "string \<Rightarrow> NodeType \<Rightarrow> string \<Rightarrow> node_data option" where
  "block_node path kind content =
     (if content = [] then None
      else Some (zero_data\<lparr>SourceFile := path, Kind := kind, Content := content, Format := FormatPlain\<rparr>))"

fun nodeFromBlock :: "string \<Rightarrow> mdnode \<Rightarrow> node_data option" where
  "nodeFromBlock path (MCodeBlock info literal) =
     (let lang = TrimSpace info;
          content = (if lang \<noteq> [] then lang @ [LF] @ literal else literal)
      in block_node path NodeCode (TrimRight content [LF]))"
| "nodeFromBlock path (MList items) = block_node path NodeList (extractListText items)"
| "nodeFromBlock path (MTable cs) = block_node path NodeTable (extractTableText (MTable cs))"
| "nodeFromBlock path (MHTMLBlock literal) = block_node path NodeText (TrimSpace literal)"
| "nodeFromBlock path MHorizontalRule = None"
| "nodeFromBlock path b = block_node path NodeText (extractText b)"

section \<open>The tree of sections\<close>

type_synonym path = "nat list"

fun node_at :: "path \<Rightarrow> ContextNode list \<Rightarrow> ContextNode option" where
  "node_at [] out = None"
| "node_at [i] out = (if i < length out then Some (out ! i) else None)"
| "node_at (i # p) out = (if i < length out then node_at p (Children (out ! i)) else None)"

fun append_at :: "path \<Rightarrow> ContextNode list \<Rightarrow> ContextNode list \<Rightarrow> ContextNode list" where
  \<comment> \<open>appends to the children of the node at a path\<close>
  "append_at [] ns out = out @ ns"
| "append_at (i # p) ns out =
     (if i < length out then out[i := CNode (nd (out ! i)) (append_at p ns (Children (out ! i)))] else out)"

record frame =
  f_node :: "path option"
  f_level :: int

text \<open>The top of the stack is the head of the list. \<open>attachNode\<close> also yields the path of the new node, which
  is the pointer \<open>n\<close> afterwards.\<close>

definition attachNode :: "frame list \<Rightarrow> ContextNode list \<Rightarrow> node_data \<Rightarrow> ContextNode list \<times> path" where
  "attachNode stack out n =
     (case f_node (hd stack) of
        None \<Rightarrow> (out @ [CNode (n\<lparr>Depth := 1\<rparr>) []], [length out])
      | Some p \<Rightarrow>
          (case node_at p out of
             None \<Rightarrow> (out, [])   \<comment> \<open>not a pointer of this forest\<close>
           | Some t \<Rightarrow>
               (append_at p [CNode (n\<lparr>Depth := Depth (nd t) + 1\<rparr>) []] out, p @ [length (Children t)])))"

fun popSections :: "frame list \<Rightarrow> int \<Rightarrow> frame list" where
  "popSections (f # g # stack) level = (if level \<le> f_level f then popSections (g # stack) level else f # g # stack)"
| "popSections stack level = stack"

definition heading_node :: "string \<Rightarrow> int \<Rightarrow> mdnode list \<Rightarrow> node_data" where
  "heading_node path level cs =
     zero_data\<lparr>SourceFile := path, Kind := NodeHeading, Content := extractText (MHeading level cs), Format := FormatPlain\<rparr>"

fun markdown_loop :: "string \<Rightarrow> frame list \<Rightarrow> ContextNode list \<Rightarrow> mdnode list \<Rightarrow> ContextNode list" where
  "markdown_loop path stack out [] = out"
| "markdown_loop path stack out (MHeading level cs # blocks) =
     (let n = heading_node path level cs;
          stack = popSections stack level
      in case attachNode stack out n of
           (out, p) \<Rightarrow> markdown_loop path (\<lparr>f_node = Some p, f_level = level\<rparr> # stack) out blocks)"
| "markdown_loop path stack out (block # blocks) =
     markdown_loop path stack
       (case nodeFromBlock path block of None \<Rightarrow> out | Some n \<Rightarrow> fst (attachNode stack out n)) blocks"

definition sentinel :: frame where
  "sentinel = \<lparr>f_node = None, f_level = 0\<rparr>"

definition parseMarkdown :: "(gvalue \<Rightarrow> error + string) \<Rightarrow> (string \<Rightarrow> error + yvalue) \<Rightarrow> (string \<Rightarrow> mdnode list)
    \<Rightarrow> string \<Rightarrow> string \<Rightarrow> error + ContextNode list" where
  "parseMarkdown marshal unmarshal parse path data =
     (case splitPreamble data of
        (front, body, kind) \<Rightarrow>
          bindR (if kind \<noteq> preambleNone
                 then bindR (preambleNode marshal unmarshal path front kind) (\<lambda>pn.
                        Inr (case pn of None \<Rightarrow> [] | Some n \<Rightarrow> [n]))
                 else Inr [])
            (\<lambda>out. Inr (markdown_loop path [sentinel] out (parse body))))"

section \<open>The outline of a document\<close>

text \<open>What the stack computes: a heading's section runs up to the next heading of the same or a higher rank;
  everything in it becomes the heading's subtree, a block that is no heading becomes a leaf.\<close>

fun deeper :: "int \<Rightarrow> mdnode \<Rightarrow> bool" where
  "deeper l (MHeading l' cs) = (l < l')"
| "deeper l b = True"

function outline :: "string \<Rightarrow> int \<Rightarrow> mdnode list \<Rightarrow> ContextNode list" where
  "outline path d [] = []"
| "outline path d (b # bs) =
     (case b of
        MHeading l cs \<Rightarrow>
          CNode ((heading_node path l cs)\<lparr>Depth := d\<rparr>) (outline path (d + 1) (takeWhile (deeper l) bs))
            # outline path d (dropWhile (deeper l) bs)
      | _ \<Rightarrow> (case nodeFromBlock path b of
                None \<Rightarrow> outline path d bs
              | Some n \<Rightarrow> CNode (n\<lparr>Depth := d\<rparr>) [] # outline path d bs))"
  by pat_completeness auto
termination
  by (relation "measure (\<lambda>(path, d, bs). length bs)") (auto simp: length_takeWhile_le le_imp_less_Suc length_dropWhile_le)

declare outline.simps(2) [simp del]

definition is_heading :: "mdnode \<Rightarrow> bool" where
  "is_heading b = (case b of MHeading l cs \<Rightarrow> True | _ \<Rightarrow> False)"

lemma deeper_other: "\<not> is_heading b \<Longrightarrow> deeper l b"
  by (cases b) (simp_all add: is_heading_def)

lemma outline_heading:
  "outline path d (MHeading l cs # bs) =
     CNode ((heading_node path l cs)\<lparr>Depth := d\<rparr>) (outline path (d + 1) (takeWhile (deeper l) bs))
       # outline path d (dropWhile (deeper l) bs)"
  by (simp add: outline.simps)

lemma outline_other:
  "\<not> is_heading b \<Longrightarrow> outline path d (b # bs) =
     (case nodeFromBlock path b of None \<Rightarrow> [] | Some n \<Rightarrow> [CNode (n\<lparr>Depth := d\<rparr>) []]) @ outline path d bs"
  by (cases b) (simp_all add: outline.simps is_heading_def split: option.splits)

lemma loop_other:
  "\<not> is_heading b \<Longrightarrow> markdown_loop path stack out (b # bs) =
     markdown_loop path stack (case nodeFromBlock path b of None \<Rightarrow> out | Some n \<Rightarrow> fst (attachNode stack out n)) bs"
  by (cases b) (simp_all add: is_heading_def)

section \<open>Pointers into the forest\<close>

lemma append_at_Nil [simp]: "append_at p [] out = out"
  by (induction p arbitrary: out) (auto simp: list_update_id)

lemma append_at_append: "append_at p (ns @ ms) out = append_at p ms (append_at p ns out)"
  by (induction p arbitrary: out) auto

lemma length_append_at: "p \<noteq> [] \<Longrightarrow> length (append_at p ns out) = length out"
  by (cases p) auto

lemma node_at_Cons: "p \<noteq> [] \<Longrightarrow> node_at (i # p) out = (if i < length out then node_at p (Children (out ! i)) else None)"
  by (cases p) simp_all

lemma node_at_keeps:
  "node_at q out = Some t \<Longrightarrow> \<exists>t'. node_at q (append_at p ns out) = Some t' \<and> nd t' = nd t"
proof (induction q out arbitrary: p t rule: node_at.induct)
  case (2 i out)
  then show ?case by (cases p) (auto simp: nth_append nth_list_update split: if_splits)
next
  case (3 i j q out)
  from 3(2) have i: "i < length out" "node_at (j # q) (Children (out ! i)) = Some t" by (auto split: if_splits)
  show ?case
  proof (cases p)
    case Nil
    then show ?thesis using i by (simp add: nth_append)
  next
    case (Cons k p')
    with i 3(1) [OF i] show ?thesis by (cases "k = i") auto
  qed
qed simp

text \<open>Appending a node and then children below it is appending the finished node.\<close>

lemma append_below:
  "node_at p out = Some t \<Longrightarrow>
    append_at (p @ [length (Children t)]) ns (append_at p [CNode x []] out) = append_at p [CNode x ns] out
    \<and> node_at (p @ [length (Children t)]) (append_at p [CNode x []] out) = Some (CNode x [])"
proof (induction p out rule: node_at.induct)
  case (3 i j p out)
  from 3(2) have i: "i < length out" "node_at (j # p) (Children (out ! i)) = Some t" by (auto split: if_splits)
  from 3(1) [OF i] i(1) show ?case by simp
qed (auto split: if_splits simp: list_update_append)

lemma append_below_top:
  "append_at [length out] ns (out @ [CNode x []]) = out @ [CNode x ns]"
  "node_at [length out] (out @ [CNode x []]) = Some (CNode x [])"
  by (simp_all add: list_update_append)

section \<open>The stack builds the outline\<close>

text \<open>The finished forest, given the stack, the forest so far and the blocks to come: each frame takes the rest
  of its section.\<close>

fun place :: "string \<Rightarrow> frame list \<Rightarrow> ContextNode list \<Rightarrow> mdnode list \<Rightarrow> ContextNode list" where
  "place path [] out bs = out"
| "place path (f # stack) out bs =
     (case f_node f of
        None \<Rightarrow> out @ outline path 1 bs
      | Some p \<Rightarrow>
          place path stack (append_at p (outline path (int (length p) + 1) (takeWhile (deeper (f_level f)) bs)) out)
            (dropWhile (deeper (f_level f)) bs))"

fun stack_ok :: "frame list \<Rightarrow> ContextNode list \<Rightarrow> bool" where
  \<comment> \<open>the sentinel at the bottom, above it pointers to nodes as deep as their path is long\<close>
  "stack_ok [] out = False"
| "stack_ok [f] out = (f_node f = None)"
| "stack_ok (f # g # stack) out =
     ((\<exists>p t. f_node f = Some p \<and> node_at p out = Some t \<and> Depth (nd t) = int (length p)) \<and> stack_ok (g # stack) out)"

lemma stack_ok_append: "stack_ok stack out \<Longrightarrow> stack_ok stack (append_at p ns out)"
proof (induction stack out rule: stack_ok.induct)
  case (3 f g stack out)
  then show ?case using node_at_keeps by fastforce
qed auto

lemma stack_ok_pop: "stack_ok stack out \<Longrightarrow> stack_ok (popSections stack l) out"
  by (induction stack l rule: popSections.induct) auto

lemma popped_top: "popSections stack l = f # g # stack' \<Longrightarrow> f_level f < l"
  by (induction stack l rule: popSections.induct) (auto split: if_splits)

lemma place_pop:
  "stack_ok stack out \<Longrightarrow> place path stack out (MHeading l cs # bs) = place path (popSections stack l) out (MHeading l cs # bs)"
  by (induction stack l rule: popSections.induct) auto

lemma stack_cases:
  assumes "stack_ok stack out"
  obtains (bottom) f where "stack = [f]" "f_node f = None"
  | (nested) f g stack' p t where "stack = f # g # stack'" "f_node f = Some p" "node_at p out = Some t" "Depth (nd t) = int (length p)"
  using assms by (cases "(stack, out)" rule: stack_ok.cases) auto

lemma place_other:
  assumes "stack_ok stack out" "\<not> is_heading b"
  shows "place path stack out (b # bs)
    = place path stack (case nodeFromBlock path b of None \<Rightarrow> out | Some n \<Rightarrow> fst (attachNode stack out n)) bs"
  using assms(1)
proof (cases rule: stack_cases)
  case (bottom f)
  then show ?thesis using assms(2) by (simp add: outline_other attachNode_def split: option.splits)
next
  case (nested f g stack' p t)
  have "append_at p (outline path (int (length p) + 1) (takeWhile (deeper (f_level f)) (b # bs))) out
    = append_at p (outline path (int (length p) + 1) (takeWhile (deeper (f_level f)) bs))
       (case nodeFromBlock path b of None \<Rightarrow> out | Some n \<Rightarrow> fst (attachNode stack out n))"
    using assms(2) nested deeper_other [OF assms(2)]
    by (simp add: outline_other append_at_append attachNode_def add.commute split: option.splits)
  then show ?thesis using nested deeper_other [OF assms(2)] by simp
qed

lemma deeper_mono: "k \<le> l \<Longrightarrow> deeper l b \<Longrightarrow> deeper k b"
  by (cases b) auto

lemma takeWhile_deeper: "k \<le> l \<Longrightarrow> takeWhile (deeper l) (takeWhile (deeper k) bs) = takeWhile (deeper l) bs"
  by (induction bs) (auto dest: deeper_mono)

lemma dropWhile_deeper:
  "k \<le> l \<Longrightarrow> dropWhile (deeper l) (takeWhile (deeper k) bs) = takeWhile (deeper k) (dropWhile (deeper l) bs)
    \<and> dropWhile (deeper k) bs = dropWhile (deeper k) (dropWhile (deeper l) bs)"
  by (induction bs) (auto dest: deeper_mono)

lemma place_heading:
  assumes "stack_ok stack out" "\<And>f g stack'. stack = f # g # stack' \<Longrightarrow> f_level f < l"
    and "attachNode stack out (heading_node path l cs) = (out', p')"
  shows "place path stack out (MHeading l cs # bs) = place path (\<lparr>f_node = Some p', f_level = l\<rparr> # stack) out' bs
    \<and> stack_ok (\<lparr>f_node = Some p', f_level = l\<rparr> # stack) out'"
  using assms(1)
proof (cases rule: stack_cases)
  case (bottom f)
  then show ?thesis using assms(3) append_below_top [of out]
    by (auto simp: attachNode_def outline_heading)
next
  case (nested f g stack' p t)
  let ?x = "(heading_node path l cs)\<lparr>Depth := int (length p) + 1\<rparr>"
  from assms(3) nested have o: "out' = append_at p [CNode ?x []] out" "p' = p @ [length (Children t)]"
    by (auto simp: attachNode_def)
  note below = append_below [OF nested(3), where x = ?x]
  have l: "f_level f < l" "f_level f \<le> l" using assms(2) nested(1) by force+
  let ?T = "takeWhile (deeper l) bs" and ?D = "dropWhile (deeper l) bs"
  have "append_at p (outline path (int (length p) + 1) (takeWhile (deeper (f_level f)) (MHeading l cs # bs))) out
    = append_at p (outline path (int (length p) + 1) (takeWhile (deeper (f_level f)) ?D))
        (append_at p' (outline path (int (length p') + 1) ?T) out')"
    using l below o by (simp add: outline_heading takeWhile_deeper dropWhile_deeper append_at_append [symmetric] add.commute)
  moreover have "dropWhile (deeper (f_level f)) (MHeading l cs # bs) = dropWhile (deeper (f_level f)) ?D"
    using l dropWhile_deeper by simp
  ultimately have "place path stack out (MHeading l cs # bs) = place path (\<lparr>f_node = Some p', f_level = l\<rparr> # stack) out' bs"
    using nested by simp
  moreover have "stack_ok stack out'" unfolding o(1) by (rule stack_ok_append [OF assms(1)])
  ultimately show ?thesis using nested below o by auto
qed

lemma markdown_loop_outline: "stack_ok stack out \<Longrightarrow> markdown_loop path stack out bs = place path stack out bs"
proof (induction bs arbitrary: stack out)
  case Nil
  have "place path stack out [] = out" by (induction stack arbitrary: out) (auto split: option.splits)
  then show ?case by simp
next
  case (Cons b bs)
  show ?case
  proof (cases "is_heading b")
    case True
    then obtain l cs where b: "b = MHeading l cs" by (auto simp: is_heading_def split: mdnode.splits)
    obtain out' p' where a: "attachNode (popSections stack l) out (heading_node path l cs) = (out', p')" by fastforce
    note h = place_heading [OF stack_ok_pop [OF Cons.prems] popped_top a]
    show ?thesis using Cons.IH [OF conjunct2 [OF h]] h a place_pop [OF Cons.prems] unfolding b by simp
  next
    case False
    let ?out = "case nodeFromBlock path b of None \<Rightarrow> out | Some n \<Rightarrow> fst (attachNode stack out n)"
    have "stack_ok stack ?out"
      using Cons.prems
    proof (cases rule: stack_cases)
      case (nested f g stack' p t)
      then show ?thesis using stack_ok_append [OF Cons.prems] Cons.prems
        by (simp add: attachNode_def split: option.splits)
    qed (auto split: option.splits)
    then show ?thesis by (simp only: loop_other [OF False] place_other [OF Cons.prems False] Cons.IH)
  qed
qed

text \<open>C13: the heading stack builds the outline of the document: below its preamble, if it has one, a Markdown file
  becomes the forest in which each heading's subtree is its section, up to the next heading of the same or
  a higher rank, in document order and with depths counted from one.\<close>

theorem parseMarkdown_outline:
  "parseMarkdown marshal unmarshal parse path data =
     (case splitPreamble data of
        (front, body, kind) \<Rightarrow>
          bindR (preambleNode marshal unmarshal path front kind) (\<lambda>pn.
            Inr ((case pn of None \<Rightarrow> [] | Some n \<Rightarrow> [n]) @ outline path 1 (parse body))))"
proof -
  have "markdown_loop path [sentinel] out bs = out @ outline path 1 bs" for out bs
    by (subst markdown_loop_outline) (simp_all add: sentinel_def)
  then show ?thesis
    by (auto simp: parseMarkdown_def bindR_def preambleNode_def split: prod.splits sum.splits)
qed

section \<open>Where the preamble ends\<close>

lemma bytes_Cut_parts: "bytes_Cut s p = Some (b, a) \<Longrightarrow> s = b @ p @ a"
proof (induction s p arbitrary: b rule: bytes_Cut.induct)
  case (1 s p)
  show ?case
  proof (cases "HasPrefix s p")
    case True
    then have "b = []" "a = drop (length p) s" using 1(2) by (simp_all add: bytes_Cut.simps [of s])
    with True show ?thesis by (auto simp: HasPrefix_iff)
  next
    case False
    with 1(2) obtain c t b' where "s = c # t" "bytes_Cut t p = Some (b', a)" "b = c # b'"
      by (subst (asm) bytes_Cut.simps) (auto split: list.splits option.splits)
    with 1(1) [OF False] show ?thesis by simp
  qed
qed

lemma bytes_Cut_first:
  "\<not> ContainsStr (b @ butlast p) p \<Longrightarrow> p \<noteq> [] \<Longrightarrow> bytes_Cut (b @ p @ a) p = Some (b, a)"
proof (induction b)
  case Nil
  then show ?case by (subst bytes_Cut.simps) (simp add: HasPrefix_append)
next
  case (Cons c b)
  have "\<not> HasPrefix (c # b @ p @ a) p"
  proof
    assume "HasPrefix (c # b @ p @ a) p"
    then obtain u where u: "(c # b) @ p @ a = p @ u" by (auto simp: HasPrefix_iff)
    have "p = take (length p) ((c # b) @ p @ a)" unfolding u by simp
    also have "\<dots> = take (length p) ((c # b) @ butlast p)"
    proof -
      have "length p \<le> length ((c # b) @ butlast p)" using Cons.prems(2) by simp
      moreover have "(c # b) @ p @ a = ((c # b) @ butlast p) @ [last p] @ a" using Cons.prems(2) by simp
      ultimately show ?thesis by (metis take_append diff_is_0_eq take_0 append_Nil2)
    qed
    finally have "HasPrefix ((c # b) @ butlast p) p" by (metis HasPrefix_append append_take_drop_id)
    then have "ContainsStr ((c # b) @ butlast p) p" by (simp add: HasPrefix_iff)
    with Cons.prems(1) show False by blast
  qed
  moreover have "\<not> ContainsStr (b @ butlast p) p" using Cons.prems(1) by simp
  ultimately show ?case using Cons by (subst bytes_Cut.simps) simp
qed

lemma contains_before:
  assumes "ContainsStr (front @ LF # butlast d) (LF # d)" "LF \<notin> set d" "d \<noteq> []"
  shows "ContainsStr front (LF # d)"
proof -
  from assms(1) obtain u v where e: "front @ LF # butlast d = u @ LF # d @ v" by (auto simp: ContainsStr_iff)
  then consider (inner) w where "front = u @ LF # w" "w @ LF # butlast d = d @ v"
    | (outer) w where "LF # butlast d = w @ LF # d @ v"
    by (auto simp: append_eq_append_conv2 append_eq_Cons_conv Cons_eq_append_conv)
  then show ?thesis
  proof cases
    case inner
    show ?thesis
    proof (cases "length d \<le> length w")
      case True
      with inner(2) obtain x where "w = d @ x" by (auto simp: append_eq_append_conv2)
      with inner(1) show ?thesis by (auto simp: ContainsStr_iff)
    next
      case False
      have "d = take (length d) (w @ LF # butlast d)" using inner(2) by simp
      also have "\<dots> = w @ take (length d - length w) (LF # butlast d)" using False by simp
      finally have "LF \<in> set d" using False by (metis diff_is_0_eq in_set_conv_decomp linorder_le_less_linear not_less_zero take_Cons' less_irrefl)
      with assms(2) show ?thesis by blast
    qed
  next
    case outer
    from arg_cong [OF outer, of length] have "Suc (length d - 1) = length w + Suc (length d + length v)" by simp
    with assms(3) show ?thesis by (cases d) auto
  qed
qed

lemma splitAtDelim_finds:
  assumes "nl \<in> {[LF], [CR, LF]}" "nl2 \<in> {[LF], [CR, LF]}" "\<not> ContainsStr front (LF # d)" "LF \<notin> set d" "d \<noteq> []"
  shows "splitAtDelim (d @ nl @ front @ [LF] @ d @ nl2 @ body) d kind = (front, body, kind)"
proof -
  have after: "trimLeadingNewline (drop (length d) (d @ nl @ u)) = u" for u
    using assms(1) by (auto simp: trimLeadingNewline_def HasPrefix_def LF_def CR_def)
  have "\<not> ContainsStr (front @ butlast (LF # d)) (LF # d)"
    using contains_before [of front d] assms(3-5) by auto
  from bytes_Cut_first [OF this, of "nl2 @ body"]
  have cut: "bytes_Cut (front @ [LF] @ d @ nl2 @ body) ([LF] @ d) = Some (front, nl2 @ body)" by simp
  have "HasPrefix (nl2 @ body) [CR, LF] \<and> nl2 = [CR, LF] \<or> \<not> HasPrefix (nl2 @ body) [CR, LF] \<and> HasPrefix (nl2 @ body) [LF] \<and> nl2 = [LF]"
    using assms(2) by (auto simp: HasPrefix_def LF_def CR_def)
  then show ?thesis unfolding splitAtDelim_def Let_def after cut by auto
qed

text \<open>C24: a preamble is found and cut out exactly: a file made of a delimiter line, a front part in which no later
  line begins with the delimiter, the delimiter line again and a body is split into that front and that
  body, with Unix or Windows line ends.\<close>

theorem splitPreamble_roundtrip:
  assumes "(d, kind) \<in> {(''---'', preambleYaml), (''+++'', preambleToml)}"
    and "nl \<in> {[LF], [CR, LF]}" "nl2 \<in> {[LF], [CR, LF]}" "\<not> ContainsStr front (LF # d)"
  shows "splitPreamble (d @ nl @ front @ [LF] @ d @ nl2 @ body) = (front, body, kind)"
proof -
  have d: "LF \<notin> set d" "d \<noteq> []" using assms(1) by (auto simp: LF_def)
  have "hasDelimLine (d @ nl @ u) d" "d = ''+++'' \<Longrightarrow> \<not> hasDelimLine (d @ nl @ u) ''---''" for u
    using assms(2) by (auto simp: hasDelimLine_def HasPrefix_def)
  then have "splitPreamble (d @ nl @ front @ [LF] @ d @ nl2 @ body) = splitAtDelim (d @ nl @ front @ [LF] @ d @ nl2 @ body) d kind"
    using assms(1) by (auto simp: splitPreamble_def)
  then show ?thesis using splitAtDelim_finds [OF assms(2-4) d] by simp
qed

theorem splitPreamble_roundtrip_witness:
  "splitPreamble (''---'' @ [LF] @ ''a: 1'' @ [LF] @ ''---'' @ [CR, LF] @ ''text'') = (''a: 1'', ''text'', preambleYaml)"
  by (rule splitPreamble_roundtrip) (simp_all add: HasPrefix_def)

text \<open>Only the first line that begins with the delimiter is looked at: a longer line hides the closing one.\<close>

lemma splitPreamble_hidden:
  "splitPreamble (''---'' @ [LF] @ ''a: 1'' @ [LF] @ ''----'' @ [LF] @ ''---'' @ [LF] @ ''text'')
    = ([], ''---'' @ [LF] @ ''a: 1'' @ [LF] @ ''----'' @ [LF] @ ''---'' @ [LF] @ ''text'', preambleNone)"
  by code_simp

text \<open>Code blocks inside a list are not part of the list's text.\<close>

lemma list_code_dropped:
  "nodeFromBlock path (MList [MOther [MText ''run'', MCodeBlock [] ''make''], MOther [MCodeBlock [] ''make'']])
    = nodeFromBlock path (MList [MOther [MText ''run'']])"
  by (simp add: extractListText_def extractText_def TrimSpace_def ascii_space_def space2_def space3_def)

end
