(* ===== verification/Parser.thy ===== *)
theory Parser
  imports Markdown Compiler
begin

text \<open>
  The package \<open>pkg/parser\<close>, file \<open>parser.go\<close>: reading a file and choosing its parser. The third-party
  decoders are the record \<open>decoders\<close>. The theorems say what the compiler relies on: which files are
  parsed, and that every node comes out placed.
\<close>

record decoders =
  dec_json :: "string \<Rightarrow> gvalue list \<times> error option"
  dec_yaml :: "string \<Rightarrow> error + yvalue"
  dec_toon :: "string \<Rightarrow> error + gvalue"
  dec_markdown :: "string \<Rightarrow> mdnode list"
  enc_toon :: "gvalue \<Rightarrow> error + string"

definition ParseBytes :: "decoders \<Rightarrow> string \<Rightarrow> string \<Rightarrow> error + ContextNode list" where
  "ParseBytes D path data =
     (if \<not> Valid data then Inl (InvalidUTF8 path)
      else let ext = ToLower (Ext path)
        in if ext = ''.md'' \<or> ext = ''.markdown'' then parseMarkdown (enc_toon D) (dec_yaml D) (dec_markdown D) path data
           else if ext = ''.yml'' \<or> ext = ''.yaml'' then parse_yaml (enc_toon D) (dec_yaml D) path data
           else if ext = ''.json'' then parse_json (enc_toon D) (dec_json D) path data
           else if ext = ''.jsonl'' \<or> ext = ''.ndjson'' then parse_lines (enc_toon D) (dec_json D) path data
           else if ext = ''.toon'' then parse_toon (enc_toon D) (dec_toon D) path data
           else Inl (UnsupportedExt ext))"

definition ParseFile :: "decoders \<Rightarrow> (string \<Rightarrow> error + string) \<Rightarrow> string \<Rightarrow> error + ContextNode list" where
  "ParseFile D readFile path = bindR (wrap_error ''failed to read'' (readFile path)) (ParseBytes D path)"

definition Parse :: "decoders \<Rightarrow> string \<Rightarrow> error + string \<Rightarrow> error + ContextNode list" where
  "Parse D path r = bindR (wrap_error (''failed to read: '' @ path) r) (ParseBytes D path)"

section \<open>Which files are parsed\<close>

definition decoders_ok :: "decoders \<Rightarrow> bool" where
  \<comment> \<open>no decoder returns an error of this program\<close>
  "decoders_ok D \<longleftrightarrow>
     (\<forall>data. (\<forall>e. snd (dec_json D data) = Some e \<longrightarrow> \<not> is_unsupported e)
        \<and> (\<forall>e. dec_yaml D data = Inl e \<longrightarrow> \<not> is_unsupported e)
        \<and> (\<forall>e. dec_toon D data = Inl e \<longrightarrow> \<not> is_unsupported e))"

lemma parsers_fail:
  assumes "decoders_ok D"
  shows "parse_json f (dec_json D) path data = Inl e \<Longrightarrow> \<not> is_unsupported e"
    and "parse_lines f (dec_json D) path data = Inl e \<Longrightarrow> \<not> is_unsupported e"
    and "parse_yaml f (dec_yaml D) path data = Inl e \<Longrightarrow> \<not> is_unsupported e"
    and "parse_toon f (dec_toon D) path data = Inl e \<Longrightarrow> \<not> is_unsupported e"
proof -
  have J: "snd (dec_json D data) = Some x \<Longrightarrow> \<not> is_unsupported x" for x using assms by (simp add: decoders_ok_def)
  show "parse_json f (dec_json D) path data = Inl e \<Longrightarrow> \<not> is_unsupported e"
    using J by (auto simp: parse_json_def split: prod.splits list.splits option.splits)
  show "parse_lines f (dec_json D) path data = Inl e \<Longrightarrow> \<not> is_unsupported e"
    using J by (auto simp: parse_lines_def split: prod.splits option.splits)
  show "parse_yaml f (dec_yaml D) path data = Inl e \<Longrightarrow> \<not> is_unsupported e"
    using assms by (auto simp: parse_yaml_def decoders_ok_def Let_def split: sum.splits)
  show "parse_toon f (dec_toon D) path data = Inl e \<Longrightarrow> \<not> is_unsupported e"
    using assms by (auto simp: parse_toon_def decoders_ok_def split: sum.splits)
qed

lemma markdown_fails:
  assumes "decoders_ok D" "parseMarkdown f (dec_yaml D) p path data = Inl e"
  shows "\<not> is_unsupported e"
proof -
  obtain front body kind where s: "splitPreamble data = (front, body, kind)" by (cases "splitPreamble data")
  with assms(2) obtain e' where "preambleNode f (dec_yaml D) path front kind = Inl e'" "e = e'"
    by (auto simp: parseMarkdown_def bindR_def split: sum.splits if_splits)
  then show ?thesis using parsers_fail(3) [OF assms(1), of f path front]
    by (auto simp: preambleNode_def split: preambleKind.splits sum.splits list.splits)
qed



section \<open>Every node is placed\<close>

fun placed :: "string \<Rightarrow> int \<Rightarrow> ContextNode \<Rightarrow> bool" where
  "placed path d (CNode n cs) =
     (SourceFile n = path \<and> Depth n = d \<and> Format n \<in> {FormatPlain, FormatToon}
      \<and> Kind n \<in> {NodeHeading, NodeList, NodeTable, NodeCode, NodeText, NodeKV, NodePreamble}
      \<and> ID n = [] \<and> ParentID n = [] \<and> Label n = [] \<and> Hash n = [] \<and> Temperature n = None
      \<and> list_all (placed path (d + 1)) cs)"

lemma well_placed_placed: "well_placed path d n \<Longrightarrow> placed path d n"
  by (induction path d n rule: well_placed.induct) (auto simp: list_all_iff)

lemma nodeFromBlock_kinds:
  "nodeFromBlock path b = Some n \<Longrightarrow>
    \<exists>kind content. kind \<in> {NodeCode, NodeList, NodeTable, NodeText} \<and> content \<noteq> []
      \<and> n = zero_data\<lparr>SourceFile := path, Kind := kind, Content := content, Format := FormatPlain\<rparr>"
  by (cases b) (auto simp: block_node_def Let_def split: if_splits)

lemma outline_placed: "list_all (placed path d) (outline path d bs)"
proof (induction bs arbitrary: d rule: length_induct)
  case (1 bs)
  show ?case
  proof (cases bs)
    case (Cons b bs')
    show ?thesis
    proof (cases "is_heading b")
      case True
      then obtain l cs where b: "b = MHeading l cs" by (auto simp: is_heading_def split: mdnode.splits)
      have "length (takeWhile (deeper l) bs') < length bs" "length (dropWhile (deeper l) bs') < length bs"
        using length_takeWhile_le [of "deeper l" bs'] length_dropWhile_le [of "deeper l" bs'] Cons by simp_all
      with 1 show ?thesis unfolding Cons b outline_heading by (simp add: heading_node_def zero_data_def)
    next
      case False
      with 1 Cons show ?thesis using nodeFromBlock_kinds [of path b]
        by (auto simp: outline_other zero_data_def split: option.splits)
    qed
  qed simp
qed

lemma yaml_placed: "parse_yaml f u path data = Inr ns \<Longrightarrow> list_all (placed path 1) ns"
  using buildNode_placed(1) well_placed_placed by (auto simp: parse_yaml_def Let_def split: sum.splits if_splits)

lemma preamble_placed: "preambleNode f u path front kind = Inr (Some n) \<Longrightarrow> placed path 1 n"
proof -
  assume p: "preambleNode f u path front kind = Inr (Some n)"
  show ?thesis
  proof (cases kind)
    case preambleYaml
    with p obtain rt rs where r: "parse_yaml f u path front = Inr (rt # rs)" "n = CNode ((nd rt)\<lparr>Kind := NodePreamble\<rparr>) (Children rt)"
      by (auto simp: preambleNode_def split: sum.splits list.splits)
    then show ?thesis using yaml_placed [OF r(1)] by (cases rt) simp
  qed (use p in \<open>auto simp: preambleNode_def zero_data_def\<close>)
qed

lemma markdown_placed: "parseMarkdown f u p path data = Inr ns \<Longrightarrow> list_all (placed path 1) ns"
proof -
  assume a: "parseMarkdown f u p path data = Inr ns"
  obtain front body kind where s: "splitPreamble data = (front, body, kind)" by (cases "splitPreamble data")
  have "markdown_loop path [sentinel] out bs = out @ outline path 1 bs" for out bs
    by (subst markdown_loop_outline) (simp_all add: sentinel_def)
  with a s obtain out where out: "ns = out @ outline path 1 (p body)"
    "out = [] \<or> (\<exists>n. out = [n] \<and> preambleNode f u path front kind = Inr (Some n))"
    by (auto simp: parseMarkdown_def bindR_Inr_iff split: if_splits option.splits)
  then show ?thesis using outline_placed preamble_placed by auto
qed

lemma parsed_placed: "ParseBytes D path data = Inr roots \<Longrightarrow> list_all (placed path 1) roots"
  using markdown_placed yaml_placed buildNode_placed(1) buildList_placed well_placed_placed
  by (auto simp: ParseBytes_def Let_def parse_json_def parse_lines_def parse_toon_def split: if_splits prod.splits list.splits option.splits sum.splits)

text \<open>C22: whatever the format, every node the parser returns carries the file's path, the depth of its level with
  the roots at one, a known node type and format, and leaves the fields the transformer fills empty.\<close>

theorem ParseBytes_placed:
  "case ParseBytes D path data of Inl e \<Rightarrow> True | Inr roots \<Rightarrow> list_all (placed path 1) roots"
  using parsed_placed by (simp split: sum.splits)

end
