(* ===== verification/System.thy ===== *)
theory System
  imports Incremental Parser
begin

text \<open>
  The parser and the incremental compiler together: what the parser returns for the files read is a forest
  in which no node has an ancestor of another file, which is what compiling a part of a directory needs.
\<close>

fun of_file :: "string \<Rightarrow> ContextNode \<Rightarrow> bool" where
  "of_file f (CNode n cs) = (SourceFile n = f \<and> list_all (of_file f) cs)"

lemma placed_of_file: "placed path d n \<Longrightarrow> of_file path n"
  by (induction path d n rule: placed.induct) (auto simp: list_all_iff)

lemma map_nodes_twice: "map_nodes f (map_nodes g ns) = map_nodes (\<lambda>n. f (g n)) ns"
  by (induction ns rule: forest_induct) simp_all

lemma of_file_map_nodes:
  assumes "\<And>n. SourceFile (g n) = k (SourceFile n)"
  shows "list_all (of_file f) ns \<Longrightarrow> list_all (of_file (k f)) (map_nodes g ns)"
  by (induction ns rule: forest_induct) (simp_all add: assms)

lemma chains_top:
  "chains [] pf i (CNode n cs # ns) = [(SourceFile n, pf (SourceFile n))]
     # chains [(SourceFile n, pf (SourceFile n))] (\<lambda>_. 0) 0 cs @ chains [] (pf(SourceFile n := pf (SourceFile n) + 1)) i ns"
  by (simp add: chains.simps(2) Let_def del: fun_upd_apply)

lemma chains_nested:
  "c \<noteq> [] \<Longrightarrow> chains c pf i (CNode n cs # ns) = ((SourceFile n, i) # c)
     # chains ((SourceFile n, i) # c) (\<lambda>_. 0) 0 cs @ chains c pf (i + 1) ns"
  by (simp add: chains.simps(2) Let_def)

lemma inner_chains:
  "c \<noteq> [] \<Longrightarrow> fst (hd c) = f \<Longrightarrow> list_all (of_file f) ns \<Longrightarrow> x \<in> set (chains c pf i ns) \<Longrightarrow>
    fst (hd x) = f \<and> (tl x = c \<or> tl x \<in> set (chains c pf i ns) \<and> fst (hd (tl x)) = f)"
proof (induction ns arbitrary: c pf i x rule: forest_induct)
  case (Node n cs ns)
  let ?c = "(SourceFile n, i) # c"
  from Node.prems(4) consider "x = ?c" | "x \<in> set (chains ?c (\<lambda>_. 0) 0 cs)" | "x \<in> set (chains c pf (i + 1) ns)"
    unfolding chains_nested [OF Node.prems(1)] by (simp only: list.set set_append Un_iff insert_iff) blast
  then show ?case
  proof cases
    case 1
    with Node.prems show ?thesis by simp
  next
    case 2
    from Node.IH(1) [OF _ _ _ 2] Node.prems(2,3) show ?thesis unfolding chains_nested [OF Node.prems(1)] by auto
  next
    case 3
    from Node.IH(2) [OF Node.prems(1,2) _ 3] Node.prems(3) show ?thesis unfolding chains_nested [OF Node.prems(1)] by auto
  qed
qed simp

lemma top_chains:
  "\<forall>n \<in> set ns. \<exists>f. of_file f n \<Longrightarrow> x \<in> set (chains [] pf i ns) \<Longrightarrow> tl x \<noteq> [] \<Longrightarrow>
    tl x \<in> set (chains [] pf i ns) \<and> fst (hd (tl x)) = fst (hd x)"
proof (induction ns arbitrary: pf rule: forest_induct)
  case (Node n cs ns)
  let ?c = "[(SourceFile n, pf (SourceFile n))]" and ?pf = "pf(SourceFile n := pf (SourceFile n) + 1)"
  from Node.prems(2) consider "x = ?c" | "x \<in> set (chains ?c (\<lambda>_. 0) 0 cs)" | "x \<in> set (chains [] ?pf i ns)"
    unfolding chains_top by (simp only: list.set set_append Un_iff insert_iff) blast
  then show ?case
  proof cases
    case 1
    with Node.prems(3) show ?thesis by simp
  next
    case 2
    have "list_all (of_file (SourceFile n)) cs" using Node.prems(1) by auto
    from inner_chains [OF _ _ this 2] show ?thesis unfolding chains_top by (auto simp del: fun_upd_apply)
  next
    case 3
    from Node.IH(2) [OF _ 3 Node.prems(3)] Node.prems(1) show ?thesis unfolding chains_top by (auto simp del: fun_upd_apply)
  qed
qed simp

lemma forest_file_chains:
  assumes "\<forall>n \<in> set ns. \<exists>f. of_file f n"
  shows "file_chains (set (forest_chains ns croot))"
proof -
  have "\<exists>f. of_file f m" if m: "m \<in> set (map_nodes g ns)" and g: "\<And>n. SourceFile (g n) = k (SourceFile n)" for g k m
  proof -
    from m assms show ?thesis
    proof (induction ns rule: forest_induct)
      case (Node d cs ns)
      then show ?case using of_file_map_nodes [of g k] g by (auto simp: list_all_iff)
    qed simp
  qed
  note keep = this
  let ?k = "\<lambda>f. if prefix_to_strip (flat_data (skeleton ns)) croot = [] then f else TrimPrefix f (prefix_to_strip (flat_data (skeleton ns)) croot)"
  have "compressPrefix (skeleton ns) croot = map_nodes (\<lambda>n. zero_data\<lparr>SourceFile := ?k (SourceFile n)\<rparr>) ns"
    by (cases "ns = []") (simp_all add: compressPrefix_def skeleton_def Let_def map_nodes_twice)
  then have "\<forall>m \<in> set (compressPrefix (skeleton ns) croot). \<exists>f. of_file f m"
    using keep [of _ "\<lambda>n. zero_data\<lparr>SourceFile := ?k (SourceFile n)\<rparr>" ?k] by simp
  from top_chains [OF this] show ?thesis by (simp add: file_chains_def forest_chains_def)
qed

section \<open>What was read\<close>

lemma compiled_of_file: "compile_file readFile (ParseBytes D) temps p = Inr ns \<Longrightarrow> list_all (of_file p) ns"
proof -
  assume c: "compile_file readFile (ParseBytes D) temps p = Inr ns"
  then obtain data where read: "readFile p = Inr data" by (auto simp: compile_file_def bindR_Inr_iff)
  have "ns = [] \<or> (\<exists>ms. ParseBytes D p data = Inr ms \<and> (ns = ms \<or> (\<exists>t. ns = seedTemp ms t)))"
  proof (cases "ParseBytes D p data")
    case (Inl e)
    with c read show ?thesis by (simp add: compile_file_def split: if_splits)
  next
    case (Inr ms)
    with c read show ?thesis by (cases "temps p") (simp_all add: compile_file_def, blast)
  qed
  moreover have "list_all (of_file p) ms" if "ParseBytes D p data = Inr ms" for ms
    using parsed_placed [OF that] placed_of_file by (auto simp: list_all_iff)
  moreover have "list_all (of_file p) ms \<Longrightarrow> list_all (of_file p) (seedTemp ms t)" for ms t
    unfolding seedTemp_def using of_file_map_nodes [of "\<lambda>n. n\<lparr>Temperature := Some t\<rparr>" "\<lambda>f. f" p ms] by simp
  ultimately show ?thesis by auto
qed

lemma compile_files_of_file:
  assumes "\<And>p ns. f p = Inr ns \<Longrightarrow> list_all (of_file p) ns"
  shows "compile_files f ps = Inr roots \<Longrightarrow> n \<in> set roots \<Longrightarrow> \<exists>p \<in> set ps. of_file p n"
proof (induction ps arbitrary: roots)
  case (Cons p ps)
  from Cons.prems(1) obtain ns rest where "f p = Inr ns" "compile_files f ps = Inr rest" "roots = ns @ rest"
    by (auto simp: bindR_Inr_iff)
  with Cons assms [of p ns] show ?case by (auto simp: list_all_iff)
qed simp

text \<open>The compiler's files do not mix: in whatever forest the parser returns for the files read, under
  whatever root it is compiled, the ancestors of a node belong to the node's file.\<close>

theorem parsed_file_chains:
  "case compile_files (compile_file readFile (ParseBytes D) temps) paths of
     Inl e \<Rightarrow> True
   | Inr roots \<Rightarrow> file_chains (set (forest_chains roots croot))"
proof (cases "compile_files (compile_file readFile (ParseBytes D) temps) paths")
  case (Inr roots)
  have "\<forall>n \<in> set roots. \<exists>f. of_file f n"
    using compile_files_of_file [OF _ Inr] compiled_of_file by blast
  from forest_file_chains [OF this] Inr show ?thesis by simp
qed simp

section \<open>A rescan is a full compilation\<close>

lemma files_of_tree: "of_file f n \<Longrightarrow> SourceFile ` set (flat_data [n]) = {f}"
proof -
  have "list_all (of_file f) ns \<Longrightarrow> SourceFile ` set (flat_data ns) \<subseteq> {f}" for ns
    by (induction ns rule: forest_induct) auto
  from this [of "[n]"] show "of_file f n \<Longrightarrow> SourceFile ` set (flat_data [n]) = {f}" by (cases n) auto
qed

lemma flat_data_Cons: "flat_data (n # ns) = flat_data [n] @ flat_data ns"
  using flat_data_append [of "[n]" ns] by simp

lemma files_of_compiled:
  assumes "\<And>p ns. f p = Inr ns \<Longrightarrow> list_all (of_file p) ns"
  shows "compile_files f ps = Inr roots \<Longrightarrow> files_of roots = {p \<in> set ps. f p \<noteq> Inr []}"
proof (induction ps arbitrary: roots)
  case (Cons p ps)
  from Cons.prems obtain ns rest where f: "f p = Inr ns" "compile_files f ps = Inr rest" "roots = ns @ rest"
    by (auto simp: bindR_Inr_iff)
  have "list_all (of_file p) ms \<Longrightarrow> files_of ms = (if ms = [] then {} else {p})" for ms
  proof (induction ms)
    case (Cons m ms)
    then show ?case using files_of_tree [of p m] by (simp add: flat_data_Cons [of m ms] image_Un)
  qed simp
  from this [OF assms [OF f(1)]] Cons.IH [OF f(2)] f show ?case by (auto simp: flat_data_append image_Un)
qed simp

definition strip :: "string \<Rightarrow> string \<Rightarrow> string" where
  \<comment> \<open>the stored path of a file compiled under a root\<close>
  "strip croot p = TrimPrefix p (prefix_to_strip [] croot)"

lemma files_of_Transform: "croot \<noteq> [] \<Longrightarrow> files_of (Transform h ns croot) = strip croot ` files_of ns"
proof -
  assume r: "croot \<noteq> []"
  have p: "prefix_to_strip ms croot = prefix_to_strip [] croot" for ms by (simp only: prefix_to_strip_root [OF r])
  have sources: "map SourceFile (flat_data (Transform h ns croot)) = map SourceFile (flat_data (compressPrefix (map_nodes compress ns) croot))"
    by (simp add: Transform_eq flat_sources_wire flat_data_map_nodes)
  have "prefix_to_strip [] croot \<noteq> []" using r by (simp add: prefix_to_strip_root)
  then have "map SourceFile (flat_data (Transform h ns croot)) = map (strip croot) (map SourceFile (flat_data ns))"
    unfolding sources
    by (cases "ns = []") (simp_all add: compressPrefix_def Let_def p [of "map compress (flat_data ns)"] flat_data_map_nodes strip_def)
  then show ?thesis by (metis image_set)
qed

lemma strip_inj: "HasPrefix p (prefix_to_strip [] croot) \<Longrightarrow> HasPrefix q (prefix_to_strip [] croot) \<Longrightarrow> strip croot p = strip croot q \<Longrightarrow> p = q"
  by (auto simp: strip_def TrimPrefix_def HasPrefix_def split: if_splits) (metis append_take_drop_id)

lemma strip_apart:
  assumes "\<And>p. p \<in> A \<union> B \<Longrightarrow> HasPrefix p (prefix_to_strip [] croot)" "A \<inter> B = {}"
  shows "strip croot ` A \<inter> strip croot ` B = {}"
proof -
  have "inj_on (strip croot) (A \<union> B)" using assms(1) strip_inj by (blast intro: inj_onI)
  from inj_on_image_Int [OF this, of A B] assms(2) show ?thesis by simp
qed

lemma compile_files_append:
  "compile_files f (xs @ ys) = bindR (compile_files f xs) (\<lambda>a. bindR (compile_files f ys) (\<lambda>b. Inr (a @ b)))"
proof (induction xs)
  case (Cons p xs)
  then show ?case by (cases "f p"; cases "compile_files f xs"; cases "compile_files f ys") simp_all
qed (cases "compile_files f ys"; simp)

lemma compile_files_cong: "(\<And>p. p \<in> set ps \<Longrightarrow> f p = g p) \<Longrightarrow> compile_files f ps = compile_files g ps"
  by (induction ps) simp_all

text \<open>C2: compiling the edited files of a directory is compiling the directory: when the store mirrors what the
  files held before, some files are edited, deleted contents excepted, and the compiler is given only those,
  then a compilation that reports success leaves the store as compiling every file anew would, with
  the real parser on whatever the files now hold.\<close>

theorem rescan_is_full:
  fixes readBefore readAfter D
  defines "f \<equiv> compile_file readBefore (ParseBytes D) Map.empty" and "f' \<equiv> compile_file readAfter (ParseBytes D) Map.empty"
  assumes "reachable h X C croot d" "file_chains X" "collision_free h X C" "croot \<noteq> []"
    and "\<forall>p \<in> set (rest @ changed). HasPrefix p (prefix_to_strip [] croot)" "set rest \<inter> set changed = {}"
    and "compile_files f rest = Inr same" "compile_files f changed = Inr old" "compile_files f' changed = Inr new"
    and "\<forall>p \<in> set rest. readAfter p = readBefore p" "\<forall>p \<in> set changed. f' p \<noteq> Inr []"
    and "forest_in h X C croot same" "forest_in h X C croot old" "forest_in h X C croot new"
    and "view (t_nodes d) = map_of (SnapshotFromNodes (Transform h (same @ old) croot))"
    and "oPaths opts = changed" "oTemps opts = Map.empty" "oCompileRoot opts = croot" "\<not> oFullRescan opts"
    and "Compile h env ctxErr now readAfter (ParseBytes D) opts d = (Inr r, d')"
  shows "compile_files f' (rest @ changed) = Inr (same @ new)
    \<and> view (t_nodes d') = map_of (SnapshotFromNodes (Transform h (same @ new) croot))"
proof -
  have parsed: "\<And>p ns. f p = Inr ns \<Longrightarrow> list_all (of_file p) ns" "\<And>p ns. f' p = Inr ns \<Longrightarrow> list_all (of_file p) ns"
    unfolding f_def f'_def by (rule compiled_of_file, assumption)+
  have files: "files_of same = {p \<in> set rest. f p \<noteq> Inr []}" "files_of old = {p \<in> set changed. f p \<noteq> Inr []}"
    "files_of new = {p \<in> set changed. f' p \<noteq> Inr []}"
    by (rule files_of_compiled [OF _ assms(9)] files_of_compiled [OF _ assms(10)] files_of_compiled [OF _ assms(11)]; erule parsed)+
  have disjoint: "files_of (Transform h same croot) \<inter> files_of (Transform h new croot) = {}"
    unfolding files_of_Transform [OF assms(6)] files by (rule strip_apart) (use assms(7,8) in auto)
  have covered: "files_of (Transform h old croot) \<subseteq> files_of (Transform h new croot)"
    unfolding files_of_Transform [OF assms(6)] files by (rule image_mono) (use assms(13) in auto)
  have run: "compile_roots h env ctxErr now opts new d = (Inr r, d')"
    using assms(22,11,18,19) by (simp add: Compile_def f'_def)
  have full: "\<And>i. view (t_nodes d') i = map_of (SnapshotFromNodes (Transform h (same @ new) croot)) i"
    by (rule incremental_full [OF assms(3-6,14-16) disjoint covered assms(17,20,21) run])
  have "compile_files f' rest = compile_files f rest"
    by (rule compile_files_cong) (simp add: f_def f'_def compile_file_def assms(12))
  then have "compile_files f' (rest @ changed) = Inr (same @ new)"
    using assms(9,11) by (simp add: compile_files_append)
  with full show ?thesis by (simp add: fun_eq_iff)
qed

text \<open>Two Markdown files, each a paragraph, of which one is edited.\<close>

definition plain_decoders :: decoders where
  "plain_decoders = \<lparr>dec_json = (\<lambda>data. ([], None)), dec_yaml = (\<lambda>data. Inr YNull), dec_toon = (\<lambda>data. Inr GNull),
     dec_markdown = (\<lambda>data. [MOther [MText data]]), enc_toon = (\<lambda>v. Inr [])\<rparr>"

definition disk :: "string \<Rightarrow> string \<Rightarrow> error + string" where
  "disk txt p = (if p = ''/v/a.md'' then Inr txt else Inr ''z'')"

definition md_file :: "string \<Rightarrow> string \<Rightarrow> ContextNode list" where
  "md_file p txt = [CNode (zero_data\<lparr>SourceFile := p, Kind := NodeText, Content := txt, Depth := 1, Format := FormatPlain\<rparr>) []]"

lemma disk_files:
  "compile_files (compile_file (disk ''x'') (ParseBytes plain_decoders) Map.empty) [''/v/b.md''] = Inr (md_file ''/v/b.md'' ''z'')"
  "compile_files (compile_file (disk ''x'') (ParseBytes plain_decoders) Map.empty) [''/v/a.md''] = Inr (md_file ''/v/a.md'' ''x'')"
  "compile_files (compile_file (disk ''y'') (ParseBytes plain_decoders) Map.empty) [''/v/a.md''] = Inr (md_file ''/v/a.md'' ''y'')"
  by code_simp+

definition md_chains :: "chain set" where
  "md_chains = {[(''a.md'', 0)], [(''b.md'', 0)]}"

lemma md_hash: "collision_free sum_hash md_chains edit_texts" "file_chains md_chains"
proof -
  have "idof (IdentifyNode sum_hash) [(''a.md'', 0)] \<noteq> idof (IdentifyNode sum_hash) [(''b.md'', 0)]" by code_simp
  moreover have "distinct (map sum_hash [''x'', ''y'', ''z''])" by code_simp
  ultimately show "collision_free sum_hash md_chains edit_texts"
    by (auto simp: collision_free_def md_chains_def edit_texts_def)
  show "file_chains md_chains" by (simp add: file_chains_def md_chains_def)
qed

lemma md_forest_chains:
  "forest_chains (md_file ''/v/b.md'' ''z'') ''/v'' = [[(''b.md'', 0)]]"
  "forest_chains (md_file ''/v/a.md'' ''x'') ''/v'' = [[(''a.md'', 0)]]"
  "forest_chains (md_file ''/v/a.md'' ''y'') ''/v'' = [[(''a.md'', 0)]]"
  "forest_chains (md_file ''/v/b.md'' ''z'' @ md_file ''/v/a.md'' ''x'') ''/v'' = [[(''b.md'', 0)], [(''a.md'', 0)]]"
  by code_simp+

lemma md_contents:
  "map Content (flat_data (Transform sum_hash (md_file ''/v/b.md'' ''z'') ''/v'')) = [''z'']"
  "map Content (flat_data (Transform sum_hash (md_file ''/v/a.md'' ''x'') ''/v'')) = [''x'']"
  "map Content (flat_data (Transform sum_hash (md_file ''/v/a.md'' ''y'') ''/v'')) = [''y'']"
  "map Content (flat_data (Transform sum_hash (md_file ''/v/b.md'' ''z'' @ md_file ''/v/a.md'' ''x'') ''/v'')) = [''z'', ''x'']"
  by code_simp+

lemma md_forests:
  "forest_in sum_hash md_chains edit_texts ''/v'' (md_file ''/v/b.md'' ''z'')"
  "forest_in sum_hash md_chains edit_texts ''/v'' (md_file ''/v/a.md'' ''x'')"
  "forest_in sum_hash md_chains edit_texts ''/v'' (md_file ''/v/a.md'' ''y'')"
  "forest_in sum_hash md_chains edit_texts ''/v'' (md_file ''/v/b.md'' ''z'' @ md_file ''/v/a.md'' ''x'')"
  unfolding forest_in_def md_forest_chains set_map [symmetric] md_contents
  by (simp_all add: md_chains_def edit_texts_def)

lemma md_cursor: "CursorHashFlat sum_hash (flat_data (Transform sum_hash (md_file ''/v/a.md'' ''y'') ''/v''))
    \<noteq> CursorHashFlat sum_hash (flat_data (Transform sum_hash (md_file ''/v/b.md'' ''z'' @ md_file ''/v/a.md'' ''x'') ''/v''))"
  by code_simp

definition md_options :: compile_options where
  "md_options = part_options\<lparr>oPaths := [''/v/a.md'']\<rparr>"

lemma md_options: "oPaths md_options = [''/v/a.md'']" "oTemps md_options = Map.empty" "oCompileRoot md_options = ''/v''" "\<not> oFullRescan md_options"
  by (simp_all add: md_options_def part_options_def scan_options_def)

theorem rescan_is_full_witness:
  "\<exists>d1 r d2. Compile sum_hash fair_env NoRows 9 (disk ''y'') (ParseBytes plain_decoders) md_options d1 = (Inr r, d2)
     \<and> view (t_nodes d1) = map_of (SnapshotFromNodes (Transform sum_hash (md_file ''/v/b.md'' ''z'' @ md_file ''/v/a.md'' ''x'') ''/v''))
     \<and> view (t_nodes d2) = map_of (SnapshotFromNodes (Transform sum_hash (md_file ''/v/b.md'' ''z'' @ md_file ''/v/a.md'' ''y'') ''/v''))"
proof -
  obtain r0 d1 where d1: "compile_roots sum_hash fair_env NoRows 0 scan_options (md_file ''/v/b.md'' ''z'' @ md_file ''/v/a.md'' ''x'') empty_db = (Inr r0, d1)"
    and reach: "reachable sum_hash md_chains edit_texts ''/v'' d1"
    and view: "view (t_nodes d1) = map_of (SnapshotFromNodes (Transform sum_hash (md_file ''/v/b.md'' ''z'' @ md_file ''/v/a.md'' ''x'') ''/v''))"
    and hashes: "s_cursor_hash ` set (t_snapshots d1) \<subseteq> {CursorHashFlat sum_hash (flat_data (Transform sum_hash (md_file ''/v/b.md'' ''z'' @ md_file ''/v/a.md'' ''x'') ''/v''))}"
    by (rule first_compile [OF md_hash(1) md_forests(4)])
  obtain r d2 where "compile_roots sum_hash fair_env NoRows 9 md_options (md_file ''/v/a.md'' ''y'') d1 = (Inr r, d2)"
    by (rule second_compile [OF reach md_hash(1) md_forests(3) hashes md_cursor md_options(3,4)])
  then have c: "Compile sum_hash fair_env NoRows 9 (disk ''y'') (ParseBytes plain_decoders) md_options d1 = (Inr r, d2)"
    unfolding Compile_def md_options disk_files sum.case .
  have below: "\<forall>p \<in> set ([''/v/b.md''] @ [''/v/a.md'']). HasPrefix p (prefix_to_strip [] ''/v'')" by code_simp
  have apart: "set [''/v/b.md''] \<inter> set [''/v/a.md''] = {}" by simp
  have same: "\<forall>p \<in> set [''/v/b.md'']. disk ''y'' p = disk ''x'' p" by (simp add: disk_def)
  have "compile_file (disk ''y'') (ParseBytes plain_decoders) Map.empty ''/v/a.md'' \<noteq> Inr []" by code_simp
  then have kept: "\<forall>p \<in> set [''/v/a.md'']. compile_file (disk ''y'') (ParseBytes plain_decoders) Map.empty p \<noteq> Inr []" by simp
  from rescan_is_full [OF reach md_hash(2,1) list.distinct(2) below apart disk_files same kept md_forests(1-3) view md_options c] c view
  show ?thesis by blast
qed

end
