(* ===== verification/Server.thy ===== *)
theory Server
  imports Tools System
begin

text \<open>
  The server as a whole: \<open>pkg/mcp/server.go\<close>, which builds the handlers' dependencies, names the tools
  and sends the warnings about cold nodes, and \<open>serveCore\<close> of \<open>cmd/remindb/serve.go\<close>, which runs the
  tools, the temperature tracker and the rescan loop on one store. Its goroutines become a sequence of
  events, in any order; an event is one transaction or one operation under \<open>OpMu\<close>, and a reading
  tool's boost may also land later than its reads, as an event of its own. The protocol library is left
  out: a tool call is a value of \<open>tool_call\<close>, a session is what becomes of a message sent to it.
\<close>

section \<open>Building the server\<close>

record Deps =
  \<comment> \<open>store, engine and logger have no state here; the tracker is the one of the loop\<close>
  dpSourceDir :: string
  dpSummarizeRebound :: real

record Server =
  svDeps :: Deps
  svNotifyThreshold :: real

definition NewServer :: "Config \<Rightarrow> string \<Rightarrow> Server" where
  "NewServer cfg sourceDir =
     \<lparr>svDeps = \<lparr>dpSourceDir = sourceDir, dpSummarizeRebound = SummarizeRebound cfg\<rparr>,
      svNotifyThreshold = NotifyThreshold cfg\<rparr>"

section \<open>Warnings\<close>

record coldNodeEntry =
  ceID :: string
  ceLabel :: string
  ceSourceFile :: string
  ceTemperature :: real

record LoggingMessage =
  lmLevel :: string
  lmLogger :: string
  lmMessage :: string
  lmSuggestedAction :: string
  lmNodes :: "coldNodeEntry list"

definition cold_message :: "Node list \<Rightarrow> LoggingMessage" where
  "cold_message nodes =
     \<lparr>lmLevel = ''warning'', lmLogger = ''remindb.temperature'',
      lmMessage = ''Cold nodes detected; consider summarizing via MemorySummarize'',
      lmSuggestedAction = ''MemorySummarize'',
      lmNodes = map (\<lambda>n. \<lparr>ceID = nID n, ceLabel = nLabel n, ceSourceFile = nSourceFile n, ceTemperature = nTemperature n\<rparr>) nodes\<rparr>"

type_synonym session = "LoggingMessage \<Rightarrow> error option"

fun count_sent :: "LoggingMessage \<Rightarrow> session list \<Rightarrow> nat \<Rightarrow> nat" where
  "count_sent params [] sent = sent"
| "count_sent params (ss # sessions) sent =
     (case ss params of
        Some e \<Rightarrow> count_sent params sessions sent
      | None \<Rightarrow> count_sent params sessions (sent + 1))"

definition sendColdLogging :: "session list \<Rightarrow> Node list \<Rightarrow> nat" where
  "sendColdLogging sessions nodes = count_sent (cold_message nodes) sessions 0"

section \<open>The tools\<close>

datatype tool_call =
    MemoryFetch string int int        \<comment> \<open>anchor, budget, depth\<close>
  | MemorySearch string int           \<comment> \<open>query, budget\<close>
  | MemoryWrite string string         \<comment> \<open>anchor, payload\<close>
  | MemoryCompile string string       \<comment> \<open>path, message\<close>
  | MemoryDelta int                   \<comment> \<open>since\<close>
  | MemorySummarize string string "real option"   \<comment> \<open>identifier, summary, temperature\<close>
  | MemoryHistory string int          \<comment> \<open>anchor, depth\<close>
  | MemoryTree string int             \<comment> \<open>root, depth\<close>

text \<open>What the surroundings do during an event: the engine in the first and in the second transaction (a boost is the second), the
  full-text index, the clock, the file system and the sessions.\<close>

record surroundings =
  su_tx :: "nat \<Rightarrow> attempt_env"
  su_tx2 :: "nat \<Rightarrow> attempt_env"
  su_ctxErr :: error
  su_fts :: "string \<Rightarrow> db \<Rightarrow> error + (string \<times> real) list"
  su_now :: int
  su_fs :: FS
  su_mtimes :: "string \<Rightarrow> int option"
  su_symlinks :: "string \<Rightarrow> error + string"
  su_stat :: "string \<Rightarrow> error + bool"
  su_sessions :: "session list"

text \<open>The code outside the repository: hash, decoders and the decoder of the temperature file.\<close>

record libraries =
  li_hash :: "string \<Rightarrow> 64 word"
  li_decoders :: decoders
  li_unmarshal :: "string \<Rightarrow> error + (string \<times> jvalue) list"

definition su_nodes :: "surroundings \<Rightarrow> db NodeStore" where
  "su_nodes w = sql_node_store (su_tx2 w) (su_ctxErr w) (su_now w)"

definition su_query :: "surroundings \<Rightarrow> db QueryStore" where
  "su_query w = sql_query_store (SearchRanked (su_fts w))"

fun call_tool :: "libraries \<Rightarrow> Deps \<Rightarrow> Tracker option \<Rightarrow> surroundings \<Rightarrow> tool_call \<Rightarrow> db \<Rightarrow> (error + string) \<times> db" where
  "call_tool l dp tr w (MemoryFetch anchor budget depth) d =
     HandleFetch (su_query w) (su_nodes w) tr anchor budget depth (su_now w) d"
| "call_tool l dp tr w (MemorySearch query budget) d =
     HandleSearch (su_query w) (su_nodes w) tr query budget (su_now w) d"
| "call_tool l dp tr w (MemoryWrite anchor payload) d =
     HandleWrite (li_hash l) (su_tx w) (su_ctxErr w) (su_now w) anchor payload d"
| "call_tool l dp tr w (MemoryCompile path message) d =
     HandleCompile (li_hash l) (su_tx w) (su_ctxErr w) (su_now w) (su_fs w) (li_unmarshal l) (ParseBytes (li_decoders l))
       (su_symlinks w) (su_stat w) (dpSourceDir dp) path message d"
| "call_tool l dp tr w (MemoryDelta since) d = (HandleDelta (su_query w) since d, d)"
| "call_tool l dp tr w (MemorySummarize i summary temp) d =
     HandleSummarize (li_hash l) (su_tx w) (su_ctxErr w) (su_now w) (dpSummarizeRebound dp) i summary temp d"
| "call_tool l dp tr w (MemoryHistory anchor depth) d = (Inr (HandleHistory anchor depth d), d)"
| "call_tool l dp tr w (MemoryTree start depth) d = (HandleTree start depth d, d)"

section \<open>Serving\<close>

record serving =
  sgServer :: Server
  sgTracker :: Tracker
  sgRescan :: "RescanLoop option"
  sgDb :: db

text \<open>The start: \<open>opened\<close> is the migrated database, or why it could not be opened or migrated.\<close>

definition serve_start :: "libraries \<Rightarrow> surroundings \<Rightarrow> Config \<Rightarrow> string \<Rightarrow> int \<Rightarrow> error + unit \<Rightarrow> error + db
    \<Rightarrow> (error + config_error) + serving" where
  "serve_start l w cfg sourceDir rescanInterval stat opened =
     (case opened of
        Inl e \<Rightarrow> Inl (Inl e)
      | Inr d \<Rightarrow>
          (case NewTracker cfg of
             Inl e \<Rightarrow> Inl (Inr e)
           | Inr tracker \<Rightarrow>
               let srv = NewServer cfg sourceDir
               in if sourceDir = [] then Inr \<lparr>sgServer = srv, sgTracker = tracker, sgRescan = None, sgDb = d\<rparr>
                  else (case MaybeInitialCompile (li_hash l) (su_tx w) (su_ctxErr w) (su_now w) (su_fs w) (li_unmarshal l)
                               (ParseBytes (li_decoders l)) stat sourceDir d of
                          (Some e, d') \<Rightarrow> Inl (Inl e)
                        | (None, d') \<Rightarrow>
                            (case NewRescanLoop (fs_open (su_fs w)) sourceDir rescanInterval of
                               Inl e \<Rightarrow> Inl (Inl e)
                             | Inr rescan \<Rightarrow> Inr \<lparr>sgServer = srv, sgTracker = tracker, sgRescan = Some rescan, sgDb = d'\<rparr>))))"

datatype event =
    Call tool_call
  | Boost QResult     \<comment> \<open>of a reading tool that has read earlier\<close>
  | Tick_fires
  | Rescan_fires

definition cold_handler :: "real \<Rightarrow> session list \<Rightarrow> Node list \<Rightarrow> int \<Rightarrow> Tracker \<times> db \<Rightarrow> Tracker \<times> db" where
  "cold_handler threshold sessions nodes now st =
     (MarkNotified (fst st) (NotifyColdNodes threshold (sendColdLogging sessions) nodes) now, snd st)"

fun serve_step :: "libraries \<Rightarrow> surroundings \<Rightarrow> event \<Rightarrow> serving \<Rightarrow> serving" where
  "serve_step l w (Call c) s =
     s\<lparr>sgDb := snd (call_tool l (svDeps (sgServer s)) (Some (sgTracker s)) w c (sgDb s))\<rparr>"
| "serve_step l w (Boost result) s =
     s\<lparr>sgDb := boostResultNodes (su_nodes w) (Some (sgTracker s)) result (sgDb s)\<rparr>"
| "serve_step l w Tick_fires s =
     (case Run (su_nodes w) (Some (cold_handler (svNotifyThreshold (sgServer s)) (su_sessions w))) [su_now w]
             (sgTracker s, sgDb s) of
        (batches, tracker, d) \<Rightarrow> s\<lparr>sgTracker := tracker, sgDb := d\<rparr>)"
| "serve_step l w Rescan_fires s =
     (case sgRescan s of
        None \<Rightarrow> s
      | Some r \<Rightarrow>
          (case scan (li_hash l) (su_tx w) (su_tx2 w) (su_ctxErr w) (su_fs w) (su_mtimes w) (ParseBytes (li_decoders l)) (su_now w) r (sgDb s) of
             (out, r', d) \<Rightarrow> s\<lparr>sgRescan := Some r', sgDb := d\<rparr>))"

fun serve :: "libraries \<Rightarrow> (surroundings \<times> event) list \<Rightarrow> serving \<Rightarrow> serving" where
  "serve l [] s = s"
| "serve l ((w, ev) # evs) s = serve l evs (serve_step l w ev s)"


section \<open>Temperatures stay between 0 and 1\<close>

definition mild :: "node_data \<Rightarrow> bool" where
  "mild n \<longleftrightarrow> (case Temperature n of None \<Rightarrow> True | Some t \<Rightarrow> 0 \<le> t \<and> t \<le> 1)"

lemma wire_temps: "map Temperature (flat_data (wireIdentity ident p pf i ns)) = map Temperature (flat_data ns)"
  by (induction ns arbitrary: p pf i rule: forest_induct) (auto simp: Let_def setIdentity_def)

lemma Transform_temps: "map Temperature (flat_data (Transform h roots r)) = map Temperature (flat_data roots)"
proof -
  have "map Temperature (flat_data (map_nodes (enrich h) ns)) = map Temperature (flat_data ns)"
    "map Temperature (flat_data (map_nodes compress ns)) = map Temperature (flat_data ns)"
    "map Temperature (flat_data (compressPrefix ns r)) = map Temperature (flat_data ns)" for ns
    by (simp_all add: compressPrefix_def Let_def flat_data_map_nodes comp_def enrich_def setTokenCount_def setLabel_def
        setContentHash_def compress_def)
  then show ?thesis by (simp add: Transform_eq wire_temps)
qed

lemma Transform_mild:
  assumes "\<forall>n \<in> set (flat_data roots). mild n"
  shows "\<forall>n \<in> set (flat_data (Transform h roots r)). mild n"
proof -
  have "Temperature ` set (flat_data (Transform h roots r)) = Temperature ` set (flat_data roots)"
    unfolding set_map [symmetric] Transform_temps ..
  then have "\<exists>m \<in> set (flat_data roots). Temperature n = Temperature m" if "n \<in> set (flat_data (Transform h roots r))" for n
    using that by blast
  with assms show ?thesis by (fastforce simp: mild_def)
qed

lemma upsert_temps:
  assumes "mild n" "\<forall>x \<in> set rows. 0 \<le> c_temperature x \<and> c_temperature x \<le> 1" "x \<in> set (upsert_rows now (nodeFromContext n) rows)"
  shows "0 \<le> c_temperature x \<and> c_temperature x \<le> 1"
  using assms by (auto simp: upsert_rows_def mild_def insert_row_def update_row_def nodeFromContext_def split: if_splits option.splits)

definition good :: "db \<Rightarrow> bool" where
  "good d \<longleftrightarrow> db_ok d \<and> temps_ok d"

lemma Emit_good:
  assumes "good d" "\<forall>n \<in> set (flat_data roots). mild n" "Emit env ctxErr now roots ds h m r d = (res, d')"
  shows "good d'"
  using assms(3)
proof (rule Emit_cases)
  assume body: "emit_body now roots ds h m r d = Inr d'"
  have ok: "db_ok d" "\<forall>x \<in> set (t_nodes d). 0 \<le> c_temperature x \<and> c_temperature x \<le> 1"
    using assms(1) by (simp_all add: good_def temps_ok_def)
  have "\<forall>x \<in> set (t_nodes d'). 0 \<le> c_temperature x \<and> c_temperature x \<le> 1"
    by (rule emit_body_rows [OF ok(1) body _ ok(2)]) (use assms(2) upsert_temps in blast)
  with emit_body_ok [OF ok(1) body] show ?thesis by (simp add: good_def temps_ok_def)
qed (use assms(1) in simp)

lemma compile_roots_good:
  assumes "good d" "\<forall>n \<in> set (flat_data roots). mild n" "compile_roots h env ctxErr now opts roots d = (res, d')"
  shows "good d' \<and> (\<forall>e. res = Inl e \<longrightarrow> d' = d)"
proof -
  let ?roots = "Transform h roots (oCompileRoot opts)"
  let ?ds = "DiffFlat (flat_data ?roots) (buildPrevState d (flat_data ?roots) (oFullRescan opts) (oCompileRoot opts))"
  obtain r d1 where e: "Emit env ctxErr now ?roots ?ds (CursorHashFlat h (flat_data ?roots)) (oMessage opts) (oCompileRoot opts) d = (r, d1)"
    by fastforce
  with assms(3) have "d' = d1" "(\<exists>e. res = Inl e) \<longleftrightarrow> r \<noteq> None"
    by (auto simp: compile_roots_def Let_def split: option.splits)
  with Emit_good [OF assms(1) Transform_mild [OF assms(2)] e] emit_all_or_nothing [OF e] show ?thesis by auto
qed

lemma seeded_mild:
  assumes "0 \<le> t" "t \<le> 1"
  shows "\<forall>n \<in> set (flat_data (seedTemp ns t)). mild n"
  using assms by (auto simp: seedTemp_def flat_data_map_nodes mild_def)

lemma placed_mild: "list_all (placed path d) ns \<Longrightarrow> \<forall>n \<in> set (flat_data ns). mild n"
  by (induction ns arbitrary: d rule: forest_induct) (auto simp: mild_def)

lemma compile_file_mild:
  assumes "\<forall>p t. temps p = Some t \<longrightarrow> 0 \<le> t \<and> t \<le> 1" "compile_file readFile (ParseBytes D) temps p = Inr ns"
  shows "\<forall>n \<in> set (flat_data ns). mild n"
proof -
  from assms(2) obtain data where read: "readFile p = Inr data" by (auto simp: compile_file_def bindR_Inr_iff)
  show ?thesis
  proof (cases "ParseBytes D p data")
    case (Inl e)
    with assms(2) read show ?thesis by (simp add: compile_file_def split: if_splits)
  next
    case (Inr ms)
    show ?thesis
    proof (cases "temps p")
      case None
      with placed_mild [OF parsed_placed [OF Inr]] assms(2) read Inr show ?thesis by (simp add: compile_file_def)
    next
      case (Some t)
      with assms read Inr have "ns = seedTemp ms t" "0 \<le> t" "t \<le> 1" by (simp_all add: compile_file_def)
      then show ?thesis using seeded_mild by blast
    qed
  qed
qed

lemma compile_files_mild:
  assumes "\<And>p ns. f p = Inr ns \<Longrightarrow> \<forall>n \<in> set (flat_data ns). mild n"
  shows "compile_files f ps = Inr roots \<Longrightarrow> \<forall>n \<in> set (flat_data roots). mild n"
proof (induction ps arbitrary: roots)
  case (Cons p ps)
  from Cons.prems obtain ns rest where "f p = Inr ns" "compile_files f ps = Inr rest" "roots = ns @ rest"
    by (auto simp: bindR_Inr_iff)
  with Cons.IH assms [of p ns] show ?case by (auto simp: flat_data_append)
qed simp

lemma Compile_good:
  assumes "good d" "\<forall>p t. oTemps opts p = Some t \<longrightarrow> 0 \<le> t \<and> t \<le> 1"
    and "Compile h env ctxErr now readFile (ParseBytes D) opts d = (res, d')"
  shows "good d' \<and> (\<forall>e. res = Inl e \<longrightarrow> d' = d)"
proof (cases "compile_files (compile_file readFile (ParseBytes D) (oTemps opts)) (oPaths opts)")
  case (Inl e)
  with assms show ?thesis by (simp add: Compile_def)
next
  case (Inr roots)
  with assms(3) have "compile_roots h env ctxErr now opts roots d = (res, d')" by (simp add: Compile_def)
  moreover have "\<forall>n \<in> set (flat_data roots). mild n"
    by (rule compile_files_mild [OF _ Inr]) (rule compile_file_mild [OF assms(2)])
  ultimately show ?thesis using compile_roots_good [OF assms(1)] by blast
qed


section \<open>The operations keep the database good\<close>

lemma resolved_temps:
  assumes "resolveTemps openFile unmarshal dir paths = Inr temps"
  shows "\<forall>(p, t) \<in> set temps. 0 \<le> t \<and> t \<le> 1"
proof (cases "temp_Load openFile unmarshal dir")
  case (Inr found)
  show ?thesis
  proof (cases found)
    case (Some resolver)
    have "resolve_loop resolver dir ps = Inr out \<Longrightarrow> \<forall>(p, t) \<in> set out. 0 \<le> t \<and> t \<le> 1" for ps out
    proof (induction ps arbitrary: out)
      case (Cons p ps)
      then obtain rel more where "resolve_loop resolver dir ps = Inr more"
        "out = (case Resolve (Some resolver) rel of Some t \<Rightarrow> (p, t) # more | None \<Rightarrow> more)"
        by (auto simp: bindR_Inr_iff split: sum.splits)
      with Cons.IH [of more] Resolve_sound [OF Inr [unfolded Some]] show ?case by (auto split: option.splits)
    qed simp
    with assms Inr Some show ?thesis by (simp add: resolveTemps_def)
  qed (use assms Inr in \<open>simp add: resolveTemps_def\<close>)
qed (use assms in \<open>simp add: resolveTemps_def\<close>)

lemma CompileDir_good:
  assumes "good d" "\<not> doReseed opts"
    and "CompileDir h env ctxErr now fs unmarshal (ParseBytes D) dir message opts d = (res, d')"
  shows "good d' \<and> (\<forall>e. res = Inl e \<longrightarrow> d' = d)"
proof (cases "\<exists>absDir paths temps. filepath_Abs (fs_cwd fs) dir = Inr absDir \<and> select_paths fs opts absDir = Inr paths
    \<and> paths \<noteq> [] \<and> resolveTemps (fs_open fs) unmarshal absDir paths = Inr temps")
  case True
  then obtain absDir paths temps where w: "filepath_Abs (fs_cwd fs) dir = Inr absDir" "select_paths fs opts absDir = Inr paths"
    "paths \<noteq> []" "resolveTemps (fs_open fs) unmarshal absDir paths = Inr temps" by blast
  let ?opts = "\<lparr>oPaths = paths, oMessage = message, oCompileRoot = absDir, oTemps = map_of temps, oFullRescan = True\<rparr>"
  obtain r d1 where c: "Compile h env ctxErr now (fs_read fs) (ParseBytes D) ?opts d = (r, d1)" by fastforce
  have "\<forall>p t. oTemps ?opts p = Some t \<longrightarrow> 0 \<le> t \<and> t \<le> 1"
    using resolved_temps [OF w(4)] by (auto dest: map_of_SomeD)
  note ok = Compile_good [OF assms(1) this c]
  from assms(2,3) w c have "d' = d1" "res = r" by (auto simp: CompileDir_def split: sum.splits)
  with ok show ?thesis by simp
next
  case False
  then have "d' = d" using assms(3) by (auto simp: CompileDir_def split: sum.splits if_splits)
  with assms(1) show ?thesis by simp
qed

lemma CompileFile_good:
  assumes "good d" "CompileFile h env ctxErr now fs (ParseBytes D) path message Map.empty full d = (res, d')"
  shows "good d' \<and> (\<forall>e. res = Inl e \<longrightarrow> d' = d)"
proof (cases "filepath_Abs (fs_cwd fs) path")
  case (Inr absPath)
  let ?opts = "\<lparr>oPaths = [path], oMessage = message, oCompileRoot = Dir absPath, oTemps = Map.empty, oFullRescan = full\<rparr>"
  show ?thesis
  proof (cases "Supported path")
    case True
    with assms(2) Inr have "Compile h env ctxErr now (fs_read fs) (ParseBytes D) ?opts d = (res, d')" by (simp add: CompileFile_def)
    from Compile_good [OF assms(1) _ this] show ?thesis by simp
  qed (use assms Inr in \<open>simp add: CompileFile_def\<close>)
qed (use assms in \<open>simp add: CompileFile_def\<close>)

lemma HandleCompile_good:
  assumes "good d"
    and "HandleCompile h env ctxErr now fs unmarshal (ParseBytes D) symlinks stat sourceDir input message d = (res, d')"
  shows "good d' \<and> (\<forall>e. res = Inl e \<longrightarrow> d' = d)"
proof (cases "\<exists>path isDir. canonicalizePath symlinks (fs_cwd fs) input sourceDir = Inr path \<and> stat path = Inr isDir")
  case True
  then obtain path isDir where p: "canonicalizePath symlinks (fs_cwd fs) input sourceDir = Inr path" "stat path = Inr isDir" by blast
  let ?msg = "if message = [] then ''compile:'' @ path else message"
  let ?run = "if isDir then CompileDir h env ctxErr now fs unmarshal (ParseBytes D) path ?msg \<lparr>doIgnore = None, doReseed = False\<rparr> d
    else CompileFile h env ctxErr now fs (ParseBytes D) path ?msg Map.empty False d"
  obtain r d1 where run: "?run = (r, d1)" by fastforce
  have "good d1 \<and> (\<forall>e. r = Inl e \<longrightarrow> d1 = d)"
  proof (cases isDir)
    case True
    with run have "CompileDir h env ctxErr now fs unmarshal (ParseBytes D) path ?msg \<lparr>doIgnore = None, doReseed = False\<rparr> d = (r, d1)" by simp
    from CompileDir_good [OF assms(1) _ this] show ?thesis by simp
  next
    case False
    with run have "CompileFile h env ctxErr now fs (ParseBytes D) path ?msg Map.empty False d = (r, d1)" by simp
    from CompileFile_good [OF assms(1) this] show ?thesis .
  qed
  moreover have "d' = d1" "(\<exists>e. res = Inl e) \<longleftrightarrow> (\<exists>e. r = Inl e)"
    using assms(2) p run by (auto simp: HandleCompile_def Let_def split: sum.splits)
  ultimately show ?thesis by blast
next
  case False
  then have "d' = d" using assms(2) by (auto simp: HandleCompile_def Let_def split: sum.splits)
  with assms(1) show ?thesis by simp
qed

lemma emitNodeChange_good:
  assumes "good d" "mild node" "emitNodeChange h env ctxErr now node prev msg d = (r, d')"
  shows "good d' \<and> (r \<noteq> None \<longrightarrow> d' = d)"
proof -
  from assms(3) have e: "Emit env ctxErr now [CNode node []] (Diff [CNode node []] prev) (CursorHash h [CNode node []]) msg [] d = (r, d')"
    by (simp add: emitNodeChange_def Let_def)
  have "\<forall>n \<in> set (flat_data [CNode node []]). mild n" using assms(2) by (simp add: flat_data_def)
  from Emit_good [OF assms(1) this e] emit_all_or_nothing [OF e] show ?thesis by simp
qed

lemma HandleWrite_good:
  assumes "good d" "HandleWrite h env ctxErr now anchor payload d = (res, d')"
  shows "good d' \<and> (\<forall>e. res = Inl e \<longrightarrow> d' = d)"
proof -
  obtain node prev where w: "write_node h anchor payload d = (node, prev)" by fastforce
  obtain r d1 where e: "emitNodeChange h env ctxErr now node prev (''write:'' @ write_target h anchor payload) d = (r, d1)" by fastforce
  have "mild node" using write_node_prev [OF w] by (simp add: mild_def)
  moreover have "d' = d1" "(\<exists>e. res = Inl e) \<longleftrightarrow> r \<noteq> None"
    using assms(2) w e by (auto simp: HandleWrite_def Let_def split: option.splits)
  ultimately show ?thesis using emitNodeChange_good [OF assms(1) _ e] by auto
qed

lemma HandleSummarize_good:
  assumes "good d" "0 \<le> rebound" "rebound \<le> 1" "HandleSummarize h env ctxErr now rebound i summary temp d = (res, d')"
  shows "good d' \<and> (\<forall>e. res = Inl e \<longrightarrow> d' = d)"
proof (cases "(case temp of None \<Rightarrow> False | Some t \<Rightarrow> t < 0 \<or> 1 < t) \<or> (\<exists>e. GetNode d i = Inl e)")
  case True
  have "d' = d"
  proof (cases "case temp of None \<Rightarrow> False | Some t \<Rightarrow> t < 0 \<or> 1 < t")
    case out: True
    from assms(4) show ?thesis unfolding HandleSummarize_def if_P [OF out] by simp
  next
    case out: False
    with True obtain e where "GetNode d i = Inl e" by blast
    with assms(4) show ?thesis unfolding HandleSummarize_def if_not_P [OF out] by simp
  qed
  with assms(1) show ?thesis by simp
next
  case False
  then obtain old where old: "GetNode d i = Inr old" by (cases "GetNode d i") auto
  let ?t = "case temp of None \<Rightarrow> rebound | Some t \<Rightarrow> t"
  define node where "node = updated_node old (''Summary: '' @ firstLine summary 70) summary (ContentHash h summary) (Estimate summary) (Some ?t)"
  define prev where "prev = [(i, \<lparr>StHash = nContentHash old, StContent = nContent old\<rparr>)]"
  have range: "\<not> (case temp of None \<Rightarrow> False | Some t \<Rightarrow> t < 0 \<or> 1 < t)" using False by simp
  then have m: "mild node" using assms(2,3) by (auto simp: node_def updated_node_def mild_def split: option.splits)
  obtain r d1 where e: "emitNodeChange h env ctxErr now node prev (''summarize:'' @ i) d = (r, d1)" by fastforce
  from assms(4) e have "d' = d1" "(\<exists>e. res = Inl e) \<longleftrightarrow> r \<noteq> None"
    unfolding HandleSummarize_def if_not_P [OF range] old sum.case Let_def prev_def [symmetric] node_def [symmetric]
    by (auto split: option.splits)
  with emitNodeChange_good [OF assms(1) m e] show ?thesis by auto
qed

lemma boost_good:
  assumes "good d"
  shows "good (boostResultNodes (sql_node_store env ctxErr now) tr result d)"
proof (cases tr)
  case (Some t)
  let ?is = "map (\<lambda>sn. nID (scNode sn)) (rNodes result)"
  show ?thesis
  proof (cases "RecordAccess (sql_node_store env ctxErr now) t ?is d")
    case (Inr d1)
    have "good d1"
    proof (cases "?is = []")
      case False
      with Inr have "ns_BoostTemperatureBatch (sql_node_store env ctxErr now) ?is (AccessBoost (tr_cfg t)) d = Inr d1"
        by (simp add: RecordAccess_def)
      with sql.boost [OF _ False this] assms show ?thesis by (simp add: good_def)
    qed (use Inr assms in \<open>simp add: RecordAccess_def\<close>)
    with Inr Some assms show ?thesis by (simp add: boostResultNodes_def)
  qed (use Some assms in \<open>simp add: boostResultNodes_def\<close>)
qed (use assms in \<open>simp add: boostResultNodes_def\<close>)

lemma reading_good:
  assumes "good d"
  shows "HandleFetch q (sql_node_store env ctxErr now') tr anchor budget depth now d = (res, d') \<Longrightarrow> good d' \<and> (\<forall>e. res = Inl e \<longrightarrow> d' = d)"
    and "HandleSearch q (sql_node_store env ctxErr now') tr query budget now d = (res, d') \<Longrightarrow> good d' \<and> (\<forall>e. res = Inl e \<longrightarrow> d' = d)"
  using boost_good [OF assms] assms by (auto simp: HandleFetch_def HandleSearch_def split: sum.splits)

text \<open>A tool call keeps the database good, and one that reports an error leaves it alone.\<close>

lemma call_tool_good:
  assumes "good d" "0 \<le> dpSummarizeRebound dp" "dpSummarizeRebound dp \<le> 1" "call_tool l dp tr w c d = (res, d')"
  shows "good d' \<and> (\<forall>e. res = Inl e \<longrightarrow> d' = d)"
proof (cases c)
  case (MemoryFetch anchor budget depth)
  with assms(4) show ?thesis using reading_good(1) [OF assms(1)] by (auto simp: su_nodes_def)
next
  case (MemorySearch query budget)
  with assms(4) show ?thesis using reading_good(2) [OF assms(1)] by (auto simp: su_nodes_def)
next
  case (MemoryWrite anchor payload)
  with assms(4) HandleWrite_good [OF assms(1)] show ?thesis by simp
next
  case (MemoryCompile path message)
  with assms(4) HandleCompile_good [OF assms(1)] show ?thesis by simp
next
  case (MemorySummarize i summary temp)
  with assms(4) HandleSummarize_good [OF assms(1-3)] show ?thesis by simp
qed (use assms in auto)


section \<open>A run of the server\<close>

lemma Tick_failed: "Tick (sql_node_store env ctxErr now') tr elapsed now d = (Inl e, tr', d') \<Longrightarrow> tr' = tr \<and> d' = d"
proof -
  let ?f = "decayFactor (DecayRate (tr_cfg tr)) (duration_hours elapsed)" and ?ns = "sql_node_store env ctxErr now'"
  assume t: "Tick ?ns tr elapsed now d = (Inl e, tr', d')"
  have c: "ns_GetColdNodes ?ns thr limit s = Inr (GetColdNodes s thr limit)" for thr limit s by (simp add: sql_node_store_def)
  show ?thesis
  proof (cases "ns_DecayTemperatures ?ns ?f d")
    case (Inr p)
    with t show ?thesis by (cases p) (simp add: Tick_def c case_prod_beta)
  qed (use t in \<open>simp add: Tick_def\<close>)
qed

lemma Tick_cases:
  assumes "Run (sql_node_store env ctxErr now') (Some handle) [now] (tr, d) = (batches, tr', d')"
  obtains (failed) e where "Tick (sql_node_store env ctxErr now') tr (TickInterval (tr_cfg tr)) now d = (Inl e, tr, d)" "tr' = tr" "d' = d" "batches = []"
  | (quiet) r where "Tick (sql_node_store env ctxErr now') tr (TickInterval (tr_cfg tr)) now d = (Inr r, tr', d')" "Cold r = []" "batches = []"
  | (cold) r t1 d1 where "Tick (sql_node_store env ctxErr now') tr (TickInterval (tr_cfg tr)) now d = (Inr r, t1, d1)" "Cold r \<noteq> []"
      "(tr', d') = handle (Cold r) now (t1, d1)" "batches = [Cold r]"
proof (cases "Tick (sql_node_store env ctxErr now') tr (TickInterval (tr_cfg tr)) now d")
  case (fields res t1 d1)
  show ?thesis
  proof (cases res)
    case (Inl e)
    note t = fields [unfolded Inl]
    from Tick_failed [OF t] have e: "t1 = tr" "d1 = d" by simp_all
    with assms t have "tr' = tr" "d' = d" "batches = []" by simp_all
    with t e failed show ?thesis by simp
  next
    case (Inr r)
    note t = fields [unfolded Inr]
    show ?thesis
    proof (cases "Cold r = []")
      case True
      with assms t have "tr' = t1" "d' = d1" "batches = []" by simp_all
      with t True quiet show ?thesis by simp
    next
      case False
      with assms t have "(tr', d') = handle (Cold r) now (t1, d1)" "batches = [Cold r]"
        by (cases "handle (Cold r) now (t1, d1)", simp)+
      with t False cold show ?thesis by blast
    qed
  qed
qed

lemma scan_good:
  assumes "good d" "scan h env1 env2 ctxErr fs mtimes (ParseBytes D) now r d = (out, r', d')"
  shows "good d'"
proof (cases "scan_walk r fs mtimes now")
  case (Inl e)
  with assms show ?thesis by (simp add: scan_def)
next
  case (Inr st)
  define d1 where "d1 = snd (reconcileDeleted h env1 ctxErr now (deleted_files r (sc_seen st)) d)"
  have g1: "good d1"
  proof -
    obtain res d1' where e: "reconcileDeleted h env1 ctxErr now (deleted_files r (sc_seen st)) d = (res, d1')" by fastforce
    then have "d1' = d \<or> (\<exists>res ds hash m. Emit env1 ctxErr now [] ds hash m [] d = (res, d1'))"
      by (auto simp: reconcileDeleted_def Let_def split: if_splits)
    then have "good d1'" using Emit_good [OF assms(1), of "[]"] assms(1) by auto
    with e show ?thesis by (simp add: d1_def)
  qed
  obtain res d2 where c: "Compile h env2 ctxErr now (fs_read fs) (ParseBytes D) (rescan_options (sc_changed st) (rl_dir r)) d1 = (res, d2)"
    by fastforce
  have "good d2" using Compile_good [OF g1 _ c] by (simp add: rescan_options_def)
  moreover have "d' = d1 \<or> d' = d2"
    using assms(2) Inr c by (auto simp: scan_def Let_def d1_def forget_def split: if_splits sum.splits)
  ultimately show ?thesis using g1 by blast
qed

definition healthy :: "serving \<Rightarrow> bool" where
  "healthy s \<longleftrightarrow> good (sgDb s) \<and> Validate (tr_cfg (sgTracker s)) = None
     \<and> inUnit (dpSummarizeRebound (svDeps (sgServer s)))"

lemma NewTracker_Inr: "NewTracker cfg = Inr t \<longleftrightarrow> Validate cfg = None \<and> t = \<lparr>tr_cfg = cfg, recentlyNotified = Map.empty\<rparr>"
  by (auto simp: NewTracker_def split: option.splits)

lemma Validate_rebound: "Validate cfg = None \<Longrightarrow> inUnit (SummarizeRebound cfg) \<and> 0 < TickInterval cfg"
  by (auto simp: Validate_def split: if_splits)

lemma serve_start_healthy:
  assumes "good d" "serve_start l w cfg sourceDir interval stat (Inr d) = Inr s"
  shows "healthy s \<and> tr_cfg (sgTracker s) = cfg \<and> recentlyNotified (sgTracker s) = Map.empty"
proof -
  from assms(2) obtain tr where tr: "NewTracker cfg = Inr tr" by (auto simp: serve_start_def split: sum.splits)
  have s: "sgServer s = NewServer cfg sourceDir" "sgTracker s = tr"
    "sgDb s = d \<or> sourceDir \<noteq> [] \<and> MaybeInitialCompile (li_hash l) (su_tx w) (su_ctxErr w) (su_now w) (su_fs w) (li_unmarshal l)
        (ParseBytes (li_decoders l)) stat sourceDir d = (None, sgDb s)"
    using assms(2) tr by (auto simp: serve_start_def Let_def split: if_splits sum.splits option.splits prod.splits)
  have "good d'" if m: "MaybeInitialCompile (li_hash l) (su_tx w) (su_ctxErr w) (su_now w) (su_fs w) (li_unmarshal l)
      (ParseBytes (li_decoders l)) stat sourceDir d = (None, d')" for d'
  proof -
    obtain res d1 where c: "CompileDir (li_hash l) (su_tx w) (su_ctxErr w) (su_now w) (su_fs w) (li_unmarshal l)
      (ParseBytes (li_decoders l)) sourceDir ''initial'' \<lparr>doIgnore = None, doReseed = False\<rparr> d = (res, d1)" by fastforce
    with m have "d' = d \<or> d' = d1" by (auto simp: MaybeInitialCompile_def split: sum.splits if_splits)
    with CompileDir_good [OF assms(1) _ c] assms(1) show ?thesis by auto
  qed
  with s assms(1) have "good (sgDb s)" by auto
  with s tr Validate_rebound [of cfg] show ?thesis by (simp add: healthy_def NewServer_def NewTracker_Inr)
qed

lemma dedup_cfg [simp]: "tr_cfg (snd (dedupCold t cold now)) = tr_cfg t" "tr_cfg (MarkNotified t is now) = tr_cfg t"
  by (simp_all add: dedupCold_def MarkNotified_def Let_def)

lemma tick_healthy:
  assumes "good d" "Validate (tr_cfg tr) = None"
    and "Run (sql_node_store env ctxErr now') (Some (cold_handler thr sessions)) [now] (tr, d) = (batches, tr', d')"
  shows "good d' \<and> tr_cfg tr' = tr_cfg tr"
proof -
  have le: "0 \<le> TickInterval (tr_cfg tr)" using Validate_rebound [OF assms(2)] by simp
  have tick: "good d1 \<and> tr_cfg t1 = tr_cfg tr"
    if "Tick (sql_node_store env ctxErr now') tr (TickInterval (tr_cfg tr)) now d = (Inr r, t1, d1)" for r t1 d1
    using sql.Tick_effect [OF _ assms(2) le that] assms(1) by (simp add: good_def)
  from assms(3) show ?thesis
  proof (cases rule: Tick_cases)
    case (cold r t1 d1)
    with tick [OF cold(1)] show ?thesis by (simp add: cold_handler_def)
  next
    case (quiet r)
    with tick [OF quiet(1)] show ?thesis by simp
  qed (use assms(1) in simp)
qed

lemma serve_step_healthy: "healthy s \<Longrightarrow> healthy (serve_step l w ev s)"
proof -
  assume s: "healthy s"
  then have h: "good (sgDb s)" "Validate (tr_cfg (sgTracker s)) = None" "0 \<le> dpSummarizeRebound (svDeps (sgServer s))"
    "dpSummarizeRebound (svDeps (sgServer s)) \<le> 1" by (simp_all add: healthy_def inUnit_def)
  show ?thesis
  proof (cases ev)
    case (Call c)
    obtain res d where "call_tool l (svDeps (sgServer s)) (Some (sgTracker s)) w c (sgDb s) = (res, d)" by fastforce
    with call_tool_good [OF h(1,3,4) this] s Call show ?thesis by (simp add: healthy_def)
  next
    case (Boost result)
    with s boost_good [OF h(1)] show ?thesis by (simp add: healthy_def su_nodes_def)
  next
    case Tick_fires
    obtain batches tr d where r: "Run (su_nodes w) (Some (cold_handler (svNotifyThreshold (sgServer s)) (su_sessions w))) [su_now w]
        (sgTracker s, sgDb s) = (batches, tr, d)" by (rule prod_cases3)
    from tick_healthy [OF h(1,2) r [unfolded su_nodes_def]] s Tick_fires show ?thesis
      by (simp add: r healthy_def del: Run.simps)
  next
    case Rescan_fires
    show ?thesis
    proof (cases "sgRescan s")
      case (Some r)
      obtain out r' d where sc: "scan (li_hash l) (su_tx w) (su_tx2 w) (su_ctxErr w) (su_fs w) (su_mtimes w)
          (ParseBytes (li_decoders l)) (su_now w) r (sgDb s) = (out, r', d)" by (rule prod_cases3)
      from scan_good [OF h(1) sc] s Rescan_fires Some sc show ?thesis by (simp add: healthy_def)
    qed (use s Rescan_fires in simp)
  qed
qed

lemma serve_healthy: "healthy s \<Longrightarrow> healthy (serve l evs s)"
  by (induction l evs s rule: serve.induct) (simp_all add: serve_step_healthy)

text \<open>C8: whatever happens while the server runs, its store stays in order: started on a sound database,
  after any sequence of tool calls, late boosts, ticks and rescans, with any engine, file system and sessions,
  the database invariant holds and every temperature is between 0 and 1.\<close>

theorem serve_keeps_store:
  assumes "db_ok d" "temps_ok d" "serve_start l w cfg sourceDir interval stat (Inr d) = Inr s"
  shows "db_ok (sgDb (serve l evs s)) \<and> temps_ok (sgDb (serve l evs s))"
proof -
  have "healthy s" using serve_start_healthy [OF _ assms(3)] assms(1,2) by (simp add: good_def)
  from serve_healthy [OF this] show ?thesis by (simp add: healthy_def good_def)
qed


definition sample_world :: surroundings where
  "sample_world =
     \<lparr>su_tx = fair_env, su_tx2 = fair_env, su_ctxErr = NoRows, su_fts = (\<lambda>q d. Inr []), su_now = 0, su_fs = sample_fs,
      su_mtimes = (\<lambda>p. None), su_symlinks = Inr, su_stat = (\<lambda>p. Inr True), su_sessions = [\<lambda>m. None]\<rparr>"

definition sample_libraries :: libraries where
  "sample_libraries = \<lparr>li_hash = len_hash, li_decoders = plain_decoders, li_unmarshal = (\<lambda>data. Inr [])\<rparr>"

theorem serve_keeps_store_witness:
  "\<exists>s. serve_start sample_libraries sample_world DefaultConfig [] 0 (Inr ()) (Inr empty_db) = Inr s
     \<and> temps_ok (sgDb (serve sample_libraries
          [(sample_world, Call (MemoryWrite ''note'' ''text'')), (sample_world, Tick_fires)] s))"
proof -
  have "\<exists>s. serve_start sample_libraries sample_world DefaultConfig [] 0 (Inr ()) (Inr empty_db) = Inr s"
    by (simp add: serve_start_def NewTracker_def Validate_Default)
  moreover have "temps_ok empty_db" by (simp add: temps_ok_def empty_db_def)
  ultimately show ?thesis using serve_keeps_store [OF db_ok_empty] by blast
qed

section \<open>What a tool call may change\<close>

fun reading :: "tool_call \<Rightarrow> bool" where
  "reading (MemoryWrite _ _) = False"
| "reading (MemoryCompile _ _) = False"
| "reading (MemorySummarize _ _ _) = False"
| "reading _ = True"

definition stored :: "row \<Rightarrow> row" where
  \<comment> \<open>a row without what accesses change\<close>
  "stored r = r\<lparr>c_temperature := 0, c_access_count := 0, c_last_accessed_at := None, c_updated_at := 0\<rparr>"

definition same_memory :: "db \<Rightarrow> db \<Rightarrow> bool" where
  "same_memory d d' \<longleftrightarrow> map stored (t_nodes d') = map stored (t_nodes d) \<and> d' = d\<lparr>t_nodes := t_nodes d'\<rparr>"

lemma same_memory_refl [simp]: "same_memory d d"
  by (simp add: same_memory_def)

lemma boost_same_memory: "same_memory d (boostResultNodes (sql_node_store env ctxErr now) tr result d)"
proof (cases tr)
  case (Some t)
  let ?is = "map (\<lambda>sn. nID (scNode sn)) (rNodes result)"
  show ?thesis
  proof (cases "rNodes result = [] \<or> (\<exists>e. RecordAccess (sql_node_store env ctxErr now) t ?is d = Inl e)")
    case True
    with Some show ?thesis by (auto simp: boostResultNodes_def)
  next
    case False
    then obtain d1 where d1: "RecordAccess (sql_node_store env ctxErr now) t ?is d = Inr d1"
      by (cases "RecordAccess (sql_node_store env ctxErr now) t ?is d") auto
    with False have "run_update env ctxErr (BoostTemperatureBatch now ?is (AccessBoost (tr_cfg t))) d = Inr d1"
      by (simp add: RecordAccess_def sql_node_store_def)
    from run_update_Inr [OF this] False have "d1 = update_where (\<lambda>r. c_id r \<in> set ?is) (boost_row now (AccessBoost (tr_cfg t))) d"
      by (simp add: BoostTemperatureBatch_def)
    then have "same_memory d d1" by (simp add: same_memory_def update_where_def stored_def boost_row_def)
    with d1 False Some show ?thesis by (simp add: boostResultNodes_def)
  qed
qed (simp add: boostResultNodes_def)

text \<open>C15: a tool call that reports an error leaves the database exactly as it was, and a reading tool
  (fetch, search, delta, history, tree) changes nothing but temperatures and access counts and times,
  whatever the engine does; with a rebound in range every call keeps invariant and temperatures.\<close>

theorem call_tool_safe:
  assumes "db_ok d" "temps_ok d" "0 \<le> dpSummarizeRebound dp" "dpSummarizeRebound dp \<le> 1"
    and "call_tool l dp tr w c d = (res, d')"
  shows "db_ok d' \<and> temps_ok d' \<and> (\<forall>e. res = Inl e \<longrightarrow> d' = d) \<and> (reading c \<longrightarrow> same_memory d d')"
proof -
  have "same_memory d d'" if "reading c"
    using that assms(5) boost_same_memory
    by (cases c) (auto simp: su_nodes_def HandleFetch_def HandleSearch_def split: sum.splits)
  with call_tool_good [OF _ assms(3-5)] assms(1,2) show ?thesis by (simp add: good_def)
qed

theorem call_tool_safe_witness:
  "\<exists>res d'. call_tool sample_libraries (svDeps (NewServer DefaultConfig [])) None sample_world (MemoryFetch ''a'' 100 1)
       (empty_db\<lparr>t_nodes := [sample_row ''a'' None]\<rparr>) = (res, d')
     \<and> same_memory (empty_db\<lparr>t_nodes := [sample_row ''a'' None]\<rparr>) d'"
proof -
  let ?d = "empty_db\<lparr>t_nodes := [sample_row ''a'' None]\<rparr>"
  have ok: "db_ok ?d" "temps_ok ?d"
    using db_ok_empty by (simp_all add: db_ok_def nodes_ok_def fk_ok_def temps_ok_def sample_row_def empty_db_def history_ok_def)
  have r: "0 \<le> dpSummarizeRebound (svDeps (NewServer DefaultConfig []))" "dpSummarizeRebound (svDeps (NewServer DefaultConfig [])) \<le> 1"
    by (simp_all add: NewServer_def DefaultConfig_def)
  obtain res d' where "call_tool sample_libraries (svDeps (NewServer DefaultConfig [])) None sample_world (MemoryFetch ''a'' 100 1) ?d = (res, d')"
    by fastforce
  with call_tool_safe [OF ok r this] show ?thesis by auto
qed

section \<open>Warnings are not repeated\<close>

definition warned :: "surroundings \<Rightarrow> event \<Rightarrow> serving \<Rightarrow> string list" where
  \<comment> \<open>the nodes of which a tick's warning reached a session\<close>
  "warned w ev s =
     (case ev of
        Tick_fires \<Rightarrow>
          concat (map (NotifyColdNodes (svNotifyThreshold (sgServer s)) (sendColdLogging (su_sessions w)))
            (fst (Run (su_nodes w) (Some (cold_handler (svNotifyThreshold (sgServer s)) (su_sessions w))) [su_now w] (sgTracker s, sgDb s))))
      | _ \<Rightarrow> [])"

fun warnings :: "libraries \<Rightarrow> (surroundings \<times> event) list \<Rightarrow> serving \<Rightarrow> (int \<times> string) list" where
  "warnings l [] s = []"
| "warnings l ((w, ev) # evs) s = map (Pair (su_now w)) (warned w ev s) @ warnings l evs (serve_step l w ev s)"

lemma Notify_subset: "set (NotifyColdNodes thr sent cold) \<subseteq> nID ` set cold"
  "distinct (map nID cold) \<Longrightarrow> distinct (NotifyColdNodes thr sent cold)"
  by (auto simp: NotifyColdNodes_def Let_def distinct_map_filter)

lemma Cold_distinct:
  assumes "db_ok d" "Tick (sql_node_store env ctxErr now') tr elapsed now d = (Inr r, t1, d1)"
  shows "distinct (map nID (Cold r))"
proof -
  let ?f = "decayFactor (DecayRate (tr_cfg tr)) (duration_hours elapsed)" and ?ns = "sql_node_store env ctxErr now'"
  have c: "ns_GetColdNodes ?ns thr limit s = Inr (GetColdNodes s thr limit)" for thr limit s by (simp add: sql_node_store_def)
  obtain k d2 where d2: "ns_DecayTemperatures ?ns ?f d = Inr (k, d2)"
    using assms(2) by (cases "ns_DecayTemperatures ?ns ?f d") (auto simp: Tick_def Let_def)
  then have "d2 = snd (DecayTemperatures now' ?f d)"
    by (auto simp: sql_node_store_def map_sum_def split: sum.splits dest: run_update_Inr)
  then have ids: "distinct (ids (t_nodes d2))"
    using assms(1) by (simp add: DecayTemperatures_def db_ok_def nodes_ok_def)
  have "distinct (map nID (GetColdNodes d2 thr limit))" for thr limit
  proof -
    have "distinct (map c_id (sort_key c_temperature (filter (\<lambda>r. c_temperature r < thr) (t_nodes d2))))"
      using ids by (auto simp: ids_def distinct_map inj_on_def)
    then show ?thesis by (simp add: GetColdNodes_def Let_def comp_def distinct_take take_map [symmetric])
  qed
  then show ?thesis
    using assms(2) d2 c by (auto simp: Tick_def Let_def dedupCold_def distinct_map_filter)
qed


text \<open>How one event relates the tracker's record of warnings before and after.\<close>

definition remembers :: "int \<Rightarrow> int \<Rightarrow> string list \<Rightarrow> (string \<rightharpoonup> int) \<Rightarrow> (string \<rightharpoonup> int) \<Rightarrow> bool" where
  "remembers ttl now is m m' \<longleftrightarrow>
     distinct is
     \<and> (\<forall>i \<in> set is. m' i = Some now \<and> (\<forall>ts. m i = Some ts \<longrightarrow> ttl < now - ts))
     \<and> (\<forall>i ts. m i = Some ts \<longrightarrow> m' i = Some ts \<or> ttl < now - ts)"

lemma remembers_none: "remembers ttl now [] m m"
  by (simp add: remembers_def)

lemma Tick_evicts:
  assumes "Tick ns tr elapsed now d = (Inr r, t1, d1)"
  shows "recentlyNotified t1 = evict now (ColdNotifyTTL (tr_cfg tr)) (recentlyNotified tr)"
    and "\<forall>n \<in> set (Cold r). recentlyNotified t1 (nID n) = None"
  using assms by (auto simp: Tick_def Let_def dedupCold_def split: sum.splits prod.splits)

lemma tick_remembers:
  assumes "db_ok d" "Run (sql_node_store env ctxErr now') (Some (cold_handler thr sessions)) [now] (tr, d) = (batches, tr', d')"
  shows "remembers (ColdNotifyTTL (tr_cfg tr)) now (concat (map (NotifyColdNodes thr (sendColdLogging sessions)) batches))
    (recentlyNotified tr) (recentlyNotified tr')"
  using assms(2)
proof (cases rule: Tick_cases)
  case (failed e)
  then show ?thesis by (simp add: remembers_none)
next
  case (quiet r)
  then show ?thesis using Tick_evicts(1) [OF quiet(1)] by (auto simp: remembers_def evict_def)
next
  case (cold r t1 d1)
  let ?is = "NotifyColdNodes thr (sendColdLogging sessions) (Cold r)"
  have tr': "recentlyNotified tr' i = (if i \<in> set ?is then Some now else recentlyNotified t1 i)" for i
    using cold(3) by (simp add: cold_handler_def MarkNotified_def foldl_mark)
  have dist: "distinct ?is" using Notify_subset(2) Cold_distinct [OF assms(1) cold(1)] by blast
  have none: "recentlyNotified t1 i = None" if "i \<in> set ?is" for i
    using Tick_evicts(2) [OF cold(1)] Notify_subset(1) [of thr "sendColdLogging sessions" "Cold r"] that by auto
  have kept: "recentlyNotified t1 i = Some ts \<or> recentlyNotified t1 i = None \<and> ColdNotifyTTL (tr_cfg tr) < now - ts"
    if "recentlyNotified tr i = Some ts" for i ts
    using that unfolding Tick_evicts(1) [OF cold(1)] by (simp add: evict_def)
  show ?thesis
    using dist kept none by (fastforce simp: remembers_def cold(4) tr')
qed


lemma step_remembers:
  assumes "healthy s"
  shows "remembers (ColdNotifyTTL (tr_cfg (sgTracker s))) (su_now w) (warned w ev s)
      (recentlyNotified (sgTracker s)) (recentlyNotified (sgTracker (serve_step l w ev s)))
    \<and> tr_cfg (sgTracker (serve_step l w ev s)) = tr_cfg (sgTracker s)"
proof (cases ev)
  case Tick_fires
  have h: "good (sgDb s)" "Validate (tr_cfg (sgTracker s)) = None" using assms by (simp_all add: healthy_def)
  obtain batches tr d where r: "Run (su_nodes w) (Some (cold_handler (svNotifyThreshold (sgServer s)) (su_sessions w))) [su_now w]
      (sgTracker s, sgDb s) = (batches, tr, d)" by (rule prod_cases3)
  have "db_ok (sgDb s)" using h(1) by (simp add: good_def)
  from tick_remembers [OF this r [unfolded su_nodes_def]] tick_healthy [OF h r [unfolded su_nodes_def]]
  show ?thesis by (simp add: Tick_fires warned_def r del: Run.simps)
qed (auto simp: warned_def remembers_none split: option.splits prod.splits)

definition apart :: "int \<Rightarrow> int \<times> string \<Rightarrow> int \<times> string \<Rightarrow> bool" where
  \<comment> \<open>two warnings about one node are more than \<open>ttl\<close> apart\<close>
  "apart ttl x y \<longleftrightarrow> snd x = snd y \<longrightarrow> ttl < fst y - fst x"

lemma warnings_apart:
  assumes "healthy s" "tr_cfg (sgTracker s) = cfg" "sorted (map (\<lambda>x. su_now (fst x)) evs)"
  shows "sorted_wrt (apart (ColdNotifyTTL cfg)) (warnings l evs s)
    \<and> (\<forall>(t, i) \<in> set (warnings l evs s). \<forall>ts. recentlyNotified (sgTracker s) i = Some ts \<longrightarrow> ColdNotifyTTL cfg < t - ts)
    \<and> (\<forall>(t, i) \<in> set (warnings l evs s). \<exists>x \<in> set evs. t = su_now (fst x))"
  using assms
proof (induction l evs s rule: warnings.induct)
  case (2 l w ev evs s)
  let ?s = "serve_step l w ev s" and ?ttl = "ColdNotifyTTL cfg" and ?now = "su_now w"
  have step: "remembers ?ttl ?now (warned w ev s) (recentlyNotified (sgTracker s)) (recentlyNotified (sgTracker ?s))"
    "tr_cfg (sgTracker ?s) = cfg"
    using step_remembers [OF 2(2), of w ev l] 2(3) by simp_all
  have IH: "sorted_wrt (apart ?ttl) (warnings l evs ?s)"
    "\<And>t i ts. (t, i) \<in> set (warnings l evs ?s) \<Longrightarrow> recentlyNotified (sgTracker ?s) i = Some ts \<Longrightarrow> ?ttl < t - ts"
    "\<And>t i. (t, i) \<in> set (warnings l evs ?s) \<Longrightarrow> \<exists>x \<in> set evs. t = su_now (fst x)"
    using 2(1) [OF serve_step_healthy [OF 2(2)] step(2)] 2(4) by auto
  have later: "?now \<le> t" if "(t, i) \<in> set (warnings l evs ?s)" for t i
    using IH(3) [OF that] 2(4) by auto
  have first: "sorted_wrt (apart ?ttl) (map (Pair ?now) (warned w ev s))"
    using step(1) by (simp add: remembers_def sorted_wrt_map apart_def distinct_conv_nth sorted_wrt_iff_nth_less)
  have across: "apart ?ttl (?now, i) (t, j)" if "i \<in> set (warned w ev s)" "(t, j) \<in> set (warnings l evs ?s)" for i t j
    using step(1) IH(2) [OF that(2), of ?now] that by (auto simp: remembers_def apart_def)
  have "?ttl < t - ts" if "(t, i) \<in> set (warnings l ((w, ev) # evs) s)" "recentlyNotified (sgTracker s) i = Some ts" for t i ts
  proof (cases "(t, i) \<in> set (warnings l evs ?s)")
    case True
    from step(1) that(2) consider "recentlyNotified (sgTracker ?s) i = Some ts" | "?ttl < ?now - ts"
      unfolding remembers_def by blast
    then show ?thesis
    proof cases
      case 1
      then show ?thesis using IH(2) [OF True] by blast
    next
      case 2
      then show ?thesis using later [OF True] by linarith
    qed
  next
    case False
    with that step(1) show ?thesis by (auto simp: remembers_def)
  qed
  then show ?case using first IH across by (fastforce simp: sorted_wrt_append)
qed simp

text \<open>C28: no node is warned about twice within the configured time: started with a valid configuration and run over
  any events whose clock does not go back, any two warnings about one node that reached a session are more
  than \<open>ColdNotifyTTL\<close> apart, and no tick warns about a node twice.\<close>

theorem warnings_spaced:
  assumes "db_ok d" "temps_ok d" "serve_start l w cfg sourceDir interval stat (Inr d) = Inr s"
    and "sorted (map (\<lambda>x. su_now (fst x)) evs)" "warnings l evs s = xs @ (t1, i) # ys @ (t2, i) # zs"
  shows "ColdNotifyTTL cfg < t2 - t1"
proof -
  have "healthy s" "tr_cfg (sgTracker s) = cfg" using serve_start_healthy [OF _ assms(3)] assms(1,2) by (simp_all add: good_def)
  from warnings_apart [OF this assms(4), of l] have "apart (ColdNotifyTTL cfg) (t1, i) (t2, i)"
    unfolding assms(5) by (simp add: sorted_wrt_append)
  then show ?thesis by (simp add: apart_def)
qed


text \<open>A cold node, two ticks two hours apart and a session that takes every message.\<close>

definition frozen :: row where
  "frozen = (sample_row ''a'' None)\<lparr>c_temperature := 0\<rparr>"

lemma frozen_tick:
  assumes "w = sample_world\<lparr>su_now := now\<rparr>" "recentlyNotified tr ''a'' = None \<or> (\<exists>ts. recentlyNotified tr ''a'' = Some ts \<and> Hour < now - ts)"
    and "tr_cfg tr = DefaultConfig"
  shows "\<exists>tr' d'. Run (su_nodes w) (Some (cold_handler (1 / 10) (su_sessions w))) [now] (tr, empty_db\<lparr>t_nodes := [frozen]\<rparr>)
      = ([[scanNode frozen]], tr', empty_db\<lparr>t_nodes := [frozen]\<rparr>)
    \<and> recentlyNotified tr' ''a'' = Some now \<and> tr_cfg tr' = DefaultConfig"
proof -
  let ?d = "empty_db\<lparr>t_nodes := [frozen]\<rparr>" and ?t1 = "tr\<lparr>recentlyNotified := evict now Hour (recentlyNotified tr)\<rparr>"
  have f: "c_temperature frozen = 0" "c_id frozen = ''a''" "nTemperature (scanNode frozen) = 0" "nID (scanNode frozen) = ''a''"
    by (simp_all add: frozen_def sample_row_def scanNode_def)
  have "snd (DecayTemperatures now x ?d) = ?d" for x by (simp add: DecayTemperatures_def update_where_def f)
  moreover have "GetColdNodes ?d (1 / 10) 50 = [scanNode frozen]" by (simp add: GetColdNodes_def f)
  ultimately have "Tick (su_nodes w) tr (TickInterval (tr_cfg tr)) now ?d
      = (Inr \<lparr>Decayed = 0, Cold = [scanNode frozen]\<rparr>, ?t1, ?d)"
    using assms f by (auto simp: Tick_def su_nodes_def sample_world_def sql_node_store_def run_update_fair Let_def DefaultConfig_def
        dedupCold_def evict_def DecayTemperatures_def [of _ _ "empty_db\<lparr>t_nodes := [frozen]\<rparr>"] update_where_def split: option.splits)
  moreover have "NotifyColdNodes (1 / 10) (sendColdLogging (su_sessions w)) [scanNode frozen] = [''a'']"
    using assms(1) f by (simp add: NotifyColdNodes_def sendColdLogging_def sample_world_def)
  ultimately show ?thesis using assms(3) by (simp add: cold_handler_def MarkNotified_def)
qed

theorem warnings_spaced_witness:
  "\<exists>s. serve_start sample_libraries sample_world DefaultConfig [] 0 (Inr ()) (Inr (empty_db\<lparr>t_nodes := [frozen]\<rparr>)) = Inr s
     \<and> warnings sample_libraries [(sample_world, Tick_fires), (sample_world\<lparr>su_now := 2 * Hour\<rparr>, Tick_fires)] s = [(0, ''a''), (2 * Hour, ''a'')]
     \<and> ColdNotifyTTL DefaultConfig < 2 * Hour - 0"
proof -
  let ?d = "empty_db\<lparr>t_nodes := [frozen]\<rparr>" and ?w0 = "sample_world" and ?w1 = "sample_world\<lparr>su_now := 2 * Hour\<rparr>"
  let ?evs = "[(?w0, Tick_fires), (?w1, Tick_fires)]"
  have ok: "db_ok ?d" "temps_ok ?d"
    using db_ok_empty by (simp_all add: db_ok_def nodes_ok_def fk_ok_def temps_ok_def frozen_def sample_row_def empty_db_def history_ok_def)
  define s where "s = \<lparr>sgServer = NewServer DefaultConfig [], sgTracker = \<lparr>tr_cfg = DefaultConfig, recentlyNotified = Map.empty\<rparr>,
    sgRescan = None, sgDb = ?d\<rparr>"
  have s: "serve_start sample_libraries sample_world DefaultConfig [] 0 (Inr ()) (Inr ?d) = Inr s"
    by (simp add: serve_start_def NewTracker_def Validate_Default s_def)
  have w0: "?w0 = sample_world\<lparr>su_now := 0\<rparr>" by (simp add: sample_world_def)
  have thr: "svNotifyThreshold (NewServer DefaultConfig []) = 1 / 10" by (simp add: NewServer_def DefaultConfig_def)
  obtain tr1 where r1: "Run (su_nodes ?w0) (Some (cold_handler (1 / 10) (su_sessions ?w0))) [0] (\<lparr>tr_cfg = DefaultConfig, recentlyNotified = Map.empty\<rparr>, ?d)
      = ([[scanNode frozen]], tr1, ?d)" "recentlyNotified tr1 ''a'' = Some 0" "tr_cfg tr1 = DefaultConfig"
    using frozen_tick [OF w0, of "\<lparr>tr_cfg = DefaultConfig, recentlyNotified = Map.empty\<rparr>"] by auto
  obtain tr2 where r2: "Run (su_nodes ?w1) (Some (cold_handler (1 / 10) (su_sessions ?w1))) [2 * Hour] (tr1, ?d)
      = ([[scanNode frozen]], tr2, ?d)"
    using frozen_tick [OF refl, of tr1 "2 * Hour"] r1(2,3) by (auto simp: Hour_def)
  have warned: "NotifyColdNodes (1 / 10) (sendColdLogging (su_sessions sample_world)) [scanNode frozen] = [''a'']"
    by (simp add: NotifyColdNodes_def sendColdLogging_def sample_world_def frozen_def sample_row_def scanNode_def)
  have now: "su_now ?w0 = 0" by (simp add: sample_world_def)
  have "warnings sample_libraries ?evs s = [(0, ''a''), (2 * Hour, ''a'')]"
    using r1(1) r2 warned by (simp add: warned_def s_def thr now del: Run.simps)
  moreover from this have "warnings sample_libraries ?evs s = [] @ (0, ''a'') # [] @ (2 * Hour, ''a'') # []" by simp
  moreover have "sorted (map (\<lambda>x. su_now (fst x)) ?evs)" by (simp add: sample_world_def Hour_def)
  ultimately show ?thesis using warnings_spaced [OF ok s] s by blast
qed

section \<open>What is written can be fetched\<close>

lemma fetch_found:
  assumes "GetNode d i = Inr node" "GetAncestors d i = Some as"
  shows "\<exists>before a used. Fetch (sql_query_store fts) i budget depth now d = Inr \<lparr>rNodes = before @ [a], rTokensUsed = used\<rparr>
    \<and> scNode a = node"
proof -
  have "nID node = i" using assms(1) by (auto simp: GetNode_row dest: get_row_Some)
  then obtain ctxt where "collectContext (sql_query_store fts) node (if 0 < depth then clampDepth depth else DefaultMaxDepth) d = Inr ctxt"
    using assms(2) by (simp add: collectContext_def sql_query_store_def)
  with assms(1) show ?thesis
    by (intro exI [of _ "rev _"]) (simp add: Fetch_def sql_query_store_def Let_def)
qed

lemma Format_loop_snoc: "Format_loop b (xs @ [a]) = Format_loop b xs @ Format_loop (b \<and> xs = []) [a]"
  by (induction xs arbitrary: b) (simp_all add: Let_def)

lemma Format_shows_last: "suffix (nContent (scNode a) @ [LF]) (query_Format \<lparr>rNodes = before @ [a], rTokensUsed = used\<rparr>)"
  unfolding query_Format_def QResult.select_convs Format_loop_snoc by (simp add: Let_def suffix_def)

lemma write_keeps_rank:
  assumes "ranked (t_nodes d) rank" "write_node h anchor payload d = (node, prev)"
  shows "ranked (upsert_rows now (nodeFromContext node) (t_nodes d)) rank"
proof -
  let ?i = "write_target h anchor payload"
  have parent: "rank p < rank (ID node)" if "parentIDParam (ParentID node) = Some p" for p
  proof (cases "get_row (t_nodes d) ?i")
    case None
    then have "GetNode d ?i = Inl NoRows" by (simp add: GetNode_def)
    with assms(2) that show ?thesis by (auto simp: write_node_def Let_def created_node_def)
  next
    case (Some r)
    then have "GetNode d ?i = Inr (scanNode r)" "r \<in> set (t_nodes d)" "c_id r = ?i"
      by (auto simp: GetNode_def dest: get_row_Some)
    with assms(2) that have "c_parent_id r = Some p" "ID node = c_id r"
      by (auto simp: write_node_def Let_def updated_node_def scanNode_def parentIDParam_def split: option.splits if_splits)
    with assms(1) \<open>r \<in> set (t_nodes d)\<close> show ?thesis by (auto simp: ranked_def)
  qed
  with assms(1) show ?thesis
    by (auto simp: ranked_def upsert_rows_def insert_row_def update_row_def nodeFromContext_def split: if_splits)
qed




section \<open>Written nodes and compile roots\<close>

lemma not_below_other: "below rows S i \<Longrightarrow> i \<notin> S \<Longrightarrow> \<exists>r \<in> set rows. c_id r = i \<and> c_parent_id r \<noteq> None"
  by (induction rule: below.induct) auto

lemma apply_deltas_spares:
  assumes "apply_deltas now m ds d = Inr d'" "nodes_ok (t_nodes d)" "get_row (t_nodes d) i = Some row" "c_parent_id row = None"
    and "i \<notin> NodeID ` set ds" "\<And>j cn. m j = Some cn \<Longrightarrow> ID (nd cn) = j"
  shows "get_row (t_nodes d') i = Some row"
  using assms
proof (induction now m ds d rule: apply_deltas.induct)
  case (2 now m dl ds d)
  have other: "i \<noteq> NodeID dl" "i \<notin> NodeID ` set ds" using 2(8) by auto
  consider (up) cn d1 where "Op dl = OpAdd \<or> Op dl = OpMod" "m (NodeID dl) = Some cn"
      "UpsertNodeTx now (nodeFromContext (nd cn)) d = Inr d1" "apply_deltas now m ds d1 = Inr d'"
    | (rem) "\<not> (Op dl = OpAdd \<or> Op dl = OpMod)" "Op dl = OpRem" "apply_deltas now m ds (DeleteNodeTx (NodeID dl) d) = Inr d'"
    | (skip) "\<not> (Op dl = OpAdd \<or> Op dl = OpMod)" "Op dl \<noteq> OpRem" "apply_deltas now m ds d = Inr d'"
    using 2(4) by (auto simp: bindR_Inr_iff split: if_splits option.splits)
  then show ?case
  proof cases
    case up
    have id: "ID (nd cn) = NodeID dl" using 2(9) up(2) by blast
    have rows: "t_nodes d1 = upsert_rows now (nodeFromContext (nd cn)) (t_nodes d)"
      and par: "ParentID (nd cn) = [] \<or> ParentID (nd cn) \<in> set (ids (t_nodes d1))"
      using up(3) by (auto simp: UpsertNodeTx_Inr)
    have "nodes_ok (t_nodes d1)" unfolding rows
      by (rule nodes_ok_upsert [OF 2(5)]) (use par rows in auto)
    moreover have "get_row (t_nodes d1) i = Some row" using rows id other(1) 2(6) by (simp add: get_row_upsert)
    ultimately show ?thesis using 2(1) [OF up(1,2) _ _ _ 2(7) other(2) 2(9)] up(4) by blast
  next
    case rem
    let ?d1 = "DeleteNodeTx (NodeID dl) d"
    have "\<not> below (t_nodes d) {NodeID dl} i"
    proof
      assume "below (t_nodes d) {NodeID dl} i"
      from not_below_other [OF this] other(1) obtain r where r: "r \<in> set (t_nodes d)" "c_id r = i" "c_parent_id r \<noteq> None" by auto
      with get_row_member [of "t_nodes d" r] 2(5,6) have "r = row" by (simp add: nodes_ok_def)
      with r(3) 2(7) show False by simp
    qed
    then have "get_row (t_nodes ?d1) i = Some row" using delete_one [OF 2(5)] 2(6) by (simp add: DeleteNodeTx_def)
    moreover have "nodes_ok (t_nodes ?d1)" using nodes_ok_delete [OF 2(5)] by (simp add: DeleteNodeTx_def)
    ultimately show ?thesis using 2(2) [OF rem(1,2,3)] 2(7,9) other(2) by blast
  next
    case skip
    then show ?thesis using 2(3) [OF skip] 2(5-7,9) other(2) by blast
  qed
qed simp


lemma full_compile_spares:
  assumes "db_ok d" "node_root d i = Some []" "get_row (t_nodes d) i = Some row" "c_parent_id row = None"
    and "oFullRescan opts" "oCompileRoot opts \<noteq> []" "i \<notin> ID ` set (flat_data (Transform h roots (oCompileRoot opts)))"
    and "compile_roots h env ctxErr now opts roots d = (res, d')"
  shows "get_row (t_nodes d') i = Some row"
proof -
  let ?roots = "Transform h roots (oCompileRoot opts)"
  let ?prev = "buildPrevState d (flat_data ?roots) (oFullRescan opts) (oCompileRoot opts)"
  let ?ds = "DiffFlat (flat_data ?roots) ?prev"
  have nodes: "nodes_ok (t_nodes d)" using assms(1) by (simp add: db_ok_def)
  have "i \<notin> fst ` set ?prev"
    unfolding dom_buildPrevState [OF nodes] using assms(2,5,6) by (auto simp: prev_rows_def ids_def)
  moreover have "NodeID ` set ?ds \<subseteq> ID ` set (flat_data ?roots) \<union> fst ` set ?prev"
  proof -
    obtain rems where r: "?ds = concat (map (DiffFlat_step ?prev) (flat_data ?roots)) @ rems" "map NodeID rems = Removed (flat_data ?roots) ?prev"
      using DiffFlat_split by blast
    have "NodeID ` set rems \<subseteq> fst ` set ?prev" using arg_cong [OF r(2), of set] by (auto simp: Removed_def)
    moreover have "NodeID dl = ID n" if "dl \<in> set (DiffFlat_step ?prev n)" for n dl
      using that by (cases ?prev n rule: DiffFlat_step_cases) auto
    ultimately show ?thesis unfolding r(1) set_append set_concat set_map by (intro image_subsetI) blast
  qed
  ultimately have spared: "i \<notin> NodeID ` set ?ds" using assms(7) by blast
  obtain r d1 where e: "Emit env ctxErr now ?roots ?ds (CursorHashFlat h (flat_data ?roots)) (oMessage opts) (oCompileRoot opts) d = (r, d1)"
    by fastforce
  with assms(8) have d': "d' = d1" by (auto simp: compile_roots_def Let_def split: option.splits)
  from e show ?thesis
  proof (rule Emit_cases)
    assume "emit_body now ?roots ?ds (CursorHashFlat h (flat_data ?roots)) (oMessage opts) (oCompileRoot opts) d = Inr d1"
    from emit_body_nodes [OF assms(1) this] obtain d2 where
      a: "apply_deltas now (buildNodeMap ?roots) ?ds d = Inr d2" "t_nodes d1 = t_nodes d2" by blast
    have "get_row (t_nodes d2) i = Some row"
      by (rule apply_deltas_spares [OF a(1) nodes assms(3,4) spared]) (auto dest: buildNodeMap_Some)
    with a(2) d' show ?thesis by simp
  qed (use d' assms(3) in simp)
qed

lemma emitNodeChange_root:
  assumes "db_ok d" "emitNodeChange h env ctxErr now node (prev_for d (ID node)) msg d = (None, d')"
    and "map_option c_content_hash (get_row (t_nodes d) (ID node)) \<noteq> Some (Hash node)"
  shows "node_root d' (ID node) = Some []"
proof -
  let ?ds = "Diff [CNode node []] (prev_for d (ID node))"
  from assms(2) have em: "Emit env ctxErr now [CNode node []] ?ds (CursorHash h [CNode node []]) msg [] d = (None, d')"
    by (simp add: emitNodeChange_def Let_def)
  have f: "flat_data [CNode node []] = [node]" by (simp add: flat_data_def)
  have step: "?ds = DiffFlat_step (prev_for d (ID node)) node" using Diff_single [where d = d and node = node, OF refl] assms(3) by presburger
  moreover have "DiffFlat_step (prev_for d (ID node)) node \<noteq> []"
    using assms(3) by (auto simp: DiffFlat_step_def prev_for_def split: option.splits)
  moreover have "\<forall>dl \<in> set (DiffFlat_step (prev_for d (ID node)) node). NodeID dl = ID node"
    using Diff_single [where d = d and node = node, OF refl] by blast
  ultimately have "?ds \<noteq> []" "ID node \<in> NodeID ` set ?ds" by (auto simp: neq_Nil_conv)
  with emit_all_or_nothing [OF em] have "emit_body now [CNode node []] ?ds (CursorHash h [CNode node []]) msg [] d = Inr d'" by blast
  from emit_body_roots [OF assms(1) this] \<open>ID node \<in> NodeID ` set ?ds\<close> show ?thesis by simp
qed

text \<open>C29: a node that a tool has rewritten is out of the reach of full compilations: once MemorySummarize has changed
  a top-level node, the node belongs to no compile root, and a full compilation of a directory, also of the one
  the node came from, leaves it in the store even though what was compiled does not contain it.\<close>

theorem summarized_node_never_pruned:
  assumes "db_ok d" "GetNode d i = Inr old" "nParentID old = []" "nContentHash old \<noteq> ContentHash (li_hash l) summary"
    and "call_tool l dp tr w (MemorySummarize i summary temp) d = (Inr msg, d1)"
    and "oFullRescan opts" "oCompileRoot opts \<noteq> []"
    and "i \<notin> ID ` set (flat_data (Transform h roots (oCompileRoot opts)))"
    and "compile_roots h env ctxErr now opts roots d1 = (res, d2)"
  shows "node_root d1 i = Some [] \<and> (\<exists>n. GetNode d2 i = Inr n \<and> nContent n = summary)"
proof -
  let ?h = "li_hash l"
  from assms(2) obtain row where row: "get_row (t_nodes d) i = Some row" "old = scanNode row" by (auto simp: GetNode_row)
  then have id: "nID old = i" using get_row_Some [OF row(1)] by (simp add: scanNode_def)
  define t where "t = (case temp of None \<Rightarrow> dpSummarizeRebound dp | Some t \<Rightarrow> t)"
  define node where "node = updated_node old (''Summary: '' @ firstLine summary 70) summary (ContentHash ?h summary) (Estimate summary) (Some t)"
  have range: "\<not> (case temp of None \<Rightarrow> False | Some t \<Rightarrow> t < 0 \<or> 1 < t)"
    using assms(5) by (auto simp: HandleSummarize_def)
  have node: "ID node = i" "Hash node = ContentHash ?h summary" "Content node = summary" "ParentID node = []"
    using id assms(3) by (simp_all add: node_def updated_node_def)
  have prev: "[(i, \<lparr>StHash = nContentHash old, StContent = nContent old\<rparr>)] = prev_for d (ID node)"
    using row node(1) by (simp add: prev_for_def scanNode_def)
  obtain r d1' where em: "emitNodeChange ?h (su_tx w) (su_ctxErr w) (su_now w) node (prev_for d (ID node)) (''summarize:'' @ i) d = (r, d1')" by fastforce
  from assms(5) em have res: "r = None" "d1' = d1"
    unfolding call_tool.simps HandleSummarize_def if_not_P [OF range] assms(2) sum.case Let_def prev t_def [symmetric] node_def [symmetric]
    by (auto split: option.splits)
  note em' = em [unfolded res]
  have ch: "map_option c_content_hash (get_row (t_nodes d) (ID node)) \<noteq> Some (Hash node)"
    using row node assms(4) by (simp add: scanNode_def)
  have rt: "node_root d1 i = Some []" using emitNodeChange_root [OF assms(1) em' ch] node(1) by simp
  from assms(1) em' have "db_ok d1 \<and> t_nodes d1 = upsert_rows (su_now w) (nodeFromContext node) (t_nodes d)"
    by (cases rule: emitNodeChange_cases) (use ch in auto)
  then have ok: "db_ok d1" and new: "get_row (t_nodes d1) i = Some (update_row (su_now w) (nodeFromContext node) row)"
    using row node(1) by (simp_all add: get_row_upsert)
  from full_compile_spares [OF ok rt new _ assms(6-9)] node(3,4)
  have "get_row (t_nodes d2) i = Some (update_row (su_now w) (nodeFromContext node) row)"
    by (simp add: update_row_def nodeFromContext_def parentIDParam_def)
  then have "GetNode d2 i = Inr (scanNode (update_row (su_now w) (nodeFromContext node) row))" by (simp add: GetNode_def)
  with rt node(3) show ?thesis by (simp add: scanNode_def update_row_def nodeFromContext_def)
qed


theorem summarized_node_never_pruned_witness:
  "\<exists>msg d1 res d2 n. call_tool sample_libraries (svDeps (NewServer DefaultConfig [])) None sample_world
       (MemorySummarize ''a'' ''short'' (Some (9 / 10))) note_db = (Inr msg, d1)
     \<and> compile_roots len_hash fair_env NoRows 5 scan_options (one_file ''x'') d1 = (res, d2)
     \<and> GetNode d2 ''a'' = Inr n \<and> nContent n = ''short''"
proof -
  let ?dp = "svDeps (NewServer DefaultConfig [])" and ?c = "MemorySummarize ''a'' ''short'' (Some (9 / 10))"
  obtain msg d1 where run: "call_tool sample_libraries ?dp None sample_world ?c note_db = (Inr msg, d1)"
    using summarize_note [of 0 "dpSummarizeRebound ?dp"] by (auto simp: sample_libraries_def sample_world_def)
  obtain res d2 where c: "compile_roots len_hash fair_env NoRows 5 scan_options (one_file ''x'') d1 = (res, d2)" by fastforce
  have parent: "nParentID (scanNode note_row) = []" using note_row by (simp add: scanNode_def)
  have hash: "nContentHash (scanNode note_row) \<noteq> ContentHash (li_hash sample_libraries) ''short''"
    using note_row note_hash by (simp add: scanNode_def sample_libraries_def)
  have opts: "oFullRescan scan_options" "oCompileRoot scan_options \<noteq> []" by (simp_all add: scan_options_def)
  have "\<not> list_ex (\<lambda>n. ID n = ''a'') (flat_data (Transform len_hash (one_file ''x'') (oCompileRoot scan_options)))" by code_simp
  then have "''a'' \<notin> ID ` set (flat_data (Transform len_hash (one_file ''x'') (oCompileRoot scan_options)))"
    by (auto simp: list_ex_iff)
  from summarized_node_never_pruned [OF note_db(1,2) parent hash run opts this c] run c show ?thesis by blast
qed

end
