(* ===== verification/Summaries.thy ===== *)
theory Summaries
  imports StoreOps Utf8 "HOL-Library.Option_ord"
begin

text \<open>
  The two statements of \<open>pkg/store/node.go\<close> that read and write by source file: the list of file
  summaries and the rewriting of source paths.
\<close>

section \<open>File summaries\<close>

record FileSummary =
  fsPath :: string
  fsNodeCount :: nat
  fsTokenCount :: int
  fsCompileRoot :: string

definition file_latest :: "db \<Rightarrow> string \<Rightarrow> int option" where
  \<comment> \<open>\<open>MAX(snapshot_id)\<close> over the diffs of the file's nodes\<close>
  "file_latest d f =
     (case map d_snapshot_id (filter (\<lambda>x. \<exists>r \<in> set (t_nodes d). c_source_file r = f \<and> c_id r = d_node_id x) (t_diffs d)) of
        [] \<Rightarrow> None
      | s # ss \<Rightarrow> Some (foldl max s ss))"

definition file_root :: "db \<Rightarrow> string \<Rightarrow> string option" where
  "file_root d f = (case file_latest d f of None \<Rightarrow> None | Some s \<Rightarrow> snapshot_root d s)"

text \<open>A file has one latest snapshot, so the groups are the files. A null root sorts first.\<close>

definition ListFileSummaries :: "db \<Rightarrow> FileSummary list" where
  "ListFileSummaries d =
     map (\<lambda>f. let rows = filter (\<lambda>r. c_source_file r = f) (t_nodes d)
              in \<lparr>fsPath = f, fsNodeCount = length rows, fsTokenCount = sum_list (map c_token_count rows),
                  fsCompileRoot = (case file_root d f of None \<Rightarrow> [] | Some croot \<Rightarrow> croot)\<rparr>)
       (sort_key (\<lambda>f. (file_root d f, f)) (remdups (map c_source_file (t_nodes d))))"

lemma sum_over_classes:
  fixes f :: "'a \<Rightarrow> 'b :: comm_monoid_add"
  assumes "distinct ks" "k ` set xs \<subseteq> set ks"
  shows "sum_list (map (\<lambda>c. sum_list (map f (filter (\<lambda>x. k x = c) xs))) ks) = sum_list (map f xs)"
  using assms(2)
proof (induction xs)
  case (Cons x xs)
  have one: "sum_list (map (\<lambda>c. if k x = c then f x else 0) ks) = f x"
    using assms(1) Cons.prems by (simp add: sum_list_distinct_conv_sum_set)
  have "sum_list (map (\<lambda>c. sum_list (map f (filter (\<lambda>y. k y = c) (x # xs)))) ks)
      = sum_list (map (\<lambda>c. (if k x = c then f x else 0) + sum_list (map f (filter (\<lambda>y. k y = c) xs))) ks)"
    by (intro arg_cong [where f = sum_list] map_cong) auto
  with one Cons show ?case by (simp add: sum_list_addf)
qed simp

text \<open>The summaries account for every node once: they list every file that has nodes exactly once, in the order
  of their roots and paths, and their node and token counts add up to those of the whole table.\<close>

theorem ListFileSummaries_counts:
  "distinct (map fsPath (ListFileSummaries d)) \<and> set (map fsPath (ListFileSummaries d)) = c_source_file ` set (t_nodes d)
   \<and> sorted (map (\<lambda>s. (file_root d (fsPath s), fsPath s)) (ListFileSummaries d))
   \<and> sum_list (map fsNodeCount (ListFileSummaries d)) = length (t_nodes d)
   \<and> sum_list (map fsTokenCount (ListFileSummaries d)) = sum_list (map c_token_count (t_nodes d))"
proof -
  let ?files = "sort_key (\<lambda>f. (file_root d f, f)) (remdups (map c_source_file (t_nodes d)))"
  have paths: "map fsPath (ListFileSummaries d) = ?files" by (simp add: ListFileSummaries_def Let_def comp_def)
  have "map (\<lambda>s. (file_root d (fsPath s), fsPath s)) (ListFileSummaries d) = map (\<lambda>f. (file_root d f, f)) ?files"
    by (simp add: ListFileSummaries_def Let_def comp_def)
  then have "sorted (map (\<lambda>s. (file_root d (fsPath s), fsPath s)) (ListFileSummaries d))" by (simp only: sorted_sort_key)
  moreover have files: "distinct ?files" "c_source_file ` set (t_nodes d) \<subseteq> set ?files" by simp_all
  from sum_over_classes [OF this, of "\<lambda>r. 1 :: nat"]
  have "sum_list (map fsNodeCount (ListFileSummaries d)) = length (t_nodes d)"
    by (simp add: ListFileSummaries_def Let_def comp_def sum_list_triv)
  moreover from sum_over_classes [OF files, of c_token_count]
  have "sum_list (map fsTokenCount (ListFileSummaries d)) = sum_list (map c_token_count (t_nodes d))"
    by (simp add: ListFileSummaries_def Let_def comp_def)
  ultimately show ?thesis using paths by simp
qed

section \<open>Rewriting source paths\<close>

text \<open>SQLite's \<open>LIKE\<close>: a percent sign matches any text, an underscore one character, letters of the ASCII
  range match in both cases. Characters are runes, and so are the units of \<open>substr\<close> and \<open>length\<close>.\<close>

function runes :: "string \<Rightarrow> string list" where
  "runes s = (if s = [] then [] else take (range_width s) s # runes (drop (range_width s) s))"
  by pat_completeness auto
termination
  by (relation "measure length") (auto simp: range_width_def dest: rune_len_pos split: option.splits)

declare runes.simps [simp del]

definition ascii_lower :: "char \<Rightarrow> char" where
  "ascii_lower c = (if 65 \<le> (of_char c :: nat) \<and> (of_char c :: nat) \<le> 90 then char_of (of_char c + 32 :: nat) else c)"

fun sql_like :: "string list \<Rightarrow> string list \<Rightarrow> bool" where
  "sql_like [] [] = True"
| "sql_like [] (c # s) = False"
| "sql_like (p # ps) [] = (p = ''%'' \<and> sql_like ps [])"
| "sql_like (p # ps) (c # s) =
     (if p = ''%'' then sql_like ps (c # s) \<or> sql_like (p # ps) s
      else (p = ''_'' \<or> map ascii_lower p = map ascii_lower c) \<and> sql_like ps s)"

definition ExecRewriteSourcePaths :: "string \<Rightarrow> string \<Rightarrow> db \<Rightarrow> db" where
  "ExecRewriteSourcePaths oldPrefix newPrefix d =
     update_where (\<lambda>r. sql_like (runes (oldPrefix @ ''%'')) (runes (c_source_file r)))
       (\<lambda>r. r\<lparr>c_source_file := newPrefix @ concat (drop (length (runes oldPrefix)) (runes (c_source_file r)))\<rparr>) d"


lemma runes_ascii: "\<forall>c \<in> set s. (of_char c :: nat) < 128 \<Longrightarrow> runes s = map (\<lambda>c. [c]) s"
proof (induction s)
  case (Cons c s)
  then have "rune_len (c # s) = Some 1" by (simp add: rune_len_Cons_iff lead_width_def tail_ok_def)
  then have "range_width (c # s) = 1" by (simp add: range_width_def)
  with Cons show ?case by (subst runes.simps) simp
qed (simp add: runes.simps)

lemma sql_like_any: "sql_like [''%''] s"
  by (induction s) simp_all

lemma sql_like_prefix:
  "CHR ''%'' \<notin> set p \<Longrightarrow> CHR ''_'' \<notin> set p \<Longrightarrow>
    sql_like (map (\<lambda>c. [c]) p @ [''%'']) (map (\<lambda>c. [c]) s)
      \<longleftrightarrow> length p \<le> length s \<and> map ascii_lower (take (length p) s) = map ascii_lower p"
proof (induction p arbitrary: s)
  case (Cons a p)
  then show ?case by (cases s) auto
qed (simp add: sql_like_any)

text \<open>Which rows the rewriting takes for plain ASCII paths: those whose path starts with the old prefix, in upper
  or lower case. A file below a directory of the same name in other letters is rewritten as well.\<close>

theorem rewrite_ignores_case:
  assumes "\<forall>c \<in> set oldPrefix \<union> set path. (of_char c :: nat) < 128" "CHR ''%'' \<notin> set oldPrefix" "CHR ''_'' \<notin> set oldPrefix"
  shows "sql_like (runes (oldPrefix @ ''%'')) (runes path)
    \<longleftrightarrow> (\<exists>p rest. path = p @ rest \<and> map ascii_lower p = map ascii_lower oldPrefix)"
proof -
  have "runes (oldPrefix @ ''%'') = map (\<lambda>c. [c]) oldPrefix @ [''%'']" "runes path = map (\<lambda>c. [c]) path"
    using assms(1) by (simp_all add: runes_ascii)
  then have l: "sql_like (runes (oldPrefix @ ''%'')) (runes path)
      \<longleftrightarrow> length oldPrefix \<le> length path \<and> map ascii_lower (take (length oldPrefix) path) = map ascii_lower oldPrefix"
    using sql_like_prefix [OF assms(2,3)] by simp
  have "map ascii_lower p = map ascii_lower oldPrefix \<Longrightarrow> length p = length oldPrefix" for p by (metis length_map)
  then show ?thesis unfolding l by (metis append_eq_conv_conj append_take_drop_id le_add1 length_append)
qed

theorem rewrite_wildcard: "sql_like (runes (''/my_dir'' @ ''%'')) (runes ''/myXdir/a.md'')"
  by code_simp

end
