(* ===== verification/Inspect.thy ===== *)
theory Inspect
  imports Tools Summaries
begin

text \<open>
  The command \<open>inspect\<close> of \<open>cmd/remindb/inspect.go\<close>: figures, files and node tree of a database as text.
  A writer is the list of what is written to it. Whether to use colours (the output is a terminal) and the
  size of the database file come from the operating system and are arguments.
\<close>

section \<open>Colours\<close>

definition ESC :: char where "ESC = CHR 0x1B"

definition ansiReset :: string where "ansiReset = ESC # ''[0m''"
definition ansiBold :: string where "ansiBold = ESC # ''[1m''"
definition ansiDim :: string where "ansiDim = ESC # ''[2m''"
definition ansiYellow :: string where "ansiYellow = ESC # ''[33m''"
definition ansiCyan :: string where "ansiCyan = ESC # ''[36m''"
definition ansiBrightW :: string where "ansiBrightW = ESC # ''[97m''"

definition inspectLabelPad :: nat where "inspectLabelPad = 14"
definition inspect_hotThreshold :: real where "inspect_hotThreshold = 0.5"
definition inspect_coldThreshold :: real where "inspect_coldThreshold = 0.1"
definition gradientGreen :: int where "gradientGreen = 60"

definition paint :: "bool \<Rightarrow> string \<Rightarrow> string \<Rightarrow> string" where
  "paint color code s = (if \<not> color then s else code @ s @ ansiReset)"

definition temp_color :: "real \<Rightarrow> string" where
  "temp_color t =
     (let c = t; c = (if c < 0 then 0 else c); c = (if c > 1 then 1 else c)
      in ESC # ''[38;2;'' @ Itoa \<lfloor>255 * c\<rfloor> @ '';'' @ Itoa gradientGreen @ '';'' @ Itoa \<lfloor>255 * (1 - c)\<rfloor> @ ''m'')"

definition tempPaint :: "bool \<Rightarrow> real \<Rightarrow> string" where
  "tempPaint color t = (if \<not> color then fmt_2f t else temp_color t @ fmt_2f t @ ansiReset)"

section \<open>Figures\<close>

definition fmt_1f :: "real \<Rightarrow> string" where
  \<comment> \<open>\<open>%.1f\<close>\<close>
  "fmt_1f x =
     (let n = nat (round_half_even (\<bar>x\<bar> * 10))
      in (if x < 0 then ''-'' else []) @ itoa_nat (n div 10) @ ''.'' @ itoa_nat (n mod 10))"

definition runePad :: "string \<Rightarrow> nat \<Rightarrow> string" where
  "runePad s width = (let n = length (runes s) in if width \<le> n then s else s @ replicate (width - n) SP)"

function humanSize_loop :: "int \<Rightarrow> nat \<Rightarrow> int \<Rightarrow> int \<times> nat" where
  "humanSize_loop d e x =
     (if 1024 \<le> x then humanSize_loop (wrap64 (d * 1024)) (e + 1) (x div 1024) else (d, e))"
  by pat_completeness auto
termination by (relation "measure (\<lambda>(d, e, x). nat x)") auto

declare humanSize_loop.simps [simp del]

definition sizeUnits :: string where "sizeUnits = ''KMGTPE''"

definition humanSize :: "int \<Rightarrow> string" where
  "humanSize n =
     (if n < 1024 then Itoa n @ '' B''
      else case humanSize_loop 1024 0 (n div 1024) of
             (d, e) \<Rightarrow> fmt_1f (of_int n / of_int d) @ '' '' @ [sizeUnits ! e] @ ''B'')"

definition at_least_sign :: string where "at_least_sign = [CHR 0xE2, CHR 0x89, CHR 0xA5]"

definition printStats :: "bool \<Rightarrow> string \<Rightarrow> error + int \<Rightarrow> Stats \<Rightarrow> string list" where
  "printStats color dbPath fileSize s =
     (let header = ''=== Database: '' @ dbPath;
          header = (case fileSize of Inr n \<Rightarrow> header @ '' ('' @ humanSize n @ '')'' | Inl _ \<Rightarrow> header);
          header = header @ '' ==='';
          row = (\<lambda>label value. paint color ansiDim (runePad label inspectLabelPad) @ '' '' @ value @ [LF]);
          num = (\<lambda>n. paint color ansiBrightW (itoa_nat n));
          hotLabel = ''Hot ('' @ at_least_sign @ fmt_1f inspect_hotThreshold @ ''):'';
          coldLabel = ''Cold (<'' @ fmt_1f inspect_coldThreshold @ ''):''
      in [paint color (ansiBold @ ansiCyan) header @ [LF],
          row ''Nodes:'' (num (NodeCount s)),
          row ''Snapshots:'' (num (SnapshotCount s)),
          row ''Avg temp:'' (tempPaint color (AvgTemp s)),
          row hotLabel (num (HotCount s)),
          row coldLabel (num (ColdCount s)),
          [LF]])"

section \<open>Files\<close>

definition groupFilesByRoot :: "FileSummary list \<Rightarrow> (string \<Rightarrow> FileSummary list) \<times> string list" where
  \<comment> \<open>the empty root comes last\<close>
  "groupFilesByRoot summaries =
     (\<lambda>k. filter (\<lambda>fs. fsCompileRoot fs = k) summaries,
      sort_key (\<lambda>k. (k = [], k)) (remdups (map fsCompileRoot summaries)))"

datatype fileTrie = FileTrie (ft_children: "(string \<times> fileTrie) list") (ft_summary: "FileSummary option")

fun trie_insert :: "FileSummary \<Rightarrow> string list \<Rightarrow> fileTrie \<Rightarrow> fileTrie" where
  \<comment> \<open>the loop over the segments; the last one takes the summary\<close>
  "trie_insert fs [] cur = cur"
| "trie_insert fs (seg # segs) (FileTrie cs s) =
     (if seg = [] then trie_insert fs segs (FileTrie cs s)
      else let next' = (case map_of cs seg of Some c \<Rightarrow> c | None \<Rightarrow> FileTrie [] None);
               next' = (if segs = [] then FileTrie (ft_children next') (Some fs) else next')
           in FileTrie (AList.update seg (trie_insert fs segs next') cs) s)"

definition build_trie :: "FileSummary list \<Rightarrow> fileTrie" where
  "build_trie files = foldl (\<lambda>t fs. trie_insert fs (splitOn (CHR ''/'') (fsPath fs)) t) (FileTrie [] None) files"

definition branch_mid :: string where
  "branch_mid = [CHR 0xE2, CHR 0x94, CHR 0x9C, CHR 0xE2, CHR 0x94, CHR 0x80, CHR 0xE2, CHR 0x94, CHR 0x80, SP]"

definition branch_last :: string where
  "branch_last = [CHR 0xE2, CHR 0x94, CHR 0x94, CHR 0xE2, CHR 0x94, CHR 0x80, CHR 0xE2, CHR 0x94, CHR 0x80, SP]"

definition bar_mid :: string where "bar_mid = [CHR 0xE2, CHR 0x94, CHR 0x82, SP, SP, SP]"

definition trie_label :: "bool \<Rightarrow> string \<Rightarrow> FileSummary option \<Rightarrow> string" where
  "trie_label color k summary =
     (case summary of
        Some fs \<Rightarrow> paint color ansiBrightW k @ '' ''
          @ paint color ansiDim (''('' @ itoa_nat (fsNodeCount fs) @ '' nodes, '' @ Itoa (fsTokenCount fs) @ '' tok)'') @ [LF]
      | None \<Rightarrow> paint color ansiYellow (k @ ''/'') @ [LF])"

function renderTrieNode :: "bool \<Rightarrow> fileTrie \<Rightarrow> string \<Rightarrow> string list" where
  "renderTrieNode color (FileTrie cs s) pre =
     (let children = sort_key fst cs
      in concat (map (\<lambda>(k, child).
           let isLast = (k = fst (last children));
               branch = (if isLast then branch_last else branch_mid);
               nextPre = pre @ (if isLast then ''    '' else bar_mid)
           in (pre @ branch @ trie_label color k (ft_summary child)) # renderTrieNode color child nextPre) children))"
  by pat_completeness auto
termination
  by (relation "measure (\<lambda>(color, t, pre). size t)") (auto simp: less_Suc_eq_le intro!: trans_le_add1 order_trans [OF _ size_list_estimation'])

declare renderTrieNode.simps [simp del]

definition renderFileTree :: "bool \<Rightarrow> FileSummary list \<Rightarrow> string list" where
  "renderFileTree color files = renderTrieNode color (build_trie files) []"

definition printFilesView :: "bool \<Rightarrow> db \<Rightarrow> string list" where
  "printFilesView color d =
     (let summaries = ListFileSummaries d
      in if length summaries = 0 then [''No files in database.'' @ [LF]]
         else case groupFilesByRoot summaries of
                (groups, order) \<Rightarrow>
                  (paint color (ansiBold @ ansiCyan) ''=== Files ==='' @ [LF])
                  # concat (map (\<lambda>croot.
                      (paint color ansiBold (if croot = [] then ''(ungrouped)'' else croot) @ [LF])
                      # renderFileTree color (groups croot) @ [[LF]]) order))"

section \<open>Node tree\<close>

function printTree :: "bool \<Rightarrow> (string \<Rightarrow> Node list) \<Rightarrow> Node \<Rightarrow> string \<Rightarrow> string \<Rightarrow> nat \<Rightarrow> int \<Rightarrow> string" where
  "printTree color children n parentSource croot depth maxDepth =
     concat (replicate depth ''  '') @ paint color ansiYellow (''['' @ nNodeType n @ '']'') @ '' ''
     @ paint color ansiBrightW (nLabel n) @ '' ('' @ paint color ansiDim (''id='' @ nID n)
     @ (if nSourceFile n \<noteq> parentSource then '' '' @ paint color ansiDim (''file='' @ relSourcePath (nSourceFile n) croot) else [])
     @ '' '' @ (''temp='' @ tempPaint color (nTemperature n)) @ '' '' @ paint color ansiDim (''tok='' @ Itoa (nTokenCount n)) @ '')'' @ [LF]
     @ (if maxDepth \<le> int depth then []
        else concat (map (\<lambda>child. printTree color children child (nSourceFile n) croot (depth + 1) maxDepth)
               (children (nID n))))"
  by pat_completeness auto

termination
  by (relation "measure (\<lambda>(color, children, n, parentSource, croot, depth, maxDepth). nat (maxDepth - int depth))") auto

declare printTree.simps [simp del]

record inspect_flags =
  inspectShowTree :: bool
  inspectShowFiles :: bool
  inspectTreeDepth :: int
  depthChanged :: bool

definition runInspect :: "inspect_flags \<Rightarrow> bool \<Rightarrow> string \<Rightarrow> error + int \<Rightarrow> error + db \<Rightarrow> error option \<times> string list" where
  \<comment> \<open>\<open>opened\<close> is the database, or why it could not be opened or migrated\<close>
  "runInspect fl color dbPath fileSize opened =
     (if \<not> inspectShowTree fl \<and> depthChanged fl then (Some (Driver ''--depth requires --tree''), [])
      else case opened of
        Inl e \<Rightarrow> (Some e, [])
      | Inr d \<Rightarrow>
          (let out = printStats color dbPath fileSize (GetStats d)
                 @ (if inspectShowFiles fl then printFilesView color d else []);
               alln = GetAllNodes d
           in if \<not> inspectShowTree fl then (None, out)
              else if length alln = 0 then (None, out @ [''No nodes in database.'' @ [LF]])
              else case BuildTree alln of
                     (roots, childMap) \<Rightarrow>
                       (None, out @ (paint color (ansiBold @ ansiCyan) ''=== Node Tree ==='' @ [LF])
                          # map (\<lambda>n. printTree color childMap n [] (GetLatestCompileRoot d) 0 (inspectTreeDepth fl)) roots)))"


section \<open>Sizes\<close>

lemma le_div_iff: "0 < d \<Longrightarrow> k \<le> n div d \<longleftrightarrow> k * d \<le> n" for d k n :: int
proof
  assume d: "0 < d" and "k \<le> n div d"
  then have "k * d \<le> n div d * d" by (simp add: mult_right_mono)
  also have "\<dots> \<le> n" using d pos_mod_sign [of d n] div_mult_mod_eq [of n d] by linarith
  finally show "k * d \<le> n" .
next
  assume d: "0 < d" and "k * d \<le> n"
  then have "k * d div d \<le> n div d" by (intro zdiv_mono1)
  with d show "k \<le> n div d" by simp
qed

lemma humanSize_loop_spec:
  "1024 ^ (e + 1) \<le> n \<Longrightarrow> n < 2 ^ 63 \<Longrightarrow> \<exists>e'. humanSize_loop (1024 ^ (e + 1)) e (n div 1024 ^ (e + 1)) = (1024 ^ (e' + 1), e')
    \<and> e' < 6 \<and> 1024 ^ (e' + 1) \<le> n \<and> n < 1024 * 1024 ^ (e' + 1)"
proof (induction "6 - e" arbitrary: e rule: less_induct)
  case less
  let ?d = "1024 ^ (e + 1) :: int"
  have e: "e < 6"
  proof (rule ccontr)
    assume "\<not> e < 6"
    then have "(1024 :: int) ^ 7 \<le> ?d" by (intro power_increasing) auto
    with less.prems show False by simp
  qed
  show ?case
  proof (cases "1024 \<le> n div ?d")
    case True
    then have big: "1024 ^ (Suc e + 1) \<le> n" by (simp add: le_div_iff)
    have "0 < (1024 :: int) ^ e" by simp
    then have "0 \<le> ?d * 1024" "?d * 1024 = 1024 ^ (Suc e + 1)" by simp_all
    with big less.prems(2) have "wrap64 (?d * 1024) = 1024 ^ (Suc e + 1)" using wrap64_id [of "?d * 1024"] by linarith
    moreover have "n div ?d div 1024 = n div (?d * 1024)" by (rule zdiv_zmult2_eq [symmetric]) simp
    then have "n div ?d div 1024 = n div 1024 ^ (Suc e + 1)" using \<open>?d * 1024 = 1024 ^ (Suc e + 1)\<close> by argo
    ultimately have "humanSize_loop ?d e (n div ?d) = humanSize_loop (1024 ^ (Suc e + 1)) (Suc e) (n div 1024 ^ (Suc e + 1))"
      using True by (subst humanSize_loop.simps) simp
    then show ?thesis using less.hyps [of "Suc e"] big less.prems(2) e by auto
  next
    case False
    then have "n < 1024 * ?d" by (simp add: le_div_iff not_le)
    moreover have "humanSize_loop ?d e (n div ?d) = (?d, e)" using False by (subst humanSize_loop.simps) simp
    ultimately show ?thesis using e less.prems(1) by blast
  qed
qed

text \<open>Every file size has a unit: for each size from 1024 to the largest 64-bit one the loop ends with an index
  into the six unit letters, so indexing them cannot fail, its divisor is the matching power of 1024 without overflow,
  and the number printed is at least one and below 1024.\<close>

theorem humanSize_bounds:
  assumes "1024 \<le> n" "n < 2 ^ 63"
  shows "\<exists>d e. humanSize_loop 1024 0 (n div 1024) = (d, e) \<and> e < length sizeUnits \<and> d = 1024 ^ (e + 1) \<and> d \<le> n \<and> n < 1024 * d
    \<and> humanSize n = fmt_1f (of_int n / of_int d) @ '' '' @ [sizeUnits ! e] @ ''B''"
  using humanSize_loop_spec [of 0 n] assms by (auto simp: sizeUnits_def humanSize_def)

theorem humanSize_bounds_witness:
  "\<exists>d e. humanSize_loop 1024 0 (5000000 div 1024) = (d, e) \<and> e < length sizeUnits \<and> d \<le> 5000000"
  using humanSize_bounds [of 5000000] by auto

section \<open>The tree with and without colours\<close>

fun strip_ansi :: "bool \<Rightarrow> string \<Rightarrow> string" where
  \<comment> \<open>a text without its escape sequences; the flag is true inside of one\<close>
  "strip_ansi inSeq [] = []"
| "strip_ansi inSeq (c # s) =
     (if inSeq then strip_ansi (c \<noteq> CHR ''m'') s
      else if c = ESC then strip_ansi True s else c # strip_ansi False s)"

lemma strip_text: "ESC \<notin> set s \<Longrightarrow> strip_ansi False (s @ t) = s @ strip_ansi False t"
  by (induction s) auto

lemma strip_rest: "CHR ''m'' \<notin> set s \<Longrightarrow> strip_ansi True (s @ CHR ''m'' # t) = strip_ansi False t"
  by (induction s) auto

definition is_code :: "string \<Rightarrow> bool" where
  "is_code code \<longleftrightarrow> (\<exists>s. code = ESC # s @ ''m'' \<and> CHR ''m'' \<notin> set s)"

lemma strip_code: "is_code code \<Longrightarrow> strip_ansi False (code @ t) = strip_ansi False t"
  using strip_rest by (auto simp: is_code_def)

lemma is_code_simps [simp]: "is_code ansiReset" "is_code ansiDim" "is_code ansiYellow" "is_code ansiBrightW"
  by (auto simp: is_code_def ansiReset_def ansiDim_def ansiYellow_def ansiBrightW_def)

lemma strip_paint:
  assumes "ESC \<notin> set s" "is_code code"
  shows "strip_ansi False (paint color code s @ t) = s @ strip_ansi False t"
  using assms by (simp add: paint_def strip_text strip_code)

lemma itoa_chars: "c \<in> set (itoa_nat n) \<Longrightarrow> 48 \<le> (of_char c :: nat) \<and> (of_char c :: nat) < 58"
  using itoa_nat_digits [of c n] by (auto simp: of_char_digit)

lemma itoa_clean [simp]: "ESC \<notin> set (itoa_nat n)" "CHR ''m'' \<notin> set (itoa_nat n)" "ESC \<notin> set (Itoa k)" "CHR ''m'' \<notin> set (Itoa k)"
  by (auto simp: ESC_def Itoa_def dest!: itoa_chars split: if_splits)

lemma fmt_clean [simp]: "ESC \<notin> set (fmt_2f x)"
  by (auto simp: fmt_2f_def Let_def) (simp_all add: ESC_def)

lemma is_code_temp: "is_code (temp_color t)"
  unfolding is_code_def temp_color_def Let_def by (intro exI conjI refl) auto

lemma strip_tempPaint: "strip_ansi False (tempPaint color t @ u) = fmt_2f t @ strip_ansi False u"
  by (simp add: tempPaint_def strip_text strip_code is_code_temp)


definition plain_node :: "string \<Rightarrow> Node \<Rightarrow> bool" where
  \<comment> \<open>what the tree shows of the node has no escape character\<close>
  "plain_node croot n \<longleftrightarrow> ESC \<notin> set (nNodeType n) \<union> set (nLabel n) \<union> set (nID n) \<union> set (relSourcePath (nSourceFile n) croot)"

lemma strip_replicate: "strip_ansi False (concat (replicate k ''  '') @ t) = concat (replicate k ''  '') @ strip_ansi False t"
  by (rule strip_text) (auto simp: ESC_def)

lemma strip_concat:
  assumes "\<And>x t. x \<in> set xs \<Longrightarrow> strip_ansi False (f x @ t) = g x @ strip_ansi False t"
  shows "strip_ansi False (concat (map f xs) @ t) = concat (map g xs) @ strip_ansi False t"
  using assms by (induction xs) simp_all

lemma strip_chars: "c \<noteq> ESC \<Longrightarrow> strip_ansi False (c # t) = c # strip_ansi False t"
  by simp

lemma not_ESC [simp]: "CHR '' '' \<noteq> ESC" "CHR ''('' \<noteq> ESC" "CHR '')'' \<noteq> ESC" "CHR ''['' \<noteq> ESC" "CHR '']'' \<noteq> ESC" "CHR ''='' \<noteq> ESC" "LF \<noteq> ESC"
  "CHR ''i'' \<noteq> ESC" "CHR ''d'' \<noteq> ESC" "CHR ''f'' \<noteq> ESC" "CHR ''l'' \<noteq> ESC" "CHR ''e'' \<noteq> ESC" "CHR ''t'' \<noteq> ESC" "CHR ''m'' \<noteq> ESC"
  "CHR ''p'' \<noteq> ESC" "CHR ''o'' \<noteq> ESC" "CHR ''k'' \<noteq> ESC"
  by (simp_all add: ESC_def LF_def)

lemmas ESC_not [simp] = not_ESC [THEN not_sym]

lemma strip_printTree:
  assumes "\<forall>i. \<forall>m \<in> set (children i). plain_node croot m"
  shows "plain_node croot n \<Longrightarrow> strip_ansi False (printTree color children n parentSource croot depth maxDepth @ t)
    = writeTreeNode children n parentSource croot depth (nat maxDepth) @ strip_ansi False t"
proof (induction "nat (maxDepth - int depth)" arbitrary: n parentSource depth t)
  case (0 depth)
  then have leaf: "maxDepth \<le> int depth" "nat maxDepth \<le> depth" by auto
  show ?case using 0 leaf
    by (subst printTree.simps, subst writeTreeNode.simps)
       (auto simp: plain_node_def strip_replicate strip_paint strip_tempPaint strip_text)
next
  case (Suc k)
  have inner: "\<not> maxDepth \<le> int depth" "\<not> nat maxDepth \<le> depth" using Suc(2) by auto
  have below: "strip_ansi False (concat (map (\<lambda>child. printTree color children child (nSourceFile n) croot (depth + 1) maxDepth) (children (nID n))) @ t)
      = concat (map (\<lambda>child. writeTreeNode children child (nSourceFile n) croot (depth + 1) (nat maxDepth)) (children (nID n))) @ strip_ansi False t" for t
    by (rule strip_concat, rule Suc(1)) (use Suc(2) assms in auto)
  show ?case using Suc(3) inner below
    by (subst printTree.simps, subst writeTreeNode.simps)
       (auto simp: plain_node_def strip_replicate strip_paint strip_tempPaint strip_text)
qed

text \<open>C0: the tree on the terminal is the tree of MemoryTree: whether or not colours are on, for nodes whose texts
  hold no escape character, what \<open>inspect\<close> prints is, without its escape sequences, what the tool returns.\<close>

theorem printTree_is_MemoryTree:
  assumes "plain_node croot n" "\<forall>i. \<forall>m \<in> set (children i). plain_node croot m"
  shows "strip_ansi False (printTree color children n parentSource croot 0 maxDepth)
    = writeTreeNode children n parentSource croot 0 (nat maxDepth)"
  using strip_printTree [OF assms(2,1), of color parentSource 0 maxDepth "[]"] by simp


definition plain_root :: Node where
  "plain_root = (scanNode (sample_row ''a'' None))\<lparr>nNodeType := ''text'', nLabel := ''note''\<rparr>"

theorem printTree_is_MemoryTree_witness:
  "strip_ansi False (printTree True (\<lambda>i. []) plain_root [] [] 0 3) = writeTreeNode (\<lambda>i. []) plain_root [] [] 0 3"
proof -
  have "plain_node [] plain_root"
    by (simp add: plain_node_def plain_root_def scanNode_def sample_row_def relSourcePath_def ESC_def)
  from printTree_is_MemoryTree [OF this, of "\<lambda>i. []" True "[]" 3] show ?thesis by simp
qed

section \<open>The tree of files\<close>

text \<open>What a trie holds: the node at a path, and all paths in the order they are rendered.\<close>

fun trie_at :: "fileTrie \<Rightarrow> string list \<Rightarrow> fileTrie option" where
  "trie_at t [] = Some t"
| "trie_at (FileTrie cs s) (k # p) = (case map_of cs k of None \<Rightarrow> None | Some c \<Rightarrow> trie_at c p)"

fun trie_ok :: "fileTrie \<Rightarrow> bool" where
  "trie_ok (FileTrie cs s) \<longleftrightarrow> distinct (map fst cs) \<and> (\<forall>(k, c) \<in> set cs. trie_ok c)"

definition segments :: "string \<Rightarrow> string list" where
  "segments path = filter (\<lambda>seg. seg \<noteq> []) (splitOn (CHR ''/'') path)"

lemma trie_at_empty: "trie_at (FileTrie [] None) p = Some t \<longleftrightarrow> p = [] \<and> t = FileTrie [] None"
  by (cases p) auto

lemma trie_ok_update:
  "trie_ok (FileTrie cs s) \<Longrightarrow> trie_ok c \<Longrightarrow> trie_ok (FileTrie (AList.update k c cs) s)"
  by (auto simp: distinct_update dest!: set_update_subset)

lemma trie_insert_ok: "trie_ok t \<Longrightarrow> trie_ok (trie_insert fs segs t)"
proof (induction fs segs t rule: trie_insert.induct)
  case (2 fs seg segs cs s)
  show ?case
  proof (cases "seg = []")
    case False
    let ?c = "case map_of cs seg of Some c \<Rightarrow> c | None \<Rightarrow> FileTrie [] None"
    let ?n = "if segs = [] then FileTrie (ft_children ?c) (Some fs) else ?c"
    have "trie_ok ?c" using 2(3) by (auto dest!: map_of_SomeD split: option.splits)
    then have "trie_ok ?n" by (cases ?c) simp
    with 2(2) [OF False refl refl] 2(3) trie_ok_update False show ?thesis by (simp add: Let_def)
  qed (use 2 in simp)
qed simp

text \<open>Inserting a file makes the nodes on its path, and its node holds the summary if the path does not end
  with a separator.\<close>

lemma trie_insert_at:
  "trie_at (trie_insert fs segs t) p =
     (let q = filter (\<lambda>seg. seg \<noteq> []) segs;
          old = (case trie_at t p of Some u \<Rightarrow> ft_summary u | None \<Rightarrow> None);
          now = (if p = q \<and> segs \<noteq> [] \<and> last segs \<noteq> [] then Some fs else old)
      in case trie_at (trie_insert fs segs t) p of None \<Rightarrow> None | Some u \<Rightarrow> Some (FileTrie (ft_children u) now))
   \<and> (trie_at (trie_insert fs segs t) p \<noteq> None \<longleftrightarrow> trie_at t p \<noteq> None \<or> prefix p (filter (\<lambda>seg. seg \<noteq> []) segs))"
proof (induction fs segs t arbitrary: p rule: trie_insert.induct)
  case (1 fs t)
  then show ?case by (cases "trie_at t p") (auto simp: Let_def)
next
  case (2 fs seg segs cs s)
  show ?case
  proof (cases "seg = []")
    case True
    show ?thesis
    proof (cases "segs = []")
      case True
      with \<open>seg = []\<close> show ?thesis by (cases "trie_at (FileTrie cs s) p") (auto simp: Let_def)
    next
      case False
      with 2(1) [OF True, of p] True show ?thesis by simp
    qed
  next
    case False
    let ?c = "case map_of cs seg of Some c \<Rightarrow> c | None \<Rightarrow> FileTrie [] None"
    let ?n = "if segs = [] then FileTrie (ft_children ?c) (Some fs) else ?c"
    have ins: "trie_insert fs (seg # segs) (FileTrie cs s) = FileTrie (AList.update seg (trie_insert fs segs ?n) cs) s"
      using False by (simp add: Let_def)
    show ?thesis
    proof (cases p)
      case Nil
      with False show ?thesis unfolding ins by simp
    next
      case (Cons k p')
      show ?thesis
      proof (cases "k = seg")
        case True
        have child: "trie_at (FileTrie cs s) p = (case map_of cs seg of None \<Rightarrow> None | Some c \<Rightarrow> trie_at c p')"
          using Cons True by simp
        have here: "trie_at (trie_insert fs (seg # segs) (FileTrie cs s)) p = trie_at (trie_insert fs segs ?n) p'"
          unfolding ins using Cons True by simp
        have n_at: "trie_at ?n p' = (if segs = [] \<and> p' = [] then Some ?n else trie_at ?c p')"
          by (cases p'; cases ?c) auto
        note IH = 2(2) [OF False refl refl, of p']
        show ?thesis
        proof (cases "segs = []")
          case last: True
          show ?thesis unfolding here child using last Cons True False n_at
            by (cases "map_of cs seg"; cases p') (auto simp: Let_def trie_at_empty split: option.splits)
        next
          case more: False
          show ?thesis using IH unfolding here child using more Cons True False n_at
            by (cases "map_of cs seg"; cases "trie_at (trie_insert fs segs ?c) p'"; cases p')
               (auto simp: Let_def trie_at_empty split: option.splits)
        qed
      next
        case other: False
        with Cons False show ?thesis unfolding ins
          by (cases "map_of cs k") (auto simp: Let_def map_of_update_other split: option.splits)
      qed
    qed
  qed
qed


definition proper_path :: "string \<Rightarrow> bool" where
  \<comment> \<open>it does not end with a separator\<close>
  "proper_path path \<longleftrightarrow> last (splitOn (CHR ''/'') path) \<noteq> []"

definition file_shown :: "FileSummary list \<Rightarrow> string list \<Rightarrow> FileSummary option" where
  \<comment> \<open>the file with these path segments; of several the last\<close>
  "file_shown files p = find (\<lambda>f. proper_path (fsPath f) \<and> segments (fsPath f) = p) (rev files)"

definition shown_paths :: "FileSummary list \<Rightarrow> string list set" where
  \<comment> \<open>the files and the directories on the way to them\<close>
  "shown_paths files = {p. p \<noteq> [] \<and> (\<exists>f \<in> set files. prefix p (segments (fsPath f)))}"

definition summary_at :: "fileTrie \<Rightarrow> string list \<Rightarrow> FileSummary option" where
  "summary_at t p = (case trie_at t p of None \<Rightarrow> None | Some u \<Rightarrow> ft_summary u)"

lemma insert_has: "trie_at (trie_insert fs segs t) p \<noteq> None \<longleftrightarrow> trie_at t p \<noteq> None \<or> prefix p (filter (\<lambda>seg. seg \<noteq> []) segs)"
  using trie_insert_at [of fs segs t p] by (rule conjunct2)

lemma insert_summary:
  "summary_at (trie_insert fs segs t) p =
     (if p = filter (\<lambda>seg. seg \<noteq> []) segs \<and> segs \<noteq> [] \<and> last segs \<noteq> [] then Some fs else summary_at t p)"
proof (cases "trie_at (trie_insert fs segs t) p")
  case None
  with insert_has [of fs segs t p] show ?thesis by (auto simp: summary_at_def split: option.splits)
next
  case (Some u)
  define v where "v = (if p = filter (\<lambda>seg. seg \<noteq> []) segs \<and> segs \<noteq> [] \<and> last segs \<noteq> [] then Some fs else summary_at t p)"
  from Some conjunct1 [OF trie_insert_at [of fs segs t p]] have "u = FileTrie (ft_children u) v"
    unfolding Let_def summary_at_def v_def by (simp only: option.case option.inject)
  then have "ft_summary u = v" by (cases u) simp
  with Some show ?thesis by (simp add: summary_at_def v_def)
qed

lemma build_trie_snoc: "build_trie (files @ [f]) = trie_insert f (splitOn (CHR ''/'') (fsPath f)) (build_trie files)"
  by (simp add: build_trie_def)

lemma build_trie_spec:
  "trie_ok (build_trie files)
   \<and> (trie_at (build_trie files) p \<noteq> None \<longleftrightarrow> p = [] \<or> p \<in> shown_paths files)
   \<and> (p \<noteq> [] \<longrightarrow> summary_at (build_trie files) p = file_shown files p)"
proof (induction files rule: rev_induct)
  case Nil
  show ?case by (cases p) (simp_all add: build_trie_def shown_paths_def file_shown_def summary_at_def)
next
  case (snoc f files)
  have "trie_ok (build_trie (files @ [f]))" unfolding build_trie_snoc using snoc trie_insert_ok by blast
  moreover have "trie_at (build_trie (files @ [f])) p \<noteq> None \<longleftrightarrow> p = [] \<or> p \<in> shown_paths (files @ [f])"
    unfolding build_trie_snoc insert_has using snoc by (auto simp: shown_paths_def segments_def)
  moreover have "p \<noteq> [] \<longrightarrow> summary_at (build_trie (files @ [f])) p = file_shown (files @ [f]) p"
    unfolding build_trie_snoc insert_summary using snoc by (auto simp: file_shown_def segments_def proper_path_def)
  ultimately show ?case by blast
qed

section \<open>What is rendered\<close>

function trie_entries :: "fileTrie \<Rightarrow> (string list \<times> FileSummary option) list" where
  "trie_entries (FileTrie cs s) =
     concat (map (\<lambda>(k, c). ([k], ft_summary c) # map (\<lambda>(p, u). (k # p, u)) (trie_entries c)) (sort_key fst cs))"
  by pat_completeness auto
termination
  by (relation "measure size") (auto simp: less_Suc_eq_le intro!: trans_le_add1 order_trans [OF _ size_list_estimation'])

declare trie_entries.simps [simp del]

lemma entries_nonempty: "(p, u) \<in> set (trie_entries t) \<Longrightarrow> p \<noteq> []"
  by (cases t) (auto simp: trie_entries.simps)

lemma list_all2_concat:
  "(\<And>x. x \<in> set xs \<Longrightarrow> list_all2 P (f x) (g x)) \<Longrightarrow> list_all2 P (concat (map f xs)) (concat (map g xs))"
  by (induction xs) (auto intro: list_all2_appendI)

lemma render_entries:
  "list_all2 (\<lambda>line (p, u). suffix (trie_label color (last p) u) line) (renderTrieNode color t pre) (trie_entries t)"
proof (induction color t pre rule: renderTrieNode.induct)
  case (1 color cs s pre)
  show ?case unfolding renderTrieNode.simps trie_entries.simps Let_def
  proof (rule list_all2_concat)
    fix x assume x: "x \<in> set (sort_key fst cs)"
    obtain k c where kc: "x = (k, c)" by fastforce
    let ?pre = "pre @ (if k = fst (last (sort_key fst cs)) then ''    '' else bar_mid)"
    have "list_all2 (\<lambda>line (p, u). suffix (trie_label color (last p) u) line) (renderTrieNode color c ?pre) (trie_entries c)"
      by (rule 1 [OF refl]) (use x kc in auto)
    then have "list_all2 (\<lambda>line (p, u). suffix (trie_label color (last p) u) line) (renderTrieNode color c ?pre)
        (map (\<lambda>(p, u). (k # p, u)) (trie_entries c))"
      unfolding list_all2_map2 by (rule list.rel_mono_strong) (auto dest: entries_nonempty)
    moreover have "suffix (trie_label color k u) (pre @ b @ trie_label color k u)" for b u
      by (metis append_assoc suffix_def)
    ultimately show "list_all2 (\<lambda>line (p, u). suffix (trie_label color (last p) u) line)
      (case x of (k, child) \<Rightarrow> (pre @ (if k = fst (last (sort_key fst cs)) then branch_last else branch_mid) @ trie_label color k (ft_summary child))
         # renderTrieNode color child (pre @ (if k = fst (last (sort_key fst cs)) then ''    '' else bar_mid)))
      (case x of (k, c) \<Rightarrow> ([k], ft_summary c) # map (\<lambda>(p, u). (k # p, u)) (trie_entries c))"
      unfolding kc by simp
  qed
qed

lemma set_entries: "trie_ok t \<Longrightarrow> set (trie_entries t) = {(p, u). p \<noteq> [] \<and> (\<exists>c. trie_at t p = Some c \<and> u = ft_summary c)}"
proof (induction t rule: trie_entries.induct)
  case (1 cs s)
  have sub: "set (trie_entries c) = {(p, u). p \<noteq> [] \<and> (\<exists>c'. trie_at c p = Some c' \<and> u = ft_summary c')}" if "(k, c) \<in> set cs" for k c
    using 1(1) [of "(k, c)" k c] 1(2) that by auto
  have of: "map_of cs k = Some c \<longleftrightarrow> (k, c) \<in> set cs" for k c using 1(2) by (simp add: map_of_eq_Some_iff)
  show ?case
  proof (intro set_eqI, clarify)
    fix p u
    have "(p, u) \<in> set (trie_entries (FileTrie cs s)) \<longleftrightarrow>
      (\<exists>k c. (k, c) \<in> set cs \<and> (p = [k] \<and> u = ft_summary c \<or> (\<exists>q. p = k # q \<and> (q, u) \<in> set (trie_entries c))))"
    proof -
      have entry: "(p, u) \<in> set (([k], ft_summary c) # map (\<lambda>(p, u). (k # p, u)) (trie_entries c))
          \<longleftrightarrow> p = [k] \<and> u = ft_summary c \<or> (\<exists>q. p = k # q \<and> (q, u) \<in> set (trie_entries c))" for k c
        by auto
      have "(p, u) \<in> set (trie_entries (FileTrie cs s)) \<longleftrightarrow>
          (\<exists>x \<in> set cs. (p, u) \<in> set (case x of (k, c) \<Rightarrow> ([k], ft_summary c) # map (\<lambda>(p, u). (k # p, u)) (trie_entries c)))"
        unfolding trie_entries.simps set_concat set_map UN_iff set_sort by (simp only: bex_simps)
      also have "\<dots> \<longleftrightarrow> (\<exists>k c. (k, c) \<in> set cs \<and> (p, u) \<in> set (([k], ft_summary c) # map (\<lambda>(p, u). (k # p, u)) (trie_entries c)))"
        unfolding Bex_def split_paired_Ex prod.case ..
      finally show ?thesis unfolding entry .
    qed
    also have "\<dots> \<longleftrightarrow> (\<exists>k c. (k, c) \<in> set cs \<and> (\<exists>q. p = k # q \<and> (\<exists>c'. trie_at c q = Some c' \<and> u = ft_summary c')))"
    proof -
      have "(p = [k] \<and> u = ft_summary c \<or> (\<exists>q. p = k # q \<and> (q, u) \<in> set (trie_entries c)))
          \<longleftrightarrow> (\<exists>q. p = k # q \<and> (\<exists>c'. trie_at c q = Some c' \<and> u = ft_summary c'))" if "(k, c) \<in> set cs" for k c
      proof (cases p)
        case (Cons j q)
        show ?thesis unfolding sub [OF that] mem_Collect_eq prod.case Cons by (cases q) auto
      qed simp
      then show ?thesis by (simp cong: conj_cong)
    qed
    also have "\<dots> \<longleftrightarrow> p \<noteq> [] \<and> (\<exists>c'. trie_at (FileTrie cs s) p = Some c' \<and> u = ft_summary c')"
    proof (cases p)
      case (Cons k q)
      show ?thesis unfolding of [symmetric] Cons by (cases "map_of cs k") auto
    qed simp
    finally show "(p, u) \<in> set (trie_entries (FileTrie cs s)) \<longleftrightarrow>
      (p, u) \<in> {(p, u). p \<noteq> [] \<and> (\<exists>c. trie_at (FileTrie cs s) p = Some c \<and> u = ft_summary c)}" by simp
  qed
qed


lemma sorted_concat:
  assumes "sorted_wrt R xs" "\<And>x. x \<in> set xs \<Longrightarrow> sorted_wrt Q (f x)"
    and "\<And>x y a b. R x y \<Longrightarrow> a \<in> set (f x) \<Longrightarrow> b \<in> set (f y) \<Longrightarrow> Q a b"
  shows "sorted_wrt Q (concat (map f xs))"
  using assms(1,2)
proof (induction xs)
  case (Cons x xs)
  then show ?case using assms(3) by (auto simp: sorted_wrt_append)
qed simp

lemma strict_sort_key:
  assumes "distinct (map fst cs)"
  shows "sorted_wrt (\<lambda>x y. fst x < fst y) (sort_key fst cs)"
proof -
  have "distinct (map fst (sort_key fst cs))" using assms by (auto simp: distinct_map)
  then have "sorted_wrt (<) (map fst (sort_key fst cs))" by (simp add: strict_sorted_iff)
  then show ?thesis by (simp add: sorted_wrt_map)
qed

lemma sorted_entries: "trie_ok t \<Longrightarrow> sorted_wrt (<) (map fst (trie_entries t))"
proof (induction t rule: trie_entries.induct)
  case (1 cs s)
  let ?f = "\<lambda>(k, c). [k] # map ((#) k) (map fst (trie_entries c))"
  have "map fst (trie_entries (FileTrie cs s)) = concat (map ?f (sort_key fst cs))"
    by (simp add: trie_entries.simps map_concat comp_def split_def)
  moreover have "sorted_wrt (<) (concat (map ?f (sort_key fst cs)))"
  proof (rule sorted_concat [OF strict_sort_key])
    show "distinct (map fst cs)" using 1(2) by simp
  next
    fix x assume x: "x \<in> set (sort_key fst cs)"
    obtain k c where kc: "x = (k, c)" by fastforce
    have "sorted_wrt (<) (map fst (trie_entries c))" using 1(1) [OF x kc [symmetric]] 1(2) x kc by auto
    then have "sorted_wrt (<) (map ((#) k) (map fst (trie_entries c)))" by (simp add: sorted_wrt_map)
    moreover have "[k] < k # q" if "q \<in> set (map fst (trie_entries c))" for q
    proof -
      have "q \<noteq> []" using that entries_nonempty by force
      then show ?thesis by (cases q) simp_all
    qed
    ultimately show "sorted_wrt (<) (?f x)" unfolding kc by auto
  next
    fix x y a b
    assume "fst x < fst y" "a \<in> set (?f x)" "b \<in> set (?f y)"
    then show "a < b" by (cases x; cases y) auto
  qed
  ultimately show ?case by simp
qed

text \<open>C33: The view of files shows exactly what there is: for any summaries, with or without colours, its lines are, in
  lexicographic order and each once, the files and the directories on the way to them; each line ends with the label of
  its path, with the counts of the file there (of several files with the same segments the last) and without counts
  for a directory.\<close>

theorem renderFileTree_lists:
  "list_all2 (\<lambda>line p. suffix (trie_label color (last p) (file_shown files p)) line)
     (renderFileTree color files) (sorted_list_of_set (shown_paths files))"
proof -
  let ?t = "build_trie files"
  have ok: "trie_ok ?t" using build_trie_spec by blast
  have ents: "set (map fst (trie_entries ?t)) = shown_paths files"
  proof -
    have at: "p \<in> set (map fst (trie_entries ?t)) \<longleftrightarrow> p \<noteq> [] \<and> trie_at ?t p \<noteq> None" for p
    proof -
      have "p \<in> set (map fst (trie_entries ?t)) \<longleftrightarrow> (\<exists>u. (p, u) \<in> set (trie_entries ?t))"
        unfolding set_map image_iff Bex_def split_paired_Ex fst_conv by blast
      then show ?thesis unfolding set_entries [OF ok] mem_Collect_eq prod.case by blast
    qed
    have "[] \<notin> shown_paths files" by (simp add: shown_paths_def)
    then have "p \<in> set (map fst (trie_entries ?t)) \<longleftrightarrow> p \<in> shown_paths files" for p
      using build_trie_spec [of files p] unfolding at by (cases "p = []") blast+
    then show ?thesis by (intro set_eqI)
  qed
  have "sorted_list_of_set (set (map fst (trie_entries ?t))) = map fst (trie_entries ?t)"
    using sorted_entries [OF ok] by (metis sorted_list_of_set.idem_if_sorted_distinct strict_sorted_iff)
  then have list: "sorted_list_of_set (shown_paths files) = map fst (trie_entries ?t)" unfolding ents .
  have "u = file_shown files p" if "(p, u) \<in> set (trie_entries ?t)" for p u
    using that build_trie_spec [of files p] unfolding set_entries [OF ok] by (auto simp: summary_at_def)
  then have "list_all2 (\<lambda>line x. suffix (trie_label color (last (fst x)) (file_shown files (fst x))) line) (renderFileTree color files) (trie_entries ?t)"
    unfolding renderFileTree_def by (intro list.rel_mono_strong [OF render_entries]) auto
  then show ?thesis unfolding list list_all2_map2 .
qed

end
