(* ===== verification/Duration.thy ===== *)
theory Duration
  imports Tables
begin

text \<open>
  Durations as the command line reads and writes them: \<open>time.ParseDuration\<close> and \<open>Duration.String\<close> of the
  standard library, which settings pass through on their way from the bridge to the server it starts.
  A duration is an integer of nanoseconds; the parser's unsigned counters are natural numbers with its overflow
  checks, its floats are reals. Error texts do not quote their argument.
\<close>

section \<open>Printing\<close>

definition digit_char :: "nat \<Rightarrow> char" where "digit_char n = char_of (48 + n)"

fun fmtFrac_loop :: "nat \<Rightarrow> nat \<Rightarrow> bool \<Rightarrow> string \<Rightarrow> string \<times> nat" where
  \<comment> \<open>digits still to print, value, whether a digit was printed, buffer\<close>
  "fmtFrac_loop 0 v pr buf = (if pr then CHR ''.'' # buf else buf, v)"
| "fmtFrac_loop (Suc i) v pr buf =
     (let digit = v mod 10; pr = (pr \<or> digit \<noteq> 0)
      in fmtFrac_loop i (v div 10) pr (if pr then digit_char digit # buf else buf))"

definition micro_sign :: string where "micro_sign = [CHR 0xC2, CHR 0xB5]"

definition duration_abs :: "nat \<Rightarrow> string" where
  "duration_abs u =
     (if u = 0 then ''0s''
      else if u < 1000 then itoa_nat u @ ''ns''
      else if u < 1000000 then (case fmtFrac_loop 3 u False [] of (f, v) \<Rightarrow> itoa_nat v @ f @ micro_sign @ ''s'')
      else if u < 1000000000 then (case fmtFrac_loop 6 u False [] of (f, v) \<Rightarrow> itoa_nat v @ f @ ''ms'')
      else (case fmtFrac_loop 9 u False [] of
              (f, v) \<Rightarrow>
                (if 0 < v div 60
                 then (if 0 < v div 60 div 60 then itoa_nat (v div 60 div 60) @ ''h'' else [])
                      @ itoa_nat (v div 60 mod 60) @ ''m''
                 else []) @ itoa_nat (v mod 60) @ f @ ''s''))"

definition Duration_String :: "int \<Rightarrow> string" where
  "Duration_String d = (if d < 0 then CHR ''-'' # duration_abs (nat (- d)) else duration_abs (nat d))"

section \<open>Parsing\<close>

definition is_digit :: "char \<Rightarrow> bool" where
  "is_digit c \<longleftrightarrow> 48 \<le> (of_char c :: nat) \<and> (of_char c :: nat) \<le> 57"

definition digit_val :: "char \<Rightarrow> nat" where "digit_val c = of_char c - 48"

fun leadingInt :: "nat \<Rightarrow> string \<Rightarrow> (nat \<times> string) option" where
  "leadingInt x [] = Some (x, [])"
| "leadingInt x (c # s) =
     (if \<not> is_digit c then Some (x, c # s)
      else if 2 ^ 63 div 10 < x then None
      else let y = x * 10 + digit_val c in if 2 ^ 63 < y then None else leadingInt y s)"

fun leadingFraction :: "nat \<Rightarrow> nat \<Rightarrow> bool \<Rightarrow> string \<Rightarrow> nat \<times> nat \<times> string" where
  \<comment> \<open>value, scale, whether digits are dropped\<close>
  "leadingFraction x scale overflow [] = (x, scale, [])"
| "leadingFraction x scale overflow (c # s) =
     (if \<not> is_digit c then (x, scale, c # s)
      else if overflow then leadingFraction x scale True s
      else if (2 ^ 63 - 1) div 10 < x then leadingFraction x scale True s
      else let y = x * 10 + digit_val c
           in if 2 ^ 63 < y then leadingFraction x scale True s else leadingFraction y (scale * 10) False s)"

definition unitMap :: "string \<rightharpoonup> nat" where
  "unitMap = [''ns'' \<mapsto> 1, ''us'' \<mapsto> 1000, micro_sign @ ''s'' \<mapsto> 1000, [CHR 0xCE, CHR 0xBC] @ ''s'' \<mapsto> 1000,
     ''ms'' \<mapsto> 1000000, ''s'' \<mapsto> 1000000000, ''m'' \<mapsto> 60000000000, ''h'' \<mapsto> 3600000000000]"

definition unit_char :: "char \<Rightarrow> bool" where
  "unit_char c \<longleftrightarrow> \<not> (c = CHR ''.'' \<or> is_digit c)"

definition invalid_duration :: "string \<Rightarrow> error" where
  "invalid_duration orig = Driver (''time: invalid duration '' @ orig)"

text \<open>The body of the loop: one number with its unit; the value it adds and the rest.\<close>

definition duration_item :: "string \<Rightarrow> string \<Rightarrow> error + (nat \<times> string)" where
  "duration_item orig s =
     (if s = [] \<or> \<not> (hd s = CHR ''.'' \<or> is_digit (hd s)) then Inl (invalid_duration orig)
      else case leadingInt 0 s of
        None \<Rightarrow> Inl (invalid_duration orig)
      | Some (v, s1) \<Rightarrow>
          (let pre = (length s \<noteq> length s1);
               dot = (s1 \<noteq> [] \<and> hd s1 = CHR ''.'');
               (f, scale, s2) = (if dot then leadingFraction 0 1 False (tl s1) else (0, 1, s1));
               post = (dot \<and> length (tl s1) \<noteq> length s2)
           in if \<not> pre \<and> \<not> post then Inl (invalid_duration orig)
              else let u = takeWhile unit_char s2; s3 = dropWhile unit_char s2
              in if u = [] then Inl (Driver (''time: missing unit in duration '' @ orig))
                 else case unitMap u of
                        None \<Rightarrow> Inl (Driver (''time: unknown unit '' @ u @ '' in duration '' @ orig))
                      | Some unit \<Rightarrow>
                          if 2 ^ 63 div unit < v then Inl (invalid_duration orig)
                          else let v = v * unit;
                                   v = (if 0 < f then v + nat \<lfloor>real f * (real unit / real scale)\<rfloor> else v)
                               in if 2 ^ 63 < v then Inl (invalid_duration orig) else Inr (v, s3)))"

lemma leadingInt_length: "leadingInt x s = Some (v, t) \<Longrightarrow> length t \<le> length s"
  by (induction x s rule: leadingInt.induct) (auto simp: Let_def split: if_splits)

lemma leadingFraction_length: "leadingFraction x k b s = (v, m, t) \<Longrightarrow> length t \<le> length s"
  by (induction x k b s rule: leadingFraction.induct) (auto simp: Let_def split: if_splits)

lemma duration_item_shorter:
  assumes "duration_item orig s = Inr (v, t)"
  shows "length t < length s"
proof -
  from assms obtain x s1 where l: "leadingInt 0 s = Some (x, s1)"
    by (auto simp: duration_item_def split: if_splits option.splits)
  define q where "q = (if s1 \<noteq> [] \<and> hd s1 = CHR ''.'' then leadingFraction 0 1 False (tl s1) else (0, 1, s1))"
  obtain f k s2 where q2: "q = (f, k, s2)" by (cases q)
  have s2: "length s2 \<le> length s1"
    using q2 leadingFraction_length [of 0 1 False "tl s1" f k s2] by (auto simp: q_def split: if_splits)
  have t: "t = dropWhile unit_char s2" "takeWhile unit_char s2 \<noteq> []"
    using assms l q2 unfolding duration_item_def q_def [symmetric]
    by (auto simp: Let_def q_def [symmetric] split: if_splits option.splits)
  then have "length t < length s2" by (cases s2) (auto simp: length_dropWhile_le le_imp_less_Suc split: if_splits)
  with s2 leadingInt_length [OF l] show ?thesis by linarith
qed

function duration_loop :: "string \<Rightarrow> nat \<Rightarrow> string \<Rightarrow> error + nat" where
  "duration_loop orig d s =
     (if s = [] then Inr d
      else case duration_item orig s of
             Inl e \<Rightarrow> Inl e
           | Inr (v, t) \<Rightarrow> if 2 ^ 63 < d + v then Inl (invalid_duration orig) else duration_loop orig (d + v) t)"
  by pat_completeness auto
termination by (relation "measure (\<lambda>(orig, d, s). length s)") (auto dest: duration_item_shorter)

declare duration_loop.simps [simp del]

definition ParseDuration :: "string \<Rightarrow> error + int" where
  "ParseDuration orig =
     (let neg = (orig \<noteq> [] \<and> hd orig = CHR ''-'');
          s = (if orig \<noteq> [] \<and> (hd orig = CHR ''-'' \<or> hd orig = CHR ''+'') then tl orig else orig)
      in if s = ''0'' then Inr 0
         else if s = [] then Inl (invalid_duration orig)
         else bindR (duration_loop orig 0 s) (\<lambda>d.
           if neg then Inr (- int d)
           else if 2 ^ 63 - 1 < d then Inl (invalid_duration orig) else Inr (int d)))"


section \<open>Reading digits\<close>

definition digits_val :: "nat \<Rightarrow> string \<Rightarrow> nat" where
  "digits_val x ds = foldl (\<lambda>x c. x * 10 + digit_val c) x ds"

lemma digits_val_simps [simp]: "digits_val x [] = x" "digits_val x (c # ds) = digits_val (x * 10 + digit_val c) ds"
  "digits_val x (ds @ es) = digits_val (digits_val x ds) es"
  by (simp_all add: digits_val_def)

lemma digits_val_ge: "x \<le> digits_val x ds"
proof (induction ds arbitrary: x)
  case (Cons c ds)
  from Cons [of "x * 10 + digit_val c"] show ?case by simp
qed simp

lemma digit_char [simp]: "n < 10 \<Longrightarrow> is_digit (digit_char n)" "n < 10 \<Longrightarrow> digit_val (digit_char n) = n"
  by (simp_all add: is_digit_def digit_val_def digit_char_def)

lemma itoa_nat_val: "list_all is_digit (itoa_nat n) \<and> digits_val 0 (itoa_nat n) = n"
proof (induction n rule: itoa_nat.induct)
  case (1 n)
  show ?case
  proof (cases "n < 10")
    case True
    then show ?thesis using digit_char [of n] by (simp add: itoa_nat.simps [of n] digit_char_def)
  next
    case False
    with 1 show ?thesis using digit_char [of "n mod 10"] by (simp add: itoa_nat.simps [of n] digit_char_def)
  qed
qed

definition no_digit :: "string \<Rightarrow> bool" where
  "no_digit s \<longleftrightarrow> s = [] \<or> \<not> is_digit (hd s)"

lemma leadingInt_stop: "no_digit s \<Longrightarrow> leadingInt x s = Some (x, s)"
  by (cases s) (auto simp: no_digit_def)

lemma leadingInt_digits:
  "list_all is_digit ds \<Longrightarrow> no_digit rest \<Longrightarrow> digits_val x ds \<le> 2 ^ 63 \<Longrightarrow> leadingInt x (ds @ rest) = Some (digits_val x ds, rest)"
proof (induction ds arbitrary: x)
  case (Cons c ds)
  let ?y = "x * 10 + digit_val c"
  have y: "?y \<le> 2 ^ 63" using Cons.prems(3) digits_val_ge [of ?y ds] by simp
  then have "\<not> 2 ^ 63 div 10 < x" by simp
  with y Cons show ?case by simp
qed (simp add: leadingInt_stop)

lemma leadingFraction_stop: "no_digit s \<Longrightarrow> leadingFraction x k b s = (x, k, s)"
  by (cases s) (auto simp: no_digit_def)

lemma leadingFraction_digits:
  "list_all is_digit ds \<Longrightarrow> no_digit rest \<Longrightarrow> digits_val x ds < 2 ^ 59 \<Longrightarrow>
    leadingFraction x k False (ds @ rest) = (digits_val x ds, k * 10 ^ length ds, rest)"
proof (induction ds arbitrary: x k)
  case (Cons c ds)
  let ?y = "x * 10 + digit_val c"
  have y: "?y < 2 ^ 59" using Cons.prems(3) digits_val_ge [of ?y ds] by simp
  then have "\<not> (2 ^ 63 - 1) div 10 < x" "\<not> 2 ^ 63 < ?y" by simp_all
  with Cons show ?case by (simp add: mult.assoc)
qed (simp add: leadingFraction_stop)

section \<open>Fractions\<close>

lemma fmtFrac_printing:
  "\<exists>ds. fmtFrac_loop i v True buf = (CHR ''.'' # ds @ buf, v div 10 ^ i) \<and> list_all is_digit ds
    \<and> length ds = i \<and> digits_val 0 ds = v mod 10 ^ i"
proof (induction i arbitrary: v buf)
  case (Suc i)
  obtain ds where ds: "fmtFrac_loop i (v div 10) True (digit_char (v mod 10) # buf) = (CHR ''.'' # ds @ digit_char (v mod 10) # buf, v div 10 div 10 ^ i)"
    "list_all is_digit ds" "length ds = i" "digits_val 0 ds = v div 10 mod 10 ^ i" using Suc by blast
  have "v div 10 mod 10 ^ i * 10 + v mod 10 = v mod 10 ^ Suc i" by (simp add: mod_mult2_eq)
  with ds show ?case
    by (intro exI [of _ "ds @ [digit_char (v mod 10)]"]) (simp add: Let_def div_mult2_eq)
qed simp

definition frac_text :: "nat \<Rightarrow> nat \<Rightarrow> string \<Rightarrow> bool" where
  \<comment> \<open>\<open>f\<close> reads as the \<open>prec\<close> last digits of \<open>v\<close>\<close>
  "frac_text prec v f \<longleftrightarrow>
     (if v mod 10 ^ prec = 0 then f = []
      else \<exists>ds. f = CHR ''.'' # ds \<and> list_all is_digit ds \<and> ds \<noteq> [] \<and> length ds \<le> prec
             \<and> digits_val 0 ds * 10 ^ (prec - length ds) = v mod 10 ^ prec)"

lemma fmtFrac_text: "\<exists>f. fmtFrac_loop prec v False [] = (f, v div 10 ^ prec) \<and> frac_text prec v f"
proof (induction prec arbitrary: v)
  case (Suc i)
  have eq: "v mod 10 ^ Suc i = v div 10 mod 10 ^ i * 10 + v mod 10" by (simp add: mod_mult2_eq)
  show ?case
  proof (cases "v mod 10 = 0")
    case True
    obtain f where f: "fmtFrac_loop i (v div 10) False [] = (f, v div 10 div 10 ^ i)" "frac_text i (v div 10) f" using Suc by blast
    have "frac_text (Suc i) v f"
      using f(2) True by (auto simp: frac_text_def eq Suc_diff_le split: if_splits)
    with f(1) True show ?thesis by (intro exI [of _ f]) (simp add: Let_def div_mult2_eq)
  next
    case False
    obtain ds where ds: "fmtFrac_loop i (v div 10) True [digit_char (v mod 10)] = (CHR ''.'' # ds @ [digit_char (v mod 10)], v div 10 div 10 ^ i)"
      "list_all is_digit ds" "length ds = i" "digits_val 0 ds = v div 10 mod 10 ^ i" using fmtFrac_printing by blast
    have "frac_text (Suc i) v (CHR ''.'' # ds @ [digit_char (v mod 10)])"
      using ds False eq by (simp add: frac_text_def)
    with ds(1) False show ?thesis by (intro exI) (simp add: Let_def div_mult2_eq)
  qed
qed (simp add: frac_text_def)

section \<open>What is printed reads back\<close>

definition unit_text :: "string \<Rightarrow> nat \<Rightarrow> bool" where
  "unit_text u k \<longleftrightarrow> unitMap u = Some k \<and> u \<noteq> [] \<and> list_all unit_char u"

definition item_rest :: "string \<Rightarrow> bool" where
  "item_rest s \<longleftrightarrow> s = [] \<or> is_digit (hd s)"

lemma unit_split:
  "list_all unit_char u \<Longrightarrow> item_rest rest \<Longrightarrow> takeWhile unit_char (u @ rest) = u \<and> dropWhile unit_char (u @ rest) = rest"
proof -
  assume u: "list_all unit_char u" and rest: "item_rest rest"
  have "takeWhile unit_char rest = [] \<and> dropWhile unit_char rest = rest"
    using rest by (cases rest) (auto simp: item_rest_def unit_char_def)
  with u show ?thesis by (simp add: list_all_iff takeWhile_append2 dropWhile_append2)
qed

lemma unit_no_digit: "unit_text u k \<Longrightarrow> no_digit (u @ s) \<and> hd (u @ s) \<noteq> CHR ''.''"
  by (cases u) (auto simp: unit_text_def no_digit_def unit_char_def)

lemma item_reads:
  assumes u: "unit_text u (10 ^ prec)" and f: "frac_text prec v f" and v: "v < 2 ^ 63" and prec: "prec \<le> 9" and rest: "item_rest rest"
  shows "duration_item orig (itoa_nat (v div 10 ^ prec) @ f @ u @ rest) = Inr (v, rest)"
proof -
  let ?n = "v div 10 ^ prec"
  note n = itoa_nat_val [of ?n]
  have nd: "no_digit (f @ u @ rest)"
    using unit_no_digit [OF u, of rest] f by (auto simp: frac_text_def no_digit_def is_digit_def split: if_splits)
  have le: "?n \<le> v" "v div 10 ^ prec * 10 ^ prec + v mod 10 ^ prec = v" by (rule div_le_dividend, rule div_mult_mod_eq)
  have int: "leadingInt 0 (itoa_nat ?n @ f @ u @ rest) = Some (?n, f @ u @ rest)"
  proof -
    have "digits_val 0 (itoa_nat ?n) \<le> 2 ^ 63" using n le(1) v by (metis le_trans less_imp_le)
    from leadingInt_digits [OF conjunct1 [OF n] nd this] n show ?thesis by simp
  qed
  have start: "itoa_nat ?n \<noteq> []" "is_digit (hd (itoa_nat ?n @ f @ u @ rest))"
    using n by (cases "itoa_nat ?n"; simp)+
  have unit: "takeWhile unit_char (u @ rest) = u" "dropWhile unit_char (u @ rest) = rest" "u \<noteq> []" "unitMap u = Some (10 ^ prec)"
    using u unit_split [of u rest] rest by (simp_all add: unit_text_def)
  have room: "\<not> 2 ^ 63 div 10 ^ prec < ?n" using v by (simp add: div_le_mono not_less)
  show ?thesis
  proof (cases "v mod 10 ^ prec = 0")
    case True
    with f have "f = []" by (simp add: frac_text_def)
    with int start unit room unit_no_digit [OF u, of rest] True le v show ?thesis by (simp add: duration_item_def Let_def)
  next
    case False
    with f obtain ds where ds: "f = CHR ''.'' # ds" "list_all is_digit ds" "ds \<noteq> []" "length ds \<le> prec"
      "digits_val 0 ds * 10 ^ (prec - length ds) = v mod 10 ^ prec" by (auto simp: frac_text_def)
    have "digits_val 0 ds \<le> v mod 10 ^ prec" unfolding ds(5) [symmetric] by simp
    also have "\<dots> < 10 ^ prec" by simp
    also have "\<dots> \<le> (10 :: nat) ^ 9" using prec by (intro power_increasing) auto
    finally have "digits_val 0 ds < 2 ^ 59" by simp
    from leadingFraction_digits [OF ds(2) _ this, of "u @ rest" 1] unit_no_digit [OF u, of rest]
    have frac: "leadingFraction 0 1 False (ds @ u @ rest) = (digits_val 0 ds, 10 ^ length ds, u @ rest)" by simp
    have pos: "0 < digits_val 0 ds" using ds(5) False by (cases "digits_val 0 ds") auto
    have "real (digits_val 0 ds) * (10 ^ prec / 10 ^ length ds) = real (digits_val 0 ds * 10 ^ (prec - length ds))"
    proof -
      have "(10 :: real) ^ prec / 10 ^ length ds = 10 ^ (prec - length ds)" using ds(4) by (simp add: power_diff)
      then show ?thesis by (simp only: of_nat_mult of_nat_power of_nat_numeral)
    qed
    also have "\<dots> = real (v mod 10 ^ prec)" unfolding ds(5) ..
    finally have "nat \<lfloor>real (digits_val 0 ds) * (10 ^ prec / 10 ^ length ds)\<rfloor> = v mod 10 ^ prec" by simp
    with int start unit room frac pos le v ds(1,3) show ?thesis by (simp add: duration_item_def Let_def)
  qed
qed


lemma loop_step:
  "duration_item orig s = Inr (v, t) \<Longrightarrow> s \<noteq> [] \<Longrightarrow> d + v \<le> 2 ^ 63 \<Longrightarrow> duration_loop orig d s = duration_loop orig (d + v) t"
  by (subst duration_loop.simps) simp

lemma item_rest_itoa: "item_rest (itoa_nat n @ s)"
  using itoa_nat_val [of n] by (cases "itoa_nat n") (auto simp: item_rest_def)

lemma units:
  "unit_text ''ns'' (10 ^ 0)" "unit_text (micro_sign @ ''s'') (10 ^ 3)" "unit_text ''ms'' (10 ^ 6)" "unit_text ''s'' (10 ^ 9)"
  by (simp_all add: unit_text_def unitMap_def micro_sign_def unit_char_def is_digit_def)

lemma item_whole:
  assumes "unitMap [c] = Some k" "unit_char c" "item_rest rest" "0 < k" "v * k < 2 ^ 63"
  shows "duration_item orig (itoa_nat v @ c # rest) = Inr (v * k, rest)"
proof -
  note n = itoa_nat_val [of v]
  have nd: "no_digit (c # rest)" using assms(2) by (simp add: no_digit_def unit_char_def)
  have le: "v \<le> v * k" using assms(4) by simp
  then have "digits_val 0 (itoa_nat v) \<le> 2 ^ 63" using n assms(5) by linarith
  from leadingInt_digits [OF conjunct1 [OF n] nd this] n have int: "leadingInt 0 (itoa_nat v @ c # rest) = Some (v, c # rest)" by simp
  have start: "itoa_nat v \<noteq> []" "is_digit (hd (itoa_nat v @ c # rest))" using n by (cases "itoa_nat v"; simp)+
  have unit: "takeWhile unit_char (c # rest) = [c]" "dropWhile unit_char (c # rest) = rest"
    using unit_split [of "[c]" rest] assms(2,3) by simp_all
  have "v * k div k \<le> 2 ^ 63 div k" using assms(5) by (intro div_le_mono) simp
  then have room: "\<not> 2 ^ 63 div k < v" using assms(4) by simp
  have "c \<noteq> CHR ''.''" using assms(2) by (simp add: unit_char_def)
  with int start unit room assms(1,5) show ?thesis by (simp add: duration_item_def Let_def)
qed

lemma sixty: "a * 60 + b = v \<Longrightarrow> v * 10 ^ 9 + r = u \<Longrightarrow> a * 60000000000 + (b * 10 ^ 9 + r) = (u :: nat)"
  by simp

lemma hours: "a * 60 + b = q \<Longrightarrow> a * 3600000000000 + b * 60000000000 = q * (60000000000 :: nat)"
  by simp

lemma sum_bound: "a + b < n \<Longrightarrow> b < n" "a + b < n \<Longrightarrow> a < (n :: nat)"
  by simp_all

lemma duration_abs_reads:
  assumes "0 < u" "u < 2 ^ 63"
  shows "duration_loop orig 0 (duration_abs u) = Inr u"
proof -
  have finish: "duration_loop orig d s = Inr (d + v)" if "duration_item orig s = Inr (v, [])" "s \<noteq> []" "d + v \<le> 2 ^ 63" for d s v
    using loop_step [OF that(1,2,3)] by (simp add: duration_loop.simps [of orig "d + v"])
  have single: "duration_loop orig 0 (itoa_nat (u div 10 ^ prec) @ f @ x) = Inr u"
    if "unit_text x (10 ^ prec)" "frac_text prec u f" "prec \<le> 9" for prec f x
    using finish [OF item_reads [OF that(1,2) assms(2) that(3), of "[]", simplified], of 0] assms by (simp add: item_rest_def)
  consider (ns) "u < 1000" | (us) "1000 \<le> u" "u < 1000000" | (ms) "1000000 \<le> u" "u < 1000000000" | (s) "1000000000 \<le> u" by linarith
  then show ?thesis
  proof cases
    case ns
    with single [OF units(1), of "[]"] assms show ?thesis by (simp add: duration_abs_def frac_text_def)
  next
    case us
    obtain f where f: "fmtFrac_loop 3 u False [] = (f, u div 10 ^ 3)" "frac_text 3 u f" using fmtFrac_text by blast
    with single [OF units(2) f(2)] us assms show ?thesis by (simp add: duration_abs_def)
  next
    case ms
    obtain f where f: "fmtFrac_loop 6 u False [] = (f, u div 10 ^ 6)" "frac_text 6 u f" using fmtFrac_text by blast
    with single [OF units(3) f(2)] ms assms show ?thesis by (simp add: duration_abs_def)
  next
    case s
    obtain f where f: "fmtFrac_loop 9 u False [] = (f, u div 10 ^ 9)" "frac_text 9 u f" using fmtFrac_text by blast
    let ?v = "u div 10 ^ 9"
    let ?sec = "itoa_nat (?v mod 60) @ f @ ''s''" and ?w = "?v mod 60 * 10 ^ 9 + u mod 10 ^ 9"
    have w: "?w div 10 ^ 9 = ?v mod 60" "?w mod 10 ^ 9 = u mod 10 ^ 9" by simp_all
    have parts: "?v div 60 * 60000000000 + ?w = u" by (rule sixty [OF div_mult_mod_eq div_mult_mod_eq])
    then have wle: "?w < 2 ^ 63" "?v div 60 * 60000000000 < 2 ^ 63" using assms(2) by linarith+
    have "frac_text 9 ?w f" using f(2) unfolding frac_text_def w(2) .
    from item_reads [OF units(4) this wle(1), of "[]"] w(1) have sec: "duration_item orig ?sec = Inr (?w, [])"
      by (simp add: item_rest_def)
    show ?thesis
    proof (cases "?v div 60 = 0")
      case True
      then have "duration_abs u = ?sec" "?w = u" using s f(1) parts by (simp_all add: duration_abs_def)
      with finish [OF sec, of 0] assms(2) show ?thesis by simp
    next
      case False
      let ?m = "?v div 60 mod 60" and ?h = "?v div 60 div 60"
      have um: "unitMap ''m'' = Some 60000000000" "unit_char (CHR ''m'')" "unitMap ''h'' = Some 3600000000000" "unit_char (CHR ''h'')"
        by (simp_all add: unitMap_def unit_char_def is_digit_def micro_sign_def)
      have hm: "?h * 3600000000000 + ?m * 60000000000 = ?v div 60 * 60000000000" by (rule hours [OF div_mult_mod_eq])
      have bounds: "?m * 60000000000 < 2 ^ 63" "?h * 3600000000000 < 2 ^ 63"
        by (rule sum_bound [OF wle(2) [folded hm]])+
      have min: "duration_item orig (itoa_nat ?m @ CHR ''m'' # ?sec) = Inr (?m * 60000000000, ?sec)"
        by (rule item_whole [OF um(1,2) item_rest_itoa _ bounds(1)]) simp
      have rest: "duration_loop orig d (itoa_nat ?m @ CHR ''m'' # ?sec) = Inr (d + ?m * 60000000000 + ?w)"
        if "d + ?m * 60000000000 + ?w \<le> 2 ^ 63" for d
        using loop_step [OF min, of d] finish [OF sec, of "d + ?m * 60000000000"] that by simp
      show ?thesis
      proof (cases "?h = 0")
        case True
        then have abs: "duration_abs u = itoa_nat ?m @ CHR ''m'' # ?sec" using s f(1) False by (simp add: duration_abs_def)
        have sum: "0 + ?m * 60000000000 + ?w = u"
        proof -
          from hm have e: "?m * 60000000000 = ?v div 60 * 60000000000" unfolding True by simp
          show ?thesis unfolding e add_0 by (rule parts)
        qed
        with assms(2) have "0 + ?m * 60000000000 + ?w \<le> 2 ^ 63" by linarith
        from rest [OF this] show ?thesis unfolding abs sum .
      next
        case h: False
        have abs: "duration_abs u = itoa_nat ?h @ CHR ''h'' # itoa_nat ?m @ CHR ''m'' # ?sec"
          using s f(1) False h by (simp add: duration_abs_def)
        have hour: "duration_item orig (itoa_nat ?h @ CHR ''h'' # itoa_nat ?m @ CHR ''m'' # ?sec)
            = Inr (?h * 3600000000000, itoa_nat ?m @ CHR ''m'' # ?sec)"
          by (rule item_whole [OF um(3,4) item_rest_itoa _ bounds(2)]) simp
        have sum: "?h * 3600000000000 + ?m * 60000000000 + ?w = u" unfolding hm by (rule parts)
        show ?thesis unfolding abs
          using loop_step [OF hour, of 0] rest [of "?h * 3600000000000"] bounds(2) sum assms(2) by simp
      qed
    qed
  qed
qed

lemma hd_itoa: "is_digit (hd (itoa_nat n @ s))"
  using itoa_nat_val [of n] by (cases "itoa_nat n") simp_all

lemma duration_abs_start: "duration_abs u \<noteq> [] \<and> is_digit (hd (duration_abs u))"
  using hd_itoa by (auto simp: duration_abs_def is_digit_def split: prod.splits)

text \<open>Every duration from one nanosecond to the largest reads back from what it prints.\<close>

lemma ParseDuration_String:
  assumes "0 < d" "d < 2 ^ 63"
  shows "ParseDuration (Duration_String d) = Inr d"
proof -
  let ?s = "duration_abs (nat d)"
  have u: "0 < nat d" "nat d < 2 ^ 63" using assms by auto
  have loop: "duration_loop orig 0 ?s = Inr (nat d)" for orig by (rule duration_abs_reads [OF u])
  have "?s \<noteq> ''0''"
  proof
    assume "?s = ''0''"
    then have "duration_loop [] 0 ''0'' = Inr (nat d)" using loop [of "[]"] by simp
    then show False by (simp add: duration_loop.simps [of _ _ "''0''"] duration_item_def is_digit_def digit_val_def)
  qed
  moreover have "hd ?s \<noteq> CHR ''-''" "hd ?s \<noteq> CHR ''+''" using duration_abs_start [of "nat d"] by (auto simp: is_digit_def)
  ultimately show ?thesis
    using loop u assms duration_abs_start [of "nat d"] by (simp add: ParseDuration_def Duration_String_def Let_def)
qed

end
