(* ===== verification/Cli.thy ===== *)
theory Cli
  imports Duration Server
begin

text \<open>
  The command line (cmd/remindb): how a command finds its database, what \<open>serve\<close> and \<open>bridge\<close> take from flags and
  environment, the arguments with which a bridge starts the server, how it waits for it, and the
  \<open>compile\<close> command.

  A command line is the map of the flags that were given: \<open>cmd.Flags().Changed(n)\<close> is \<open>n \<in> dom f\<close>. The package's variables are
  records, returned updated. The environment is \<open>os.Getenv\<close>, which is empty where nothing is set. Splitting
  arguments into flags is cobra's work and a parameter. Error texts do not quote the value they show.
\<close>

section \<open>The database path\<close>

definition absolutizeDBPath :: "error + string \<Rightarrow> string \<Rightarrow> error + string" where
  "absolutizeDBPath cwd dbPath = wrap_error (''failed to resolve: '' @ dbPath) (filepath_Abs cwd dbPath)"

text \<open>\<open>filepath.Base\<close>.\<close>

definition filepath_Base :: "string \<Rightarrow> string" where
  "filepath_Base path =
     (if path = [] then ''.''
      else let b = rev (takeWhile (\<lambda>c. c \<noteq> CHR ''/'') (dropWhile (\<lambda>c. c = CHR ''/'') (rev path)))
           in if b = [] then ''/'' else b)"

text \<open>What \<open>os.Stat\<close> returns: an error, which may be \<open>os.ErrNotExist\<close>, or whether the path is a directory.\<close>

datatype stat_result = StatNotExist error | StatFailed error | StatInfo bool

definition deriveDefaultDBPath :: "error + string \<Rightarrow> (string \<Rightarrow> stat_result) \<Rightarrow> (string \<rightharpoonup> string) \<Rightarrow> string \<Rightarrow> string \<Rightarrow> error + string" where
  "deriveDefaultDBPath cwd stat f dir dbPath =
     (if ''db'' \<in> dom f \<or> dir = [] then Inr dbPath
      else bindR (wrap_error (''failed to resolve: '' @ dir) (filepath_Abs cwd dir)) (\<lambda>absDir.
        if stat absDir \<noteq> StatInfo True then Inr dbPath
        else absolutizeDBPath cwd (filepath_Base absDir @ ''.db'')))"

text \<open>The check before the database is opened.\<close>

definition preflightDBPath :: "(string \<Rightarrow> stat_result) \<Rightarrow> string \<Rightarrow> error option" where
  "preflightDBPath stat path =
     (let dir = Dir path
      in if dir = [] \<or> dir = ''.'' then None
         else (case stat dir of
                 StatNotExist e \<Rightarrow> Some (Driver (''parent directory does not exist: '' @ dir))
               | StatFailed e \<Rightarrow> Some (Errorf ''failed to stat'' e)
               | StatInfo isDir \<Rightarrow> if isDir then None else Some (Driver (''parent path is not a directory: '' @ dir))))"

section \<open>Flags and environment\<close>

type_synonym flags = "string \<rightharpoonup> string"

definition string_flag :: "flags \<Rightarrow> string \<Rightarrow> string \<Rightarrow> string" where
  "string_flag f name dflt = (case f name of None \<Rightarrow> dflt | Some v \<Rightarrow> v)"

definition duration_flag :: "flags \<Rightarrow> string \<Rightarrow> int \<Rightarrow> error + int" where
  "duration_flag f name dflt = (case f name of None \<Rightarrow> Inr dflt | Some v \<Rightarrow> ParseDuration v)"

record serve_vars =
  svDbPath :: string
  svSourceDir :: string
  svRescanInterval :: int
  svListenAddr :: string
  svLogFile :: string

record bridge_vars =
  brDbPath :: string
  brAddr :: string
  brSourceDir :: string
  brRescanInterval :: int
  brStartupTimeout :: int

definition serve_flags :: "flags \<Rightarrow> error + serve_vars" where
  "serve_flags f =
     bindR (duration_flag f ''rescan-interval'' 0) (\<lambda>rescan.
       Inr \<lparr>svDbPath = string_flag f ''db'' ''memory.db'', svSourceDir = string_flag f ''source'' [], svRescanInterval = rescan,
            svListenAddr = string_flag f ''listen'' [], svLogFile = string_flag f ''log-file'' []\<rparr>)"

definition defaultBridgeAddr :: string where "defaultBridgeAddr = ''127.0.0.1:39291''"

definition bridge_flags :: "flags \<Rightarrow> error + bridge_vars" where
  "bridge_flags f =
     bindR (duration_flag f ''rescan-interval'' 0) (\<lambda>rescan.
     bindR (duration_flag f ''startup-timeout'' 10000000000) (\<lambda>timeout.
       Inr \<lparr>brDbPath = string_flag f ''db'' ''memory.db'', brAddr = string_flag f ''addr'' defaultBridgeAddr,
            brSourceDir = string_flag f ''source'' [], brRescanInterval = rescan, brStartupTimeout = timeout\<rparr>))"

text \<open>The two fallbacks that both commands have.\<close>

definition env_db :: "error + string \<Rightarrow> (string \<Rightarrow> string) \<Rightarrow> flags \<Rightarrow> string \<Rightarrow> error + string" where
  "env_db cwd env f dbPath =
     (if ''db'' \<notin> dom f \<and> env ''REMINDB_DB'' \<noteq> [] then absolutizeDBPath cwd (env ''REMINDB_DB'') else Inr dbPath)"

definition env_rescan :: "(string \<Rightarrow> string) \<Rightarrow> flags \<Rightarrow> int \<Rightarrow> error + int" where
  "env_rescan env f rescan =
     (if ''rescan-interval'' \<notin> dom f \<and> env ''REMINDB_RESCAN_INTERVAL'' \<noteq> []
      then wrap_error (''failed to parse: REMINDB_RESCAN_INTERVAL='' @ env ''REMINDB_RESCAN_INTERVAL'')
             (ParseDuration (env ''REMINDB_RESCAN_INTERVAL''))
      else Inr rescan)"

definition applyServeEnv :: "error + string \<Rightarrow> (string \<Rightarrow> string) \<Rightarrow> flags \<Rightarrow> serve_vars \<Rightarrow> error + serve_vars" where
  "applyServeEnv cwd env f v =
     bindR (env_db cwd env f (svDbPath v)) (\<lambda>db.
     bindR (env_rescan env f (svRescanInterval v)) (\<lambda>rescan.
       Inr (v\<lparr>svDbPath := db, svSourceDir := (if svSourceDir v = [] then env ''REMINDB_SOURCE'' else svSourceDir v),
              svRescanInterval := rescan\<rparr>)))"

definition applyBridgeEnv :: "error + string \<Rightarrow> (string \<Rightarrow> string) \<Rightarrow> flags \<Rightarrow> bridge_vars \<Rightarrow> error + bridge_vars" where
  "applyBridgeEnv cwd env f v =
     bindR (env_db cwd env f (brDbPath v)) (\<lambda>db.
     bindR (env_rescan env f (brRescanInterval v)) (\<lambda>rescan.
       Inr (v\<lparr>brDbPath := db,
              brAddr := (if ''addr'' \<notin> dom f \<and> env ''REMINDB_BRIDGE_ADDR'' \<noteq> [] then env ''REMINDB_BRIDGE_ADDR'' else brAddr v),
              brSourceDir := (if brSourceDir v = [] then env ''REMINDB_SOURCE'' else brSourceDir v),
              brRescanInterval := rescan\<rparr>)))"

text \<open>The settings of a command when its work begins: flags, then the root command's hook, then the environment.\<close>

definition serve_settings :: "error + string \<Rightarrow> (string \<Rightarrow> string) \<Rightarrow> flags \<Rightarrow> error + serve_vars" where
  "serve_settings cwd env f =
     bindR (serve_flags f) (\<lambda>v.
     bindR (absolutizeDBPath cwd (svDbPath v)) (\<lambda>db. applyServeEnv cwd env f (v\<lparr>svDbPath := db\<rparr>)))"

definition bridge_settings :: "error + string \<Rightarrow> (string \<Rightarrow> string) \<Rightarrow> flags \<Rightarrow> error + bridge_vars" where
  "bridge_settings cwd env f =
     bindR (bridge_flags f) (\<lambda>v.
     bindR (absolutizeDBPath cwd (brDbPath v)) (\<lambda>db. applyBridgeEnv cwd env f (v\<lparr>brDbPath := db\<rparr>)))"

section \<open>The bridge and its server\<close>

definition daemon_args :: "bridge_vars \<Rightarrow> string list" where
  "daemon_args v =
     [''serve'', ''--listen'', brAddr v, ''--db'', brDbPath v]
       @ (if brSourceDir v \<noteq> [] then [''--source'', brSourceDir v] else [])
       @ (if 0 < brRescanInterval v then [''--rescan-interval'', Duration_String (brRescanInterval v)] else [])"

text \<open>Waiting for the server: each element is the clock before a trial and the trial's outcome. None is returned where the
  trials end before the waiting does.\<close>

fun bridge_wait :: "string \<Rightarrow> int \<Rightarrow> int \<Rightarrow> error option \<Rightarrow> (int \<times> (error + 'c)) list \<Rightarrow> (error + 'c) option" where
  "bridge_wait addr timeout deadline lastErr [] = None"
| "bridge_wait addr timeout deadline lastErr ((now, dial) # trials) =
     (if now < deadline then
        (case dial of
           Inr conn \<Rightarrow> Some (Inr conn)
         | Inl e \<Rightarrow> bridge_wait addr timeout deadline (Some e) trials)
      else Some (Inl (Errorf (''failed to connect to remindb singleton at '' @ addr @ '' after '' @ Duration_String timeout)
                        (case lastErr of None \<Rightarrow> Driver ''%!w(<nil>)'' | Some e \<Rightarrow> e))))"

definition connectOrStartBridgeDaemon :: "string \<Rightarrow> int \<Rightarrow> error + 'c \<Rightarrow> error option \<Rightarrow> int \<Rightarrow> (int \<times> (error + 'c)) list
    \<Rightarrow> (error + 'c) option" where
  \<comment> \<open>the first dial, the outcome of the start, the clock after it, and the trials\<close>
  "connectOrStartBridgeDaemon addr timeout first startErr now trials =
     (case first of
        Inr conn \<Rightarrow> Some (Inr conn)
      | Inl e \<Rightarrow>
          (case startErr of
             Some e' \<Rightarrow> Some (Inl e')
           | None \<Rightarrow> bridge_wait addr timeout (now + timeout) None trials))"

definition copyStdinToConn :: "string \<Rightarrow> string" where
  \<comment> \<open>what is copied of a complete input\<close>
  "copyStdinToConn src = (if take 3 src = [CHR 0xEF, CHR 0xBB, CHR 0xBF] then drop 3 src else src)"

text \<open>The error with which a copy between the two streams ended; what is compared are the values, not what they wrap.\<close>

datatype copy_error = EOF | ErrClosed | OtherErr error

definition normalizeCopyErr :: "copy_error option \<Rightarrow> copy_error option" where
  "normalizeCopyErr err = (if err = None \<or> err = Some EOF \<or> err = Some ErrClosed then None else err)"

datatype copy_done = StdinDone "copy_error option" | StdoutDone "copy_error option"

fun bridgeStdio :: "copy_done \<Rightarrow> copy_error option \<Rightarrow> copy_error option" where
  \<comment> \<open>the copy that ended first, and how the copy to the standard output ends when it is the other\<close>
  "bridgeStdio (StdoutDone err) out = normalizeCopyErr err"
| "bridgeStdio (StdinDone err) out =
     (case normalizeCopyErr err of Some e \<Rightarrow> Some e | None \<Rightarrow> normalizeCopyErr out)"

section \<open>The compile command\<close>

text \<open>\<open>sqlOpen\<close> and \<open>migrate\<close> are the database driver and the migrations; the result is what is printed, or the error, with the
  path of the database that was opened and its content at the end.\<close>

definition store_Open :: "(string \<Rightarrow> stat_result) \<Rightarrow> (string \<Rightarrow> error + db) \<Rightarrow> string \<Rightarrow> error + db" where
  "store_Open stat sqlOpen path =
     (if path = '':memory:'' then sqlOpen path
      else (case preflightDBPath stat path of Some e \<Rightarrow> Inl e | None \<Rightarrow> sqlOpen path))"

text \<open>From the opened database on.\<close>

definition compile_opened :: "libraries \<Rightarrow> surroundings \<Rightarrow> (string \<Rightarrow> stat_result) \<Rightarrow> flags \<Rightarrow> bool \<Rightarrow> string \<Rightarrow> db \<Rightarrow> (error + string) \<times> db" where
  "compile_opened l w stat f reseed path d =
     (let msg = (if string_flag f ''message'' [] = [] then ''compile:'' @ path else string_flag f ''message'' [])
      in case stat path of
           StatNotExist e \<Rightarrow> (Inl (Errorf ''failed to stat'' e), d)
         | StatFailed e \<Rightarrow> (Inl (Errorf ''failed to stat'' e), d)
         | StatInfo isDir \<Rightarrow>
             (case (if isDir
                    then CompileDir (li_hash l) (su_tx w) (su_ctxErr w) (su_now w) (su_fs w) (li_unmarshal l)
                           (ParseBytes (li_decoders l)) path msg \<lparr>doIgnore = None, doReseed = reseed\<rparr> d
                    else CompileFile (li_hash l) (su_tx w) (su_ctxErr w) (su_now w) (su_fs w)
                           (ParseBytes (li_decoders l)) path msg Map.empty False d) of
                (Inl e, d') \<Rightarrow> (Inl (Errorf (''failed to compile: '' @ path) e), d')
              | (Inr r, d') \<Rightarrow>
                  (Inr (''compiled: '' @ itoa_nat (Added r) @ '' added, '' @ itoa_nat (Modified r) @ '' modified, ''
                     @ itoa_nat (Removed' r) @ '' removed ('' @ itoa_nat (Total r) @ '' ops)'' @ [LF]), d')))"

definition runCompile :: "libraries \<Rightarrow> surroundings \<Rightarrow> (string \<Rightarrow> stat_result) \<Rightarrow> (string \<Rightarrow> error + db) \<Rightarrow> (db \<Rightarrow> error option \<times> db)
    \<Rightarrow> flags \<Rightarrow> bool \<Rightarrow> string \<Rightarrow> string \<Rightarrow> (error + string) \<times> (string \<times> db) option" where
  "runCompile l w stat sqlOpen migrate f reseed dbPath path =
     (case deriveDefaultDBPath (fs_cwd (su_fs w)) stat f path dbPath of
        Inl e \<Rightarrow> (Inl e, None)
      | Inr db \<Rightarrow>
          (case store_Open stat sqlOpen db of
             Inl e \<Rightarrow> (Inl (Errorf (''failed to open: '' @ db) e), None)
           | Inr d \<Rightarrow>
               (case migrate d of
                  (Some e, d') \<Rightarrow> (Inl (Errorf ''failed to migrate'' e), Some (db, d'))
                | (None, d') \<Rightarrow>
                    (case compile_opened l w stat f reseed path d' of (out, d'') \<Rightarrow> (out, Some (db, d''))))))"

section \<open>A failed compile command\<close>

text \<open>Unless temperatures are reseeded, a compile command keeps the invariant of the database it opened, and one that fails after that
  leaves the database as the migrations did.\<close>

lemma compile_opened_good:
  assumes "good d" "compile_opened l w stat f False path d = (res, d')"
  shows "good d' \<and> (\<forall>e. res = Inl e \<longrightarrow> d' = d)"
proof (cases "stat path")
  case (StatInfo isDir)
  show ?thesis
  proof (cases isDir)
    case True
    with StatInfo assms(2) show ?thesis
      using CompileDir_good [OF assms(1), of "\<lparr>doIgnore = None, doReseed = False\<rparr>"]
      by (fastforce simp: compile_opened_def Let_def split: prod.splits sum.splits)
  next
    case False
    with StatInfo assms(2) show ?thesis
      using CompileFile_good [OF assms(1)] by (fastforce simp: compile_opened_def Let_def split: prod.splits sum.splits)
  qed
qed (use assms in \<open>auto simp: compile_opened_def Let_def\<close>)

lemma store_Open_Inr: "store_Open stat sqlOpen path = Inr d \<Longrightarrow> sqlOpen path = Inr d"
  by (simp add: store_Open_def split: if_splits option.splits)

lemma runCompile_good:
  assumes "runCompile l w stat sqlOpen migrate f False dbPath path = (res, Some (db, d''))"
    and "\<And>d. sqlOpen db = Inr d \<Longrightarrow> good (snd (migrate d))"
  shows "good d'' \<and> (\<forall>e. res = Inl e \<longrightarrow> (\<exists>d. sqlOpen db = Inr d \<and> d'' = snd (migrate d)))"
proof -
  from assms(1) obtain d e d' where o: "store_Open stat sqlOpen db = Inr d" and m: "migrate d = (e, d')"
    and r: "if e = None then compile_opened l w stat f False path d' = (res, d'') else d'' = d'"
    by (auto simp: runCompile_def split: sum.splits prod.splits option.splits)
  from o have o': "sqlOpen db = Inr d" by (rule store_Open_Inr)
  have g: "good d'" using assms(2) [OF o'] m by simp
  show ?thesis
    using r compile_opened_good [OF g] o' m g by (auto split: if_splits)
qed

section \<open>A started server has the bridge's settings\<close>

lemma filepath_Abs_absolute:
  assumes "filepath_Abs cwd p = Inr a" "\<And>wd. cwd = Inr wd \<Longrightarrow> IsAbs wd"
  shows "IsAbs a \<and> Clean a = a"
proof -
  have *: "IsAbs (Clean q)" if "IsAbs q" for q
    using that by (cases q) (auto simp: IsAbs_def HasPrefix_def Clean_def Let_def)
  have "IsAbs (wd @ t)" if "IsAbs wd" for wd t using that by (cases wd) (auto simp: IsAbs_def HasPrefix_def)
  then have "\<exists>q. IsAbs q \<and> a = Clean q"
    using assms by (cases cwd) (auto simp: filepath_Abs_def filepath_Join_def split: if_splits, auto simp: IsAbs_def HasPrefix_def)
  then show ?thesis using * Clean_idem by auto
qed

lemma ParseDuration_bounded: "ParseDuration orig = Inr d \<Longrightarrow> d < 2 ^ 63"
  by (auto simp: ParseDuration_def Let_def bindR_Inr_iff split: if_splits)

lemma absolutize_again:
  assumes "absolutizeDBPath cwd p = Inr a" "\<And>wd. cwd = Inr wd \<Longrightarrow> IsAbs wd"
  shows "absolutizeDBPath cwd a = Inr a"
  using filepath_Abs_absolute [of cwd p a] assms by (auto simp: absolutizeDBPath_def filepath_Abs_def)

text \<open>The settings of the bridge come from its parts, the path being absolute and the interval an \<open>int64\<close>.\<close>

lemma bridge_settings_parts:
  assumes "bridge_settings cwd env f = Inr b" "\<And>wd. cwd = Inr wd \<Longrightarrow> IsAbs wd"
  shows "absolutizeDBPath cwd (brDbPath b) = Inr (brDbPath b)"
    and "brRescanInterval b < 2 ^ 63"
    and "brSourceDir b = [] \<Longrightarrow> env ''REMINDB_SOURCE'' = []"
    and "''rescan-interval'' \<notin> dom f \<Longrightarrow> env_rescan env Map.empty 0 = Inr (brRescanInterval b)"
proof -
  from assms(1) obtain v db db' rescan where v: "bridge_flags f = Inr v" and db: "absolutizeDBPath cwd (brDbPath v) = Inr db"
    and db': "env_db cwd env f db = Inr db'" and r: "env_rescan env f (brRescanInterval v) = Inr rescan"
    and b: "brDbPath b = db'" "brRescanInterval b = rescan"
      "brSourceDir b = (if brSourceDir v = [] then env ''REMINDB_SOURCE'' else brSourceDir v)"
    by (auto simp: bridge_settings_def applyBridgeEnv_def bindR_Inr_iff)
  have f: "duration_flag f ''rescan-interval'' 0 = Inr (brRescanInterval v)"
    using v by (auto simp: bridge_flags_def bindR_Inr_iff)
  show "absolutizeDBPath cwd (brDbPath b) = Inr (brDbPath b)"
    using db' db absolutize_again assms(2) b(1) by (auto simp: env_db_def split: if_splits)
  show "brRescanInterval b < 2 ^ 63"
    using r f b(2) ParseDuration_bounded by (auto simp: env_rescan_def duration_flag_def split: if_splits option.splits)
  show "env ''REMINDB_SOURCE'' = []" if "brSourceDir b = []" using that b(3) by (simp split: if_splits)
  show "env_rescan env Map.empty 0 = Inr (brRescanInterval b)" if "''rescan-interval'' \<notin> dom f"
    using that r f b(2) by (auto simp: env_rescan_def duration_flag_def domIff)
qed

text \<open>The arguments as flags.\<close>

definition flag_args :: "(string \<times> string) list \<Rightarrow> string list" where
  "flag_args fs = concat (map (\<lambda>(n, v). [''--'' @ n, v]) fs)"

definition daemon_flags :: "bridge_vars \<Rightarrow> (string \<times> string) list" where
  "daemon_flags v =
     [(''listen'', brAddr v), (''db'', brDbPath v)]
       @ (if brSourceDir v \<noteq> [] then [(''source'', brSourceDir v)] else [])
       @ (if 0 < brRescanInterval v then [(''rescan-interval'', Duration_String (brRescanInterval v))] else [])"

definition serve_flag_names :: "string set" where
  "serve_flag_names = {''db'', ''source'', ''rescan-interval'', ''listen'', ''log-file''}"

text \<open>What is relied on of cobra: each \<open>--name value\<close> sets its flag.\<close>

definition reads_flags :: "(string list \<Rightarrow> string \<times> flags) \<Rightarrow> bool" where
  "reads_flags cobra \<longleftrightarrow>
     (\<forall>fs. distinct (map fst fs) \<and> set (map fst fs) \<subseteq> serve_flag_names \<longrightarrow> cobra (''serve'' # flag_args fs) = (''serve'', map_of fs))"

lemma daemon_args_flags: "daemon_args b = ''serve'' # flag_args (daemon_flags b)"
  by (simp add: daemon_args_def flag_args_def daemon_flags_def)

lemma daemon_reads:
  assumes "reads_flags cobra"
  shows "cobra (daemon_args b) = (''serve'', map_of (daemon_flags b))"
proof -
  have "distinct (map fst (daemon_flags b))" "set (map fst (daemon_flags b)) \<subseteq> serve_flag_names"
    by (auto simp: daemon_flags_def serve_flag_names_def)
  with assms show ?thesis by (simp add: reads_flags_def daemon_args_flags)
qed

lemma daemon_flag_values:
  "map_of (daemon_flags b) ''db'' = Some (brDbPath b)"
  "map_of (daemon_flags b) ''listen'' = Some (brAddr b)"
  "map_of (daemon_flags b) ''source'' = (if brSourceDir b = [] then None else Some (brSourceDir b))"
  "map_of (daemon_flags b) ''rescan-interval''
     = (if 0 < brRescanInterval b then Some (Duration_String (brRescanInterval b)) else None)"
  by (simp_all add: daemon_flags_def)

text \<open>C27: The server a bridge starts has the bridge's settings. Whatever flags and environment the bridge was given, the arguments it
  passes, read by cobra and completed from the same environment in the same directory, give the server the bridge's
  database, address and source, and the bridge's rescan interval where that is positive (it is printed and read back exactly) or was not
  given as a flag. Where it is not positive the server takes the interval from the environment, also when the bridge was told
  otherwise by a flag.\<close>

theorem daemon_inherits:
  assumes "bridge_settings cwd env f = Inr b" "\<And>wd. cwd = Inr wd \<Longrightarrow> IsAbs wd" "reads_flags cobra"
    and "0 < brRescanInterval b \<or> env_rescan env Map.empty 0 = Inr r"
  shows "\<exists>g s. cobra (daemon_args b) = (''serve'', g) \<and> serve_settings cwd env g = Inr s
     \<and> svDbPath s = brDbPath b \<and> svListenAddr s = brAddr b \<and> svSourceDir s = brSourceDir b
     \<and> svRescanInterval s = (if 0 < brRescanInterval b then brRescanInterval b else r)
     \<and> (''rescan-interval'' \<notin> dom f \<longrightarrow> svRescanInterval s = brRescanInterval b)"
proof -
  let ?g = "map_of (daemon_flags b)"
  let ?i = "if 0 < brRescanInterval b then brRescanInterval b else r"
  note parts = bridge_settings_parts [OF assms(1,2)]
  have flag: "duration_flag ?g ''rescan-interval'' 0 = Inr (if 0 < brRescanInterval b then brRescanInterval b else 0)"
    using ParseDuration_String parts(2) by (simp add: duration_flag_def daemon_flag_values)
  have interval: "env_rescan env ?g (if 0 < brRescanInterval b then brRescanInterval b else 0) = Inr ?i"
    using assms(4) by (auto simp: env_rescan_def domIff daemon_flag_values)
  have "serve_settings cwd env ?g = Inr \<lparr>svDbPath = brDbPath b, svSourceDir = brSourceDir b, svRescanInterval = ?i,
      svListenAddr = brAddr b, svLogFile = string_flag ?g ''log-file'' []\<rparr>"
    using parts(1,3) flag interval
    by (simp add: serve_settings_def serve_flags_def applyServeEnv_def env_db_def domIff string_flag_def daemon_flag_values)
  moreover have "''rescan-interval'' \<notin> dom f \<longrightarrow> ?i = brRescanInterval b"
  proof
    assume "''rescan-interval'' \<notin> dom f"
    then have "env_rescan env Map.empty 0 = Inr (brRescanInterval b)" using parts(4) by blast
    with assms(4) show "?i = brRescanInterval b" by auto
  qed
  ultimately show ?thesis using daemon_reads [OF assms(3)] by auto
qed

text \<open>An argument reader of the documented kind.\<close>

fun pair_flags :: "string list \<Rightarrow> flags" where
  "pair_flags (n # v # args) = (pair_flags args)(drop 2 n \<mapsto> v)"
| "pair_flags args = Map.empty"

lemma pair_flags_reads: "reads_flags (\<lambda>args. (hd args, pair_flags (tl args)))"
proof -
  have "pair_flags (flag_args fs) = map_of fs" for fs by (induction fs) (auto simp: flag_args_def)
  then show ?thesis by (simp add: reads_flags_def)
qed

text \<open>A bridge told not to rescan at its own pace, in an environment that asks for half a minute.\<close>

theorem daemon_inherits_witness:
  "\<exists>b g s. bridge_settings (Inr ''/home'') (\<lambda>n. if n = ''REMINDB_RESCAN_INTERVAL'' then ''30s'' else [])
        [''rescan-interval'' \<mapsto> ''0'', ''source'' \<mapsto> ''notes''] = Inr b
     \<and> serve_settings (Inr ''/home'') (\<lambda>n. if n = ''REMINDB_RESCAN_INTERVAL'' then ''30s'' else []) g = Inr s
     \<and> brRescanInterval b = 0 \<and> svRescanInterval s = 30000000000 \<and> svDbPath s = ''/home/memory.db'' \<and> svSourceDir s = ''notes''"
proof -
  let ?env = "\<lambda>n. if n = ''REMINDB_RESCAN_INTERVAL'' then ''30s'' else []"
  let ?f = "[''rescan-interval'' \<mapsto> ''0'', ''source'' \<mapsto> ''notes'']"
  let ?b = "\<lparr>brDbPath = ''/home/memory.db'', brAddr = defaultBridgeAddr, brSourceDir = ''notes'', brRescanInterval = 0,
    brStartupTimeout = 10000000000\<rparr>"
  have zero: "ParseDuration ''0'' = Inr 0" by (simp add: ParseDuration_def)
  have nine: "9 = Suc (Suc (Suc (Suc (Suc (Suc (Suc (Suc (Suc 0))))))))" by simp
  have "fmtFrac_loop 9 30000000000 False [] = ([], 30)" unfolding nine by simp
  then have "Duration_String 30000000000 = ''30s''"
    by (simp add: Duration_String_def duration_abs_def itoa_nat.simps char_of_def bit_0)
  then have thirty: "ParseDuration ''30s'' = Inr 30000000000" using ParseDuration_String [of 30000000000] by simp
  have db: "absolutizeDBPath (Inr ''/home'') ''memory.db'' = Inr ''/home/memory.db''"
    by (simp add: absolutizeDBPath_def filepath_Abs_def IsAbs_def HasPrefix_def filepath_Join_def Clean_def clean_step_def)
  have b: "bridge_settings (Inr ''/home'') ?env ?f = Inr ?b"
    by (simp add: bridge_settings_def bridge_flags_def duration_flag_def string_flag_def zero db applyBridgeEnv_def env_db_def
        env_rescan_def)
  have "env_rescan ?env Map.empty 0 = Inr 30000000000" by (simp add: env_rescan_def thirty)
  from daemon_inherits [OF b _ pair_flags_reads, of 30000000000] this b show ?thesis
    by (fastforce simp: IsAbs_def HasPrefix_def)
qed

end
