(* ===== verification/Spec2Isabelle.thy ===== *)
theory Spec2Isabelle
  imports Migrate Server Inspect Cli
begin

text \<open>
  A verification library for remindb, a context store for language models: source files are
  parsed into a tree of context nodes, enriched, compared with what the store holds, and written
  to SQLite; queries, temperatures and an MCP server work on the stored nodes.

  The parts of the program, and how they work together. \<open>compiler.CompileDir\<close> walks a directory past the ignore
  lines, reads each supported file and hands it to \<open>parser.ParseBytes\<close>; the forest of nodes goes through
  \<open>transformer.Transform\<close>, which compresses contents, makes paths relative to the compile root, hashes, labels and
  counts, and gives every node an identifier made of its file, its parent's identifier and its place among its
  siblings. \<open>diff.DiffFlat\<close> compares the forest with the rows the store holds, and \<open>emitter.Emit\<close> applies the
  deltas and records a snapshot in one transaction. The rescan loop of \<open>pkg/mcp\<close> does the same for the files
  that changed, and purges those that are gone. Reading goes through \<open>query.Engine\<close>; every read heats the nodes it
  returns, and \<open>temperature.Tracker\<close> cools all of them on a timer. The handlers in \<open>pkg/mcp/tools\<close> offer all
  this to clients.

  Theories and packages, in the order the code depends on one another.
  \<^item> \<open>Prelude\<close>, \<open>Utf8\<close>: Go's byte strings and \<open>int\<close>, the functions of the standard packages \<open>strings\<close> and
    \<open>unicode/utf8\<close> the program calls, results with errors, lemmas on lists and maps.
  \<^item> \<open>ContentId\<close>: \<open>internal/contentid\<close>, \<open>internal/tokens\<close>, \<open>internal/fileext\<close>.
  \<^item> \<open>Ast\<close>, \<open>Values\<close>, \<open>Markdown\<close>, \<open>Parser\<close>: \<open>pkg/parser\<close>: the node type and its flattening; decoded JSON, YAML and
    TOON values (\<open>split.go\<close>, \<open>json.go\<close>, \<open>yaml.go\<close>, \<open>toon.go\<close>); Markdown and preambles; the choice of the parser.
  \<^item> \<open>Compress\<close>, \<open>Labels\<close>, \<open>Paths\<close>, \<open>Identity\<close>: \<open>pkg/transformer\<close>, pass by pass, and the pipeline \<open>Transform\<close>.
  \<^item> \<open>Diff\<close>: \<open>pkg/diff\<close>: deltas, snapshots, the cursor hash.
  \<^item> \<open>Tables\<close>, \<open>Tx\<close>, \<open>StoreOps\<close>, \<open>Search\<close>, \<open>Migrate\<close>: \<open>pkg/store\<close>: the tables as a record of row lists with the schema's
    constraints, the statements by the meaning of their SQL, transactions with retries, queries, the rewriting of
    search queries, migrations.
  \<^item> \<open>Emitter\<close>, \<open>Roots\<close>: \<open>pkg/emitter\<close>, and what a transaction does to the compile root of a node.
  \<^item> \<open>Compiler\<close>, \<open>CompileDir\<close>: \<open>pkg/compiler\<close>, with \<open>Ignore\<close> and \<open>Tempfile\<close> for \<open>internal/ignore\<close> and
    \<open>internal/tempfile\<close>.
  \<^item> \<open>Temperature\<close>: \<open>pkg/temperature\<close>. \<open>Query\<close>: \<open>pkg/query\<close>.
  \<^item> \<open>Rescan\<close>, \<open>Incremental\<close>, \<open>System\<close>: the rescan loop and the first compilation of \<open>pkg/mcp\<close>, and what compiling
    only some files means for the store. \<open>Tools\<close>: the handlers of \<open>pkg/mcp/tools\<close> and the text of results.
  \<^item> \<open>Server\<close>: \<open>pkg/mcp/server.go\<close> and \<open>serveCore\<close> of \<open>cmd/remindb\<close>: the tools, the tracker's ticks and the rescans as
    events on one store, in any order.
  \<^item> \<open>Summaries\<close>, \<open>Inspect\<close>: the statements of \<open>pkg/store\<close> that list the stored files and rewrite their paths, and
    the \<open>inspect\<close> command (\<open>cmd/remindb/inspect.go\<close>) that prints statistics, files and the tree of nodes.
  \<^item> \<open>Duration\<close>, \<open>Cli\<close>: durations as the standard library prints and parses them, and the command line in
    \<open>cmd/remindb\<close>: the database path, flags and environment of \<open>serve\<close> and \<open>bridge\<close>, the arguments and the wait with
    which a bridge starts a server, the \<open>compile\<close> command.

  State. The database is the record \<open>db\<close> of \<open>Tables\<close>: nodes, snapshots, diffs, the head cursor and the two counters
  of SQLite's row identifiers; \<open>db_ok\<close> is its invariant. Every operation takes the database and returns it, with
  an \<open>error\<close> or a result. A transaction's attempts meet an environment, a function from the attempt's number to what
  the engine does (refuse to begin, refuse to commit, let the wait between attempts end); a theorem that does not
  fix it holds for every engine. The rescan loop's own state is the record \<open>RescanLoop\<close>, the tracker's is \<open>Tracker\<close>.

  What the lemma groups show. \<open>Tables\<close> and \<open>Tx\<close>: every statement keeps the invariant, transactions are all or nothing.
  \<open>Diff\<close>: applying a diff gives the new snapshot. \<open>Identity\<close>: identifiers are as distinct as the hash. \<open>Emitter\<close>
  refines the diff's abstract effect on a map of node states to the rows of the tables. \<open>Compiler\<close> joins them: from
  every database that compilations of the directory or of parts of it, removals and temperature statements can
  produce (\<open>reachable\<close>), a full compilation leaves exactly the snapshot of its forest. \<open>Incremental\<close> shows that
  compiling only some files replaces exactly the rows of those files, and \<open>System\<close>, with the program's own parser,
  that this is the same as compiling everything. \<open>Server\<close> runs all of it: whatever the order of events, the store
  stays in order, failed calls change nothing, what is written can be fetched, and no node is warned about twice
  within the configured time. \<open>Inspect\<close> shows that every stored file is listed once under its directories, and \<open>Cli\<close> that a
  server started by a bridge works with the bridge's settings. The locales are the contracts between components: \<open>tx_body\<close>
  (what a transaction's body must keep), \<open>row_update\<close> (updates that touch only temperatures), \<open>id_scheme\<close> (what the
  identifier hash is used for), \<open>node_store\<close> (what the tracker needs of the store) and \<open>query_store\<close> (what the
  engine needs of it); each is interpreted on the store's or the transformer's own definitions.

  Limits of the model. Paths are Unix paths. Real numbers stand for \<open>float64\<close>. The hash (xxhash), the full-text
  index, the execution of a migration's statements, and the decoders of JSON, YAML, TOON and Markdown with the TOON
  encoder are arguments; what is assumed of them is a hypothesis of the theorem that needs it: that the hash does not
  collide on a stated set of inputs, that decoders do not return the program's own error. Where SQL leaves the order
  of rows open the model takes the order of insertion; where Go leaves the order of a map open, the theorem holds for
  every order or the model sorts, as said at the definition. Files are parsed in order, not concurrently, so of
  several errors the first is reported. Recursion is bounded as in the code (six attempts of a transaction, the depth
  of a tree query) or proved to end; the query for ancestors, which the code leaves to SQLite, is a partial function,
  with a theorem that it returns on every database that keeps the invariant.

  Not modelled: signals, loggers, sockets, the Windows service, updates and the version check in \<open>cmd/remindb\<close>, the
  benchmark and test support in \<open>internal\<close>, opening the database and its pragmas, the protocol library under the MCP
  server. They are process, file and network I/O around the parts above. Cobra's splitting of a command line into
  flags is an argument.
\<close>

end
